(* ===== verification/Quin_Prelude.thy ===== *)
theory Quin_Prelude
  imports Main "HOL-Library.Word"
begin

text \<open>
  Shared vocabulary of the development: the machine integer types of the C sources, a
  byte-addressed memory with little-endian 64-bit and 32-bit accesses, the value of a
  computation that may end in \<^verbatim>\<open>panic()\<close>, the two alignment helpers of
  \<^verbatim>\<open>kernel/include/kernel.h\<close>, and the word, list and counting lemmas that more
  than one component uses.
\<close>

unbundle bit_operations_syntax

named_theorems word_nat "conversions from words to natural numbers"
named_theorems mem_simps "reads of memory after writes"

section \<open>Machine integers\<close>

type_synonym u8 = "8 word"
type_synonym u16 = "16 word"
type_synonym u32 = "32 word"
type_synonym u64 = "64 word"

text \<open>
  A computation of the kernel either returns a value or reaches \<^verbatim>\<open>panic()\<close>, which
  never returns. A panic is recorded with the format string of the call and its
  integer arguments; \<open>PanicException\<close> is the end in \<^verbatim>\<open>panic_exception\<close> with the
  trapped vector and error code, and \<open>NullDeref\<close> is an access through a null pointer.
\<close>

datatype kpanic = Panic string "u64 list" | PanicException u64 u64 | NullDeref

type_synonym 'a kresult = "kpanic + 'a"

section \<open>Words as natural numbers\<close>

lemma unat_lt_64: "unat (x :: u64) < 18446744073709551616"
  using unsigned_less [of x] by simp

lemma unat_lt_32: "unat (x :: u32) < 4294967296"
  using unsigned_less [of x] by simp

lemma unat_lt_8: "unat (x :: u8) < 256"
  using unsigned_less [of x] by simp

lemma unat_of_nat_64 [word_nat]: "n < 18446744073709551616 \<Longrightarrow> unat (of_nat n :: u64) = n"
  by (simp add: unat_of_nat)

lemma unat_add_64 [word_nat]:
  "unat x + unat y < 18446744073709551616 \<Longrightarrow> unat (x + y :: u64) = unat x + unat y"
  by (simp add: unat_word_ariths)

lemma unat_add_of_nat_64 [word_nat]:
  assumes "unat x + n < 18446744073709551616"
  shows "unat (x + of_nat n :: u64) = unat x + n"
proof -
  have "unat (of_nat n :: u64) = n" using assms by (simp add: unat_of_nat_64)
  then show ?thesis using assms by (simp add: unat_word_ariths)
qed

lemma unat_mult_64 [word_nat]:
  "unat x * unat y < 18446744073709551616 \<Longrightarrow> unat (x * y :: u64) = unat x * unat y"
  by (simp add: unat_word_ariths)

lemma unat_sub_64 [word_nat]: "y \<le> x \<Longrightarrow> unat (x - y :: u64) = unat x - unat y"
  by (simp add: unat_sub)

lemma unat_div_64 [word_nat]: "unat (x div y :: u64) = unat x div unat y"
  by (simp add: unat_div)

lemma unat_mod_64 [word_nat]: "unat (x mod y :: u64) = unat x mod unat y"
  by (simp add: unat_mod)

lemma unat_plus_one_64 [word_nat]: "x < y \<Longrightarrow> unat (x + 1 :: u64) = unat x + 1"
proof -
  assume "x < y"
  then have "unat x + 1 < 18446744073709551616"
    using unat_lt_64 [of y] unfolding word_less_nat_alt by linarith
  then show ?thesis by (simp add: unat_add_64)
qed

lemma unat_plus_one_32 [word_nat]: "x < y \<Longrightarrow> unat (x + 1 :: u32) = unat x + 1"
proof -
  assume "x < y"
  then have "unat x + 1 < 4294967296"
    using unat_lt_32 [of y] unfolding word_less_nat_alt by linarith
  then show ?thesis by (simp add: unat_word_ariths)
qed

lemma unat_minus_64 [word_nat]: "v \<noteq> 0 \<Longrightarrow> unat (- v :: u64) = 2 ^ 64 - unat v"
  by (simp add: unat_sub_if_size word_size unat_arith_simps flip: diff_0)

lemma word64_eqI: "unat (x :: u64) = unat y \<Longrightarrow> x = y"
  by (simp add: word_unat_eq_iff)

lemma unat_pow2_64:
  assumes "n < 64"
  shows "unat (2 ^ n :: u64) = 2 ^ n"
proof -
  have "(2 :: nat) ^ n < 2 ^ 64"
    using assms by (simp only: power_strict_increasing_iff)
  then have "unat (of_nat (2 ^ n) :: u64) = 2 ^ n"
    by (simp only: unat_of_nat) simp
  then show ?thesis by simp
qed

lemma word_of_nat_eqI_unat: "unat (x :: u64) = n \<Longrightarrow> x = of_nat n"
  by auto

lemma unat_ucast_u32: "unat (ucast (i :: u32) :: u64) = unat i"
  using unat_lt_32 [of i] by (simp add: unsigned_ucast_eq take_bit_nat_eq_self_iff)

lemma unat_ucast_8_64: "unat (ucast (x :: u8) :: u64) = unat x"
  using unat_lt_8 [of x] by (simp add: unsigned_ucast_eq take_bit_nat_eq_self)

text \<open>The distance between two addresses decides whether ranges overlap, wrap-around included.\<close>

lemma word_diff_zero_iff: "(x :: u64) - a = 0 \<longleftrightarrow> x = a"
  by simp

section \<open>Intervals\<close>

lemma all_interval_Suc:
  "(\<forall>j. (i :: nat) \<le> j \<and> j < n \<longrightarrow> P j) \<longleftrightarrow>
     (i < n \<longrightarrow> P i) \<and> (\<forall>j. Suc i \<le> j \<and> j < n \<longrightarrow> P j)"
  by (metis Suc_le_eq le_eq_less_or_eq)

section \<open>Alignment helpers\<close>

text \<open>\<^verbatim>\<open>align_up\<close> and \<^verbatim>\<open>align_down\<close> of \<^verbatim>\<open>kernel/include/kernel.h\<close>; both wrap as the C code does.\<close>

definition align_up :: "u64 \<Rightarrow> u64 \<Rightarrow> u64" where
  "align_up value align = (value + (align - 1)) AND NOT (align - 1)"

definition align_down :: "u64 \<Rightarrow> u64 \<Rightarrow> u64" where
  "align_down value align = value AND NOT (align - 1)"

lemma and_not_mask_eq: "(x :: 'a::len word) AND NOT (mask n) = x - take_bit n x"
proof -
  have "NOT x AND take_bit n x = 0"
    by (rule bit_word_eqI) (simp add: bit_simps)
  then have "x - take_bit n x = x AND NOT (take_bit n x)"
    by (rule disjunctive_diff_eq_and_not)
  also have "\<dots> = x AND NOT (mask n)"
    by (rule bit_word_eqI) (auto simp: bit_simps)
  finally show ?thesis by simp
qed

lemma align_down_pow2:
  assumes "n < 64"
  shows "align_down v (2 ^ n) = v - take_bit n v"
  using assms by (simp add: align_down_def and_not_mask_eq flip: mask_eq_exp_minus_1)

lemma unat_align_down_pow2:
  assumes "n < 64"
  shows "unat (align_down v (2 ^ n)) = unat v div 2 ^ n * 2 ^ n"
proof -
  have t: "unat (take_bit n v) = unat v mod 2 ^ n"
    by (simp only: unsigned_take_bit_eq) (simp add: take_bit_eq_mod)
  then have "take_bit n v \<le> v"
    by (simp add: word_le_nat_alt)
  then show ?thesis
    using assms t by (simp add: align_down_pow2 unat_sub_64 minus_mod_eq_div_mult)
qed

lemma align_up_as_down: "align_up v a = align_down (v + (a - 1)) a"
  by (simp add: align_up_def align_down_def)

lemma unat_align_up_pow2:
  assumes "n < 64" and "unat v + (2 ^ n - 1) < 2 ^ 64"
  shows "unat (align_up v (2 ^ n)) = (unat v + (2 ^ n - 1)) div 2 ^ n * 2 ^ n"
proof -
  have p: "unat (2 ^ n :: u64) = 2 ^ n"
    using assms(1) by (rule unat_pow2_64)
  have "unat ((2 :: u64) ^ n - 1) = 2 ^ n - 1"
    using p by (simp add: unat_sub_64 word_le_nat_alt)
  then have "unat (v + (2 ^ n - 1)) = unat v + (2 ^ n - 1)"
    using assms(2) by (simp add: unat_add_64)
  then show ?thesis
    using assms(1) by (simp add: align_up_as_down unat_align_down_pow2)
qed

section \<open>Byte-addressed memory\<close>

text \<open>
  Memory maps an address to a byte; the 64-bit and 32-bit accesses of the code are
  little-endian, as on x86-64, and wrap at the end of the address space.
\<close>

type_synonym mem = "u64 \<Rightarrow> u8"

definition load32 :: "mem \<Rightarrow> u64 \<Rightarrow> u32" where
  "load32 m a = ucast (m a) OR push_bit 8 (ucast (m (a + 1))) OR
     push_bit 16 (ucast (m (a + 2))) OR push_bit 24 (ucast (m (a + 3)))"

definition load64 :: "mem \<Rightarrow> u64 \<Rightarrow> u64" where
  "load64 m a = ucast (m a) OR push_bit 8 (ucast (m (a + 1))) OR
     push_bit 16 (ucast (m (a + 2))) OR push_bit 24 (ucast (m (a + 3))) OR
     push_bit 32 (ucast (m (a + 4))) OR push_bit 40 (ucast (m (a + 5))) OR
     push_bit 48 (ucast (m (a + 6))) OR push_bit 56 (ucast (m (a + 7)))"

definition store64 :: "mem \<Rightarrow> u64 \<Rightarrow> u64 \<Rightarrow> mem" where
  "store64 m a v = m(a := ucast v, a + 1 := ucast (drop_bit 8 v),
     a + 2 := ucast (drop_bit 16 v), a + 3 := ucast (drop_bit 24 v),
     a + 4 := ucast (drop_bit 32 v), a + 5 := ucast (drop_bit 40 v),
     a + 6 := ucast (drop_bit 48 v), a + 7 := ucast (drop_bit 56 v))"

lemma less8_cases:
  "(k :: nat) < 8 \<Longrightarrow> k = 0 \<or> k = 1 \<or> k = 2 \<or> k = 3 \<or> k = 4 \<or> k = 5 \<or> k = 6 \<or> k = 7"
  by arith

lemma store64_byte:
  "k < 8 \<Longrightarrow> store64 m a v (a + of_nat k) = ucast (drop_bit (8 * k) v)"
  by (drule less8_cases) (elim disjE; simp add: store64_def)

lemma bit_load64_at:
  assumes "k < 8" and "r < 8"
  shows "bit (load64 m a) (8 * k + r) = bit (m (a + of_nat k)) r"
  using less8_cases [OF assms(1)] assms(2) bit_imp_le_length [of "m _"]
  by (elim disjE; force simp: load64_def bit_simps)

lemma bit_load64:
  assumes "n < 64"
  shows "bit (load64 m a) n = bit (m (a + of_nat (n div 8))) (n mod 8)"
  using bit_load64_at [of "n div 8" "n mod 8" m a] assms by simp

lemma load64_store64_same [simp, mem_simps]: "load64 (store64 m a v) a = v"
proof (rule bit_word_eqI)
  fix n assume "n < LENGTH(64)"
  then show "bit (load64 (store64 m a v) a) n = bit v n"
    by (simp add: bit_load64 store64_byte bit_simps)
qed

lemma store64_outside: "\<not> x - a < 8 \<Longrightarrow> store64 m a v x = m x"
  by (auto simp: store64_def)

lemma not_in_range8:
  assumes "8 \<le> b - a" and "8 \<le> a - b" and "i < 8"
  shows "\<not> b + i - a < (8 :: u64)"
proof -
  define d where "d = b - a"
  have "8 \<le> unat d" and "8 \<le> unat (- d)"
    using assms(1,2) by (simp_all add: d_def word_le_nat_alt)
  moreover have "unat (- d) = 2 ^ 64 - unat d"
    using \<open>8 \<le> unat d\<close> by (subst unat_minus_64) auto
  moreover have "unat i < 8" using assms(3) by (simp add: word_less_nat_alt)
  ultimately have "unat (d + i) = unat d + unat i"
    by (simp add: unat_add_64)
  then have "\<not> d + i < 8"
    using \<open>8 \<le> unat d\<close> by (simp add: word_less_nat_alt)
  moreover have "b + i - a = d + i" unfolding d_def by (simp add: algebra_simps)
  ultimately show ?thesis by metis
qed

lemma load64_cong: "(\<And>i. i < 8 \<Longrightarrow> m (a + i) = m' (a + i)) \<Longrightarrow> load64 m a = load64 m' a"
proof -
  assume h: "\<And>i. i < 8 \<Longrightarrow> m (a + i) = m' (a + i)"
  show ?thesis
    using h [of 0] h [of 1] h [of 2] h [of 3] h [of 4] h [of 5] h [of 6] h [of 7]
    by (simp add: load64_def)
qed

lemma load64_store64_other [mem_simps]:
  assumes "8 \<le> b - a" and "8 \<le> a - b"
  shows "load64 (store64 m a v) b = load64 m b"
  by (rule load64_cong) (simp add: store64_outside not_in_range8 assms)

end
