(* ===== verification/Lib_Printf.thy ===== *)
theory Lib_Printf
  imports Quin_Prelude
begin

text \<open>
  \<^verbatim>\<open>kernel/lib/printf.c\<close>: the kernel's one formatter. The character sink is a
  parameter, as in the code; a C string is the list of the characters before its NUL. The
  locale \<open>char_sink\<close> says what a sink promises, and every sink that keeps the promise
  receives exactly what the formatter renders.
\<close>

section \<open>Emitting numbers and strings\<close>

primrec emit_times :: "(char \<Rightarrow> 's \<Rightarrow> 's) \<Rightarrow> char \<Rightarrow> nat \<Rightarrow> 's \<Rightarrow> 's" where
  "emit_times emit c 0 s = s"
| "emit_times emit c (Suc n) s = emit_times emit c n (emit c s)"

primrec emit_all :: "(char \<Rightarrow> 's \<Rightarrow> 's) \<Rightarrow> string \<Rightarrow> 's \<Rightarrow> 's" where
  "emit_all emit [] s = s"
| "emit_all emit (c # cs) s = emit_all emit cs (emit c s)"

text \<open>The width is a C \<^verbatim>\<open>int\<close>, and so is the length after its conversion.\<close>

definition emit_padded :: "(char \<Rightarrow> 's \<Rightarrow> 's) \<Rightarrow> string \<Rightarrow> int \<Rightarrow> bool \<Rightarrow> 's \<Rightarrow> 's" where
  "emit_padded emit digits width zero_pad s =
     (let pad = width - sint (of_nat (length digits) :: 32 word);
          s1 = emit_times emit (if zero_pad then CHR ''0'' else CHR '' '') (nat pad) s
      in emit_all emit digits s1)"

definition lower :: string where "lower = ''0123456789abcdef''"
definition upper_digits :: string where "upper_digits = ''0123456789ABCDEF''"

text \<open>
  The do-while loop that fills \<^verbatim>\<open>digits\<close>, least significant first; the counter is
  the room left in the array.
\<close>

primrec digits_loop :: "nat \<Rightarrow> string \<Rightarrow> u64 \<Rightarrow> u64 \<Rightarrow> string" where
  "digits_loop 0 table base v = []"
| "digits_loop (Suc room) table base v =
     table ! unat (v mod base) #
       (if v div base \<noteq> 0 \<and> room \<noteq> 0 then digits_loop room table base (v div base) else [])"

definition emit_unsigned :: "(char \<Rightarrow> 's \<Rightarrow> 's) \<Rightarrow> u64 \<Rightarrow> u32 \<Rightarrow> bool \<Rightarrow> int \<Rightarrow> bool \<Rightarrow> 's \<Rightarrow> 's" where
  "emit_unsigned emit v base upper width zero_pad s =
     (let table = (if upper then upper_digits else lower);
          digits = digits_loop 32 table (ucast base) v;
          reversed = map (\<lambda>i. digits ! (length digits - 1 - i)) [0..<length digits]
      in emit_padded emit reversed width zero_pad s)"

definition emit_signed :: "(char \<Rightarrow> 's \<Rightarrow> 's) \<Rightarrow> u64 \<Rightarrow> int \<Rightarrow> bool \<Rightarrow> 's \<Rightarrow> 's" where
  "emit_signed emit v width zero_pad s =
     (if sint v < 0 then
        let s1 = emit CHR ''-'' s;
            magnitude = - (v + 1) + 1
        in emit_unsigned emit magnitude 10 False (if width > 0 then width - 1 else 0) zero_pad s1
      else emit_unsigned emit v 10 False width zero_pad s)"

section \<open>The format string\<close>

text \<open>
  What a call passes after the format. Taking an argument that is not there or has another
  type, stepping past the format's NUL and a width beyond \<^verbatim>\<open>int\<close> are undefined
  behaviour in C and end the model's run with a fault.
\<close>

datatype printf_arg = Arg_int u32 | Arg_long u64 | Arg_ptr u64 | Arg_str "string option"

datatype printf_fault = Bad_argument | Past_terminator | Width_overflow

definition digit_value :: "char \<Rightarrow> int" where
  "digit_value c = int (of_char c) - 48"

definition parse_zero :: "string \<Rightarrow> bool \<times> string" where
  "parse_zero p = (case p of c # r \<Rightarrow> if c = CHR ''0'' then (True, r) else (False, p) | [] \<Rightarrow> (False, p))"

primrec parse_width :: "string \<Rightarrow> int \<Rightarrow> (int \<times> string) option" where
  "parse_width [] width = Some (width, [])"
| "parse_width (c # p) width =
     (if 0 \<le> digit_value c \<and> digit_value c \<le> 9
      then (let w = width * 10 + digit_value c in if 2 ^ 31 \<le> w then None else parse_width p w)
      else Some (width, c # p))"

primrec parse_length :: "string \<Rightarrow> nat \<times> string" where
  "parse_length [] = (0, [])"
| "parse_length (c # p) =
     (if c = CHR ''l'' then (let (n, r) = parse_length p in (Suc n, r)) else (0, c # p))"

text \<open>\<^verbatim>\<open>length > 0 ? va_arg(ap, long) : va_arg(ap, int)\<close>, and the unsigned one.\<close>

definition take_signed :: "nat \<Rightarrow> printf_arg list \<Rightarrow> (u64 \<times> printf_arg list) option" where
  "take_signed n args =
     (case args of
        Arg_long v # r \<Rightarrow> if n > 0 then Some (v, r) else None
      | Arg_int v # r \<Rightarrow> if n > 0 then None else Some (scast v, r)
      | _ \<Rightarrow> None)"

definition take_unsigned :: "nat \<Rightarrow> printf_arg list \<Rightarrow> (u64 \<times> printf_arg list) option" where
  "take_unsigned n args =
     (case args of
        Arg_long v # r \<Rightarrow> if n > 0 then Some (v, r) else None
      | Arg_int v # r \<Rightarrow> if n > 0 then None else Some (ucast v, r)
      | _ \<Rightarrow> None)"

text \<open>The switch on the conversion character; \<open>None\<close> when the argument does not fit.\<close>

definition convert :: "(char \<Rightarrow> 's \<Rightarrow> 's) \<Rightarrow> char \<Rightarrow> bool \<Rightarrow> int \<Rightarrow> nat \<Rightarrow> printf_arg list \<Rightarrow> 's \<Rightarrow>
    ('s \<times> printf_arg list) option" where
  "convert emit conv zero_pad width n args s =
     (if conv = CHR ''d'' \<or> conv = CHR ''i'' then
        map_option (\<lambda>(v, r). (emit_signed emit v width zero_pad s, r)) (take_signed n args)
      else if conv = CHR ''u'' then
        map_option (\<lambda>(v, r). (emit_unsigned emit v 10 False width zero_pad s, r)) (take_unsigned n args)
      else if conv = CHR ''x'' \<or> conv = CHR ''X'' then
        map_option (\<lambda>(v, r). (emit_unsigned emit v 16 (conv = CHR ''X'') width zero_pad s, r))
          (take_unsigned n args)
      else if conv = CHR ''p'' then
        (case args of
           Arg_ptr a # r \<Rightarrow>
             Some (emit_unsigned emit a 16 False 16 True (emit CHR ''x'' (emit CHR ''0'' s)), r)
         | _ \<Rightarrow> None)
      else if conv = CHR ''s'' then
        (case args of
           Arg_str str # r \<Rightarrow>
             Some (emit_padded emit (case str of None \<Rightarrow> ''(null)'' | Some cs \<Rightarrow> cs) width False s, r)
         | _ \<Rightarrow> None)
      else if conv = CHR ''c'' then
        (case args of Arg_int v # r \<Rightarrow> Some (emit (char_of (unat v)) s, r) | _ \<Rightarrow> None)
      else if conv = CHR ''%'' then Some (emit CHR ''%'' s, args)
      else Some (emit conv (emit CHR ''%'' s), args))"

lemma parse_width_length: "parse_width p w = Some (w', r) \<Longrightarrow> length r \<le> length p"
  by (induction p arbitrary: w) (auto simp: Let_def split: if_splits intro: le_SucI)

lemma parse_length_length: "length (snd (parse_length p)) \<le> length p"
  by (induction p) (auto simp: case_prod_beta intro: le_SucI)

lemma parse_zero_length: "length (snd (parse_zero p)) \<le> length p"
  by (auto simp: parse_zero_def split: list.split)

lemma parse_shrinks:
  assumes "parse_width (snd (parse_zero p)) 0 = Some (width, q)" "snd (parse_length q) = conv # rest"
  shows "length rest < Suc (length p)"
  using parse_width_length [OF assms(1)] parse_zero_length [of p] parse_length_length [of q] assms(2)
  by simp

function kvprintf :: "(char \<Rightarrow> 's \<Rightarrow> 's) \<Rightarrow> string \<Rightarrow> printf_arg list \<Rightarrow> 's \<Rightarrow> printf_fault + 's" where
  "kvprintf emit fmt args s =
     (case fmt of
        [] \<Rightarrow> Inr s
      | c # p \<Rightarrow>
          if c \<noteq> CHR ''%'' then kvprintf emit p args (emit c s)
          else if p = [] then Inr s
          else
            case parse_width (snd (parse_zero p)) 0 of
              None \<Rightarrow> Inl Width_overflow
            | Some (width, q) \<Rightarrow>
                (case snd (parse_length q) of
                   [] \<Rightarrow> Inl Past_terminator
                 | conv # rest \<Rightarrow>
                     (case convert emit conv (fst (parse_zero p)) width (fst (parse_length q)) args s of
                        None \<Rightarrow> Inl Bad_argument
                      | Some (s1, args1) \<Rightarrow> kvprintf emit rest args1 s1)))"
  by pat_completeness auto
termination
  by (relation "measure (\<lambda>(emit, fmt, args, s). length fmt)") (auto dest: parse_shrinks)

declare kvprintf.simps [simp del]

section \<open>What is printed\<close>

text \<open>The texts, as functions of the values alone.\<close>

definition pad_left :: "char \<Rightarrow> int \<Rightarrow> string \<Rightarrow> string" where
  "pad_left c width cs = replicate (nat (width - sint (of_nat (length cs) :: 32 word))) c @ cs"

function nat_text :: "string \<Rightarrow> nat \<Rightarrow> nat \<Rightarrow> string" where
  "nat_text table base n =
     (if n < base \<or> base < 2 then [table ! (n mod base)]
      else nat_text table base (n div base) @ [table ! (n mod base)])"
  by pat_completeness auto
termination by (relation "measure (\<lambda>(t, b, n). n)") auto

declare nat_text.simps [simp del]

definition unsigned_text :: "u64 \<Rightarrow> nat \<Rightarrow> bool \<Rightarrow> int \<Rightarrow> bool \<Rightarrow> string" where
  "unsigned_text v base upper width zero_pad =
     pad_left (if zero_pad then CHR ''0'' else CHR '' '') width
       (nat_text (if upper then upper_digits else lower) base (unat v))"

lemma emit_all_append: "emit_all emit (xs @ ys) s = emit_all emit ys (emit_all emit xs s)"
  by (induction xs arbitrary: s) simp_all

lemma emit_times_all: "emit_times emit c n s = emit_all emit (replicate n c) s"
  by (induction n arbitrary: s) simp_all

lemma emit_padded_all:
  "emit_padded emit cs width z s =
     emit_all emit (pad_left (if z then CHR ''0'' else CHR '' '') width cs) s"
  by (simp add: emit_padded_def pad_left_def emit_times_all emit_all_append Let_def)

lemma reverse_loop: "map (\<lambda>i. xs ! (length xs - 1 - i)) [0..<length xs] = rev xs"
  by (rule nth_equalityI) (simp_all add: rev_nth)

text \<open>Thirty-two places are enough: in base ten a 64-bit value has at most twenty digits.\<close>

lemma digits_loop_text:
  assumes "2 \<le> unat b" "unat v < unat b ^ room" "0 < room"
  shows "rev (digits_loop room table b v) = nat_text table (unat b) (unat v)"
  using assms(2,3)
proof (induction room arbitrary: v)
  case (Suc room)
  have d: "unat (v div b) = unat v div unat b" "unat (v mod b) = unat v mod unat b"
    by (simp_all add: unat_div_64 unat_mod_64)
  have z: "v div b = 0 \<longleftrightarrow> unat v < unat b"
    using assms(1) by (simp add: word_unat_eq_iff d div_eq_0_iff)
  have lt: "unat (v div b) < unat b ^ room"
    using Suc.prems(1) by (simp add: d less_mult_imp_div_less mult.commute)
  show ?case
  proof (cases "v div b = 0")
    case True
    then show ?thesis using z by (simp add: nat_text.simps [of _ _ "unat v"] d)
  next
    case False
    then have "room \<noteq> 0" using lt by (cases room) (auto simp: word_unat_eq_iff)
    then show ?thesis
      using Suc.IH [OF lt] False z assms(1) by (simp add: nat_text.simps [of _ _ "unat v"] d)
  qed
qed simp

lemma emit_unsigned_all:
  assumes "base \<in> {10, 16}"
  shows "emit_unsigned emit v base upper width z s =
    emit_all emit (unsigned_text v (unat base) upper width z) s"
proof -
  have b: "unat (ucast base :: u64) = unat base" "2 \<le> unat base"
    using assms by auto
  have "(10 :: nat) ^ 20 \<le> unat base ^ 20" using assms by (intro power_mono) auto
  also have "\<dots> \<le> unat base ^ 32" using b(2) by (intro power_increasing) auto
  finally have "unat v < unat base ^ 32" using unat_lt_64 [of v] by simp
  then have "rev (digits_loop 32 t (ucast base) v) = nat_text t (unat base) (unat v)" for t
    using digits_loop_text [of "ucast base" v 32 t] b by simp
  then show ?thesis
    by (simp only: emit_unsigned_def Let_def reverse_loop emit_padded_all unsigned_text_def)
qed

definition signed_text :: "u64 \<Rightarrow> int \<Rightarrow> bool \<Rightarrow> string" where
  "signed_text v width z =
     (if sint v < 0 then ''-'' @ unsigned_text (- (v + 1) + 1) 10 False (if width > 0 then width - 1 else 0) z
      else unsigned_text v 10 False width z)"

lemma emit_signed_all: "emit_signed emit v width z s = emit_all emit (signed_text v width z) s"
  by (simp add: emit_signed_def signed_text_def emit_unsigned_all Let_def)

text \<open>The sink that keeps what it receives, and what the formatter renders into it.\<close>

definition snoc :: "char \<Rightarrow> string \<Rightarrow> string" where "snoc c cs = cs @ [c]"

definition render :: "string \<Rightarrow> printf_arg list \<Rightarrow> printf_fault + string" where
  "render fmt args = kvprintf snoc fmt args []"

lemma emit_all_snoc: "emit_all snoc cs acc = acc @ cs"
  by (induction cs arbitrary: acc) (simp_all add: snoc_def)

lemma convert_all:
  "convert emit conv z w n args (emit_all emit acc s) =
     map_option (\<lambda>(out, r). (emit_all emit out s, r)) (convert snoc conv z w n args acc)"
proof -
  note texts = emit_signed_all emit_unsigned_all emit_padded_all emit_all_snoc emit_all_append snoc_def
  consider "conv = CHR ''d'' \<or> conv = CHR ''i''" | "conv = CHR ''u''"
    | "conv = CHR ''x'' \<or> conv = CHR ''X''" | "conv = CHR ''p''" | "conv = CHR ''s''" | "conv = CHR ''c''"
    | "conv = CHR ''%''" | "conv \<notin> set ''diuxXpsc%''" by fastforce
  then show ?thesis
  proof cases
    case 1 then show ?thesis by (cases "take_signed n args") (auto simp: convert_def texts)
  next
    case 2 then show ?thesis by (cases "take_unsigned n args") (auto simp: convert_def texts)
  next
    case 3 then show ?thesis by (cases "take_unsigned n args") (auto simp: convert_def texts)
  next
    case 4 then show ?thesis by (simp add: convert_def texts split: list.split printf_arg.split)
  next
    case 5 then show ?thesis by (simp add: convert_def texts split: list.split printf_arg.split)
  next
    case 6 then show ?thesis by (simp add: convert_def texts split: list.split printf_arg.split)
  next
    case 7 then show ?thesis by (simp add: convert_def texts)
  next
    case 8 then show ?thesis by (simp add: convert_def texts)
  qed
qed

lemma kvprintf_all:
  "kvprintf emit fmt args (emit_all emit acc s) =
     map_sum (\<lambda>e. e) (\<lambda>out. emit_all emit out s) (kvprintf snoc fmt args acc)"
proof (induction fmt arbitrary: args acc rule: length_induct)
  case (1 fmt)
  have next_conv: "kvprintf emit rest a (emit_all emit acc' s) =
      map_sum (\<lambda>e. e) (\<lambda>out. emit_all emit out s) (kvprintf snoc rest a acc')"
    if "length rest < length fmt" for rest a acc'
    using 1 that by blast
  show ?case
  proof (cases fmt)
    case (Cons c p)
    have plain: "emit c (emit_all emit acc s) = emit_all emit (snoc c acc) s"
      by (simp add: snoc_def emit_all_append)
    show ?thesis
      using next_conv [of p args "snoc c acc"] next_conv parse_shrinks [of p]
      by (simp add: Cons kvprintf.simps [of _ "c # p"] plain convert_all case_prod_beta
          split: option.split list.split)
  qed (simp add: kvprintf.simps)
qed

text \<open>For rendering a concrete format with symbolic arguments.\<close>

lemmas rendering = render_def kvprintf.simps parse_zero_def digit_value_def take_signed_def take_unsigned_def
  convert_def Let_def emit_unsigned_all emit_signed_all emit_padded_all emit_all_snoc snoc_def

section \<open>Reading numbers back\<close>

lemma sint_of_nat_small:
  assumes "n < 2 ^ 31" shows "sint (of_nat n :: 32 word) = int n"
  using assms by (simp add: signed_of_nat signed_take_bit_int_eq_self_iff)

definition digit_of :: "char \<Rightarrow> nat" where
  "digit_of c = (let n = of_char c in if n \<le> 57 then n - 48 else if n \<le> 70 then n - 55 else n - 87)"

definition text_value :: "nat \<Rightarrow> string \<Rightarrow> nat" where
  "text_value base cs = foldl (\<lambda>n c. n * base + digit_of c) 0 cs"

lemma table_digits:
  "list_all (\<lambda>d. digit_of (lower ! d) = d \<and> digit_of (upper_digits ! d) = d) [0..<16]"
  by code_simp

lemma table_digit: "d < 16 \<Longrightarrow> digit_of (lower ! d) = d \<and> digit_of (upper_digits ! d) = d"
  using table_digits by (auto simp: list_all_iff)

lemma text_value_nat_text:
  assumes "base = 10 \<or> base = 16" "table = lower \<or> table = upper_digits"
  shows "text_value base (nat_text table base n) = n"
proof (induction n rule: less_induct)
  case (less n)
  have d: "digit_of (table ! (n mod base)) = n mod base"
    using table_digit [of "n mod base"] assms by (auto intro: less_le_trans)
  show ?case
  proof (cases "n < base")
    case True
    then show ?thesis using d by (simp add: nat_text.simps [of _ _ n] text_value_def)
  next
    case False
    then have "text_value base (nat_text table base (n div base)) = n div base"
      using assms(1) by (intro less) auto
    then show ?thesis
      using False assms(1) d by (auto simp: nat_text.simps [of _ _ n] text_value_def)
  qed
qed

lemma hd_nat_text:
  assumes "base = 10 \<or> base = 16" "table = lower \<or> table = upper_digits"
  shows "nat_text table base n \<noteq> [] \<and> (digit_of (hd (nat_text table base n)) = 0 \<longleftrightarrow> n = 0)"
proof (induction n rule: less_induct)
  case (less n)
  have d: "digit_of (table ! (n mod base)) = n mod base"
    using table_digit [of "n mod base"] assms by (auto intro: less_le_trans)
  show ?case
  proof (cases "n < base")
    case True
    then show ?thesis using d by (simp add: nat_text.simps [of _ _ n])
  next
    case False
    then have "n div base < n" "n div base \<noteq> 0" using assms(1) by (auto simp: div_eq_0_iff)
    then show ?thesis
      using less [of "n div base"] False assms(1) by (auto simp: nat_text.simps [of _ _ n])
  qed
qed

lemma length_nat_text:
  assumes "2 \<le> base" "n < base ^ k" "0 < k"
  shows "length (nat_text table base n) \<le> k"
  using assms(2,3)
proof (induction k arbitrary: n)
  case (Suc k)
  show ?case
  proof (cases "n < base")
    case True
    then show ?thesis by (simp add: nat_text.simps [of _ _ n])
  next
    case False
    then have "0 < k" using Suc.prems(1) by (cases k) auto
    moreover have "n div base < base ^ k"
      using Suc.prems(1) by (simp add: less_mult_imp_div_less mult.commute)
    ultimately show ?thesis using Suc.IH [of "n div base"] False assms(1) by (simp add: nat_text.simps [of _ _ n])
  qed
qed simp

text \<open>A 64-bit value takes at most twenty characters in either base.\<close>

lemma length_u64_text:
  assumes "base = 10 \<or> base = 16" shows "length (nat_text table base (unat (v :: u64))) \<le> 20"
proof -
  have "(10 :: nat) ^ 20 \<le> base ^ 20" using assms by (intro power_mono) auto
  then have "unat v < base ^ 20" using unat_lt_64 [of v] by simp
  then show ?thesis using length_nat_text [of base "unat v" 20] assms by auto
qed

lemma pad_left_short:
  "length cs \<le> 20 \<Longrightarrow> pad_left c width cs = replicate (nat (width - int (length cs))) c @ cs"
  by (simp add: pad_left_def sint_of_nat_small)

lemma magnitude_negative:
  fixes v :: u64
  assumes "sint v < 0" shows "int (unat (- (v + 1) + 1)) = - sint v"
proof -
  have e: "- (v + 1) + 1 = - v" by simp
  have "v \<noteq> 0" using assms by auto
  then have "int (unat (- v)) = 2 ^ 64 - int (unat v)"
    using unat_lt_64 [of v] by (simp add: unat_minus_64 of_nat_diff)
  moreover have "take_bit 64 (uint v) = uint v"
    using unsigned_less [of v] by (intro take_bit_int_eq_self) simp_all
  then have "sint v = uint v - 2 ^ 64 * of_bool (bit (uint v) 63)"
    by (simp add: sint_uint signed_take_bit_eq_take_bit_minus)
  then have "sint v = int (unat v) - 2 ^ 64" using assms by (auto simp: of_bool_def split: if_splits)
  ultimately show ?thesis unfolding e by simp
qed

section \<open>Sinks\<close>

text \<open>What a sink promises: one more character is received after the ones before it.\<close>

locale char_sink =
  fixes emit :: "char \<Rightarrow> 's \<Rightarrow> 's"
    and received :: "'s \<Rightarrow> string \<Rightarrow> bool"
  assumes emit_received: "received s xs \<Longrightarrow> received (emit c s) (xs @ [c])"
begin

lemma emit_all_received: "received s xs \<Longrightarrow> received (emit_all emit cs s) (xs @ cs)"
proof (induction cs arbitrary: s xs)
  case (Cons c cs)
  then show ?case using Cons.IH [OF emit_received [OF Cons.prems, of c]] by simp
qed simp

lemma kvprintf_received:
  assumes "received s xs"
  shows "case render fmt args of Inl e \<Rightarrow> kvprintf emit fmt args s = Inl e
    | Inr out \<Rightarrow> \<exists>s'. kvprintf emit fmt args s = Inr s' \<and> received s' (xs @ out)"
  using kvprintf_all [of emit fmt args "[]" s] emit_all_received [OF assms]
  by (auto simp: render_def split: sum.split)

end

section \<open>Printing into a buffer\<close>

record snprintf_ctx =
  sn_mem :: mem
  sn_buf :: u64
  sn_size :: u64
  sn_written :: u64

definition snprintf_emit :: "char \<Rightarrow> snprintf_ctx \<Rightarrow> snprintf_ctx" where
  "snprintf_emit c ctx =
     (let ctx1 = (if sn_written ctx + 1 < sn_size ctx
                  then ctx\<lparr>sn_mem := (sn_mem ctx)(sn_buf ctx + sn_written ctx := of_char c)\<rparr> else ctx)
      in ctx1\<lparr>sn_written := sn_written ctx1 + 1\<rparr>)"

definition ksnprintf :: "mem \<Rightarrow> u64 \<Rightarrow> u64 \<Rightarrow> string \<Rightarrow> printf_arg list \<Rightarrow> printf_fault + (u32 \<times> mem)" where
  "ksnprintf m buf sz fmt args =
     (case kvprintf snprintf_emit fmt args
             \<lparr>sn_mem = m, sn_buf = buf, sn_size = sz, sn_written = 0\<rparr> of
        Inl e \<Rightarrow> Inl e
      | Inr ctx \<Rightarrow>
          let m1 = (if sz > 0 then
                      let term = (if sn_written ctx < sz - 1 then sn_written ctx else sz - 1)
                      in (sn_mem ctx)(buf + term := 0)
                    else sn_mem ctx)
          in Inr (ucast (sn_written ctx), m1))"

text \<open>A context that has received \<open>xs\<close>: as much of it as fits stands in the buffer.\<close>

definition snprintf_received :: "mem \<Rightarrow> u64 \<Rightarrow> u64 \<Rightarrow> snprintf_ctx \<Rightarrow> string \<Rightarrow> bool" where
  "snprintf_received m buf sz ctx xs \<longleftrightarrow>
     sn_buf ctx = buf \<and> sn_size ctx = sz \<and> sn_written ctx = of_nat (length xs) \<and>
     (length xs < 2 ^ 64 \<longrightarrow>
        (\<forall>x. sn_mem ctx x = (if unat (x - buf) < length xs \<and> unat (x - buf) + 1 < unat sz
           then of_char (xs ! unat (x - buf)) else m x)))"

lemma snprintf_emit_received:
  assumes "snprintf_received m buf sz ctx xs"
  shows "snprintf_received m buf sz (snprintf_emit c ctx) (xs @ [c])"
proof -
  let ?n = "length xs"
  have r: "sn_buf ctx = buf" "sn_size ctx = sz" "sn_written ctx = of_nat ?n"
    using assms by (simp_all add: snprintf_received_def)
  have "sn_mem (snprintf_emit c ctx) x = (if unat (x - buf) < length (xs @ [c]) \<and> unat (x - buf) + 1 < unat sz
      then of_char ((xs @ [c]) ! unat (x - buf)) else m x)" if lt: "length (xs @ [c]) < 2 ^ 64" for x
  proof -
    have n: "unat (of_nat ?n :: u64) = ?n" "unat (of_nat ?n + 1 :: u64) = ?n + 1"
      using lt by (simp_all add: unat_of_nat_64 unat_add_64)
    have old: "sn_mem ctx x = (if unat (x - buf) < ?n \<and> unat (x - buf) + 1 < unat sz
        then of_char (xs ! unat (x - buf)) else m x)"
      using assms lt by (simp add: snprintf_received_def)
    have at: "x = buf + of_nat ?n \<longleftrightarrow> unat (x - buf) = ?n"
      using n(1) by (metis add_diff_cancel_left' diff_add_cancel add.commute word_of_nat_eqI_unat)
    show ?thesis
      using at old by (auto simp: snprintf_emit_def r Let_def word_less_nat_alt n nth_append less_Suc_eq)
  qed
  then show ?thesis using r by (simp add: snprintf_received_def) (simp add: snprintf_emit_def Let_def)
qed

interpretation sn: char_sink snprintf_emit "snprintf_received m buf sz" for m buf sz
  by unfold_locales (rule snprintf_emit_received)

section \<open>Properties\<close>


text \<open>
  C20: bounded printing. \<^verbatim>\<open>ksnprintf\<close> returns the length of the whole rendering. It writes
  as much of it as fits below the last byte of the buffer, then a NUL, and not one byte more; with
  a size of 0 it writes nothing at all.
\<close>

theorem ksnprintf_correct:
  assumes "render fmt args = Inr out" and "length out < 2 ^ 64"
  shows "\<exists>m'. ksnprintf m buf sz fmt args = Inr (of_nat (length out), m') \<and>
    (\<forall>x. m' x =
       (if unat (x - buf) < min (length out) (unat sz - 1) then of_char (out ! unat (x - buf))
        else if unat (x - buf) = min (length out) (unat sz - 1) \<and> 0 < sz then 0 else m x))"
proof -
  let ?c = "\<lparr>sn_mem = m, sn_buf = buf, sn_size = sz, sn_written = 0\<rparr>" and ?n = "length out"
  have "snprintf_received m buf sz ?c []" by (simp add: snprintf_received_def)
  from sn.kvprintf_received [OF this, of fmt args] obtain ctx
    where k: "kvprintf snprintf_emit fmt args ?c = Inr ctx" and r: "snprintf_received m buf sz ctx out"
    using assms(1) by auto
  have w: "sn_written ctx = of_nat ?n" and n: "unat (of_nat ?n :: u64) = ?n"
    and mem: "sn_mem ctx x = (if unat (x - buf) < ?n \<and> unat (x - buf) + 1 < unat sz
      then of_char (out ! unat (x - buf)) else m x)" for x
    using r assms(2) by (simp_all add: snprintf_received_def unat_of_nat_64)
  define endp where "endp = (if of_nat ?n < sz - 1 then of_nat ?n else sz - 1)"
  have "unat (sz - 1) = unat sz - 1" if "0 < sz"
    using that by (subst unat_sub_64) (simp_all add: word_le_nat_alt word_less_nat_alt)
  then have t: "unat endp = min ?n (unat sz - 1)" if "0 < sz"
    using that by (simp add: endp_def word_less_nat_alt n min_def)
  have at: "x = buf + endp \<longleftrightarrow> unat (x - buf) = unat endp" for x
    by (metis add_diff_cancel_left' diff_add_cancel add.commute word64_eqI)
  let ?m = "if 0 < sz then (sn_mem ctx)(buf + endp := 0) else sn_mem ctx"
  have "?m x = (if unat (x - buf) < min ?n (unat sz - 1) then of_char (out ! unat (x - buf))
      else if unat (x - buf) = min ?n (unat sz - 1) \<and> 0 < sz then 0 else m x)" for x
    using at [of x] t by (cases "0 < sz") (auto simp: mem word_less_nat_alt)
  moreover have "(of_nat (unat (of_nat ?n :: u64)) :: u32) = ucast (of_nat ?n :: u64)"
    by (rule of_nat_unat)
  then have "ucast (of_nat ?n :: u64) = (of_nat ?n :: u32)" unfolding n by simp
  then have "ksnprintf m buf sz fmt args = Inr (of_nat ?n, ?m)"
    using k by (simp only: ksnprintf_def w endp_def Let_def sum.case) 
  ultimately show ?thesis by blast
qed

theorem ksnprintf_correct_witness:
  "\<exists>m'. ksnprintf (\<lambda>_. 7) 0x1000 4 ''n=%d!'' [Arg_int 42] = Inr (5, m') \<and>
     m' 0x1000 = of_char CHR ''n'' \<and> m' 0x1002 = of_char CHR ''4'' \<and> m' 0x1003 = 0 \<and> m' 0x1004 = 7"
proof -
  have "render ''n=%d!'' [Arg_int 42] = Inr ''n=42!''" by code_simp
  from ksnprintf_correct [OF this, of "\<lambda>_. 7" "0x1000" 4] show ?thesis by auto
qed


lemma parse_width_digits:
  assumes "\<forall>c \<in> set ds. 0 \<le> digit_value c \<and> digit_value c \<le> 9" "0 \<le> w"
    and "(w + 1) * 10 ^ length ds \<le> 2 ^ 31" "ls = [] \<or> \<not> digit_value (hd ls) \<le> 9"
  shows "\<exists>w'. parse_width (ds @ ls) w = Some (w', ls)"
  using assms(1,2,3)
proof (induction ds arbitrary: w)
  case Nil
  then show ?case using assms(4) by (cases ls) auto
next
  case (Cons d ds)
  let ?w = "w * 10 + digit_value d"
  have "(?w + 1) * 10 ^ length ds \<le> ((w + 1) * 10) * 10 ^ length ds"
    using Cons.prems(1) by (intro mult_right_mono) auto
  also have "\<dots> = (w + 1) * 10 ^ length (d # ds)" by simp
  finally have b: "(?w + 1) * 10 ^ length ds \<le> 2 ^ 31" using Cons.prems(3) by (rule order_trans)
  have "?w + 1 \<le> (?w + 1) * 10 ^ length ds"
    using Cons.prems(1,2) by (simp add: mult_le_cancel_left1)
  then have "?w < 2 ^ 31" using b by simp
  then show ?case using Cons.IH [of ?w] Cons.prems b by (simp add: Let_def)
qed

lemma digit_characters: "list_all (\<lambda>c. 0 \<le> digit_value c \<and> digit_value c \<le> 9) ''0123456789''"
  by code_simp

lemma parse_length_all: "parse_length (replicate n CHR ''l'') = (n, [])"
  by (induction n) simp_all

text \<open>
  A conversion cut short. When the format ends inside a conversion, after a flag, width
  or length but before the conversion character, the formatter steps past the terminating NUL; only
  a format that ends right after the percent sign is handled.
\<close>

theorem kvprintf_past_terminator:
  assumes "\<forall>c \<in> set ds. c \<in> set ''0123456789''" and "length ds \<le> 9" and "ds @ ls \<noteq> []"
    and "ls = replicate n CHR ''l''"
  shows "kvprintf emit (CHR ''%'' # ds @ ls) args s = Inl Past_terminator \<and>
    kvprintf emit ''%'' args s = Inr s"
proof -
  let ?ds = "case ds of [] \<Rightarrow> [] | c # r \<Rightarrow> if c = CHR ''0'' then r else ds"
  have z: "snd (parse_zero (ds @ ls)) = ?ds @ ls"
    using assms(4) by (cases ds; cases n) (auto simp: parse_zero_def)
  have "set ?ds \<subseteq> set ds" by (cases ds) auto
  then have d: "\<forall>c \<in> set ?ds. 0 \<le> digit_value c \<and> digit_value c \<le> 9"
    using assms(1) digit_characters unfolding list_all_iff by blast
  have "length ?ds \<le> 9" using assms(2) by (auto split: list.splits)
  then have "(10 :: int) ^ length ?ds \<le> 10 ^ 9" by (intro power_increasing) auto
  then obtain w where "parse_width (?ds @ ls) 0 = Some (w, ls)"
    using parse_width_digits [of ?ds 0 ls] d assms(4) by (cases n) (auto simp: digit_value_def)
  then have "kvprintf emit (CHR ''%'' # ds @ ls) args s = Inl Past_terminator"
    unfolding kvprintf.simps [of emit "CHR ''%'' # ds @ ls"]
    using assms(3,4) z parse_length_all [of n] by simp
  then show ?thesis by (simp add: kvprintf.simps [of _ "''%''"])
qed

theorem kvprintf_past_terminator_witness:
  "kvprintf snoc ''%08l'' [] [] = Inl Past_terminator"
proof -
  have "\<forall>c \<in> set ''08''. c \<in> set ''0123456789''" by simp
  moreover have "length ''08'' \<le> 9" "''08'' @ ''l'' \<noteq> []" "''l'' = replicate 1 CHR ''l''" by simp_all
  ultimately have "kvprintf snoc (CHR ''%'' # ''08'' @ ''l'') [] [] = Inl Past_terminator \<and>
      kvprintf snoc ''%'' [] [] = Inr []"
    by (rule kvprintf_past_terminator)
  then show ?thesis by simp
qed


end
