(* ===== verification/Arch_Io.thy ===== *)
theory Arch_Io
  imports Quin_Prelude
begin

text \<open>
  \<^verbatim>\<open>kernel/arch/x86_64/cpu/io.h\<close>: port input and output and the model-specific
  registers. What the devices answer is a parameter, a function from the number of the read and
  the port; every write is recorded. The 16- and 32-bit port accesses have no caller and are left
  out.
\<close>

record ports =
  port_answers :: "nat \<Rightarrow> u16 \<Rightarrow> u8"
  port_reads :: nat
  port_writes :: "(u16 \<times> u8) list"

definition outb :: "u16 \<Rightarrow> u8 \<Rightarrow> ports \<Rightarrow> ports" where
  "outb port value s = s\<lparr>port_writes := port_writes s @ [(port, value)]\<rparr>"

definition inb :: "u16 \<Rightarrow> ports \<Rightarrow> u8 \<times> ports" where
  "inb port s = (port_answers s (port_reads s) port, s\<lparr>port_reads := port_reads s + 1\<rparr>)"

definition io_wait :: "ports \<Rightarrow> ports" where "io_wait s = outb 0x80 0 s"

text \<open>\<^verbatim>\<open>cli\<close> and \<^verbatim>\<open>sti\<close> on the flags register, whose bit 9 is the interrupt flag.\<close>

definition io_disable_interrupts :: "u64 \<Rightarrow> u64" where "io_disable_interrupts f = f AND NOT 0x200"
definition io_enable_interrupts :: "u64 \<Rightarrow> u64" where "io_enable_interrupts f = f OR 0x200"

text \<open>The register file; \<^verbatim>\<open>rdmsr\<close> and \<^verbatim>\<open>wrmsr\<close> move it in two halves.\<close>

type_synonym msrs = "u32 \<Rightarrow> u64"

definition rdmsr :: "u32 \<Rightarrow> msrs \<Rightarrow> u64" where
  "rdmsr msr r =
     (let lo = ucast (r msr) :: u32; hi = ucast (drop_bit 32 (r msr)) :: u32
      in push_bit 32 (ucast hi) OR ucast lo)"

definition wrmsr :: "u32 \<Rightarrow> u64 \<Rightarrow> msrs \<Rightarrow> msrs" where
  "wrmsr msr value r =
     (let lo = ucast (value AND 0xffffffff) :: u32; hi = ucast (drop_bit 32 value) :: u32
      in r(msr := push_bit 32 (ucast hi) OR ucast lo))"

lemma halves:
  "(push_bit 32 (ucast (ucast (drop_bit 32 (v :: u64)) :: u32)) OR ucast (ucast v :: u32) :: u64) = v"
proof (rule bit_word_eqI)
  fix n assume "n < LENGTH(64)"
  moreover have "n < 32 \<or> 32 + (n - 32) = n" by arith
  ultimately show "bit (push_bit 32 (ucast (ucast (drop_bit 32 v) :: u32)) OR ucast (ucast v :: u32) :: u64) n = bit v n"
    by (auto simp: bit_simps)
qed

lemma rdmsr_value [simp]: "rdmsr msr r = r msr"
  by (simp add: rdmsr_def halves)

lemma wrmsr_value [simp]: "wrmsr msr v r = r(msr := v)"
proof -
  have "(0xffffffff :: u64) = mask 32" by (simp add: mask_eq_exp_minus_1)
  then have "v AND 0xffffffff = take_bit 32 v" by (simp add: take_bit_eq_mask)
  then have "ucast (v AND 0xffffffff) = (ucast v :: u32)"
    by (intro bit_word_eqI) (simp add: bit_simps)
  then show ?thesis by (simp add: wrmsr_def halves)
qed

section \<open>Polled ports\<close>

text \<open>\<^verbatim>\<open>while (!(inb(port) & mask)) {}\<close>.\<close>

partial_function (option) poll_port :: "u16 \<Rightarrow> u8 \<Rightarrow> ports \<Rightarrow> ports option" where
  "poll_port port bits s =
     (let (v, s1) = inb port s in if v AND bits \<noteq> 0 then Some s1 else poll_port port bits s1)"

text \<open>The first answer from read \<open>n\<close> on that has one of the bits.\<close>

definition answered :: "(nat \<Rightarrow> u16 \<Rightarrow> u8) \<Rightarrow> u16 \<Rightarrow> u8 \<Rightarrow> nat \<Rightarrow> nat \<Rightarrow> bool" where
  "answered ans port bits n k \<longleftrightarrow> n \<le> k \<and> ans k port AND bits \<noteq> 0 \<and> (\<forall>j. n \<le> j \<longrightarrow> j < k \<longrightarrow> ans j port AND bits = 0)"

lemma poll_port_result:
  assumes "answered (port_answers s) port bits (port_reads s) k"
  shows "poll_port port bits s = Some (s\<lparr>port_reads := k + 1\<rparr>)"
  using assms
proof (induction "k - port_reads s" arbitrary: s)
  case 0
  then have "port_reads s = k" by (simp add: answered_def)
  then show ?case using 0 by (subst poll_port.simps) (simp add: inb_def answered_def)
next
  case (Suc d)
  then have l: "port_reads s < k" by simp
  let ?s = "s\<lparr>port_reads := port_reads s + 1\<rparr>"
  have "answered (port_answers ?s) port bits (port_reads ?s) k" using Suc.prems l by (auto simp: answered_def)
  then have "poll_port port bits ?s = Some (?s\<lparr>port_reads := k + 1\<rparr>)" using Suc by (intro Suc.hyps(1)) simp_all
  then show ?case using Suc.prems l by (subst poll_port.simps) (simp add: inb_def answered_def)
qed

lemma eventually_answered:
  assumes "\<exists>k \<ge> n. ans k port AND bits \<noteq> (0 :: u8)"
  shows "\<exists>k. answered ans port bits n k"
proof -
  let ?P = "\<lambda>k. n \<le> k \<and> ans k port AND bits \<noteq> 0"
  have "?P (LEAST k. ?P k)" by (rule LeastI_ex) (use assms in blast)
  then show ?thesis unfolding answered_def using not_less_Least [of _ ?P] by blast
qed

end
