(* ===== verification/Drv_Serial.thy ===== *)
theory Drv_Serial
  imports Arch_Io
begin

text \<open>
  \<^verbatim>\<open>kernel/drivers/serial/serial.c\<close>: the first serial port, written byte by byte once its
  transmitter reports room. Waiting for the transmitter need not end, so the operations that wait
  return an option.
\<close>

section \<open>State and operations\<close>

abbreviation (input) COM1 :: u16 where "COM1 \<equiv> 0x3f8"
abbreviation (input) REG_DATA :: u16 where "REG_DATA \<equiv> 0"
abbreviation (input) REG_INT_ENABLE :: u16 where "REG_INT_ENABLE \<equiv> 1"
abbreviation (input) REG_FIFO_CTRL :: u16 where "REG_FIFO_CTRL \<equiv> 2"
abbreviation (input) REG_LINE_CTRL :: u16 where "REG_LINE_CTRL \<equiv> 3"
abbreviation (input) REG_MODEM_CTRL :: u16 where "REG_MODEM_CTRL \<equiv> 4"
abbreviation (input) REG_LINE_STATUS :: u16 where "REG_LINE_STATUS \<equiv> 5"

record serial =
  com :: ports
  serial_present :: bool

definition serial_init :: "serial \<Rightarrow> serial" where
  "serial_init s =
     (let p = com s;
          p = outb (COM1 + REG_INT_ENABLE) 0x00 p;
          p = outb (COM1 + REG_LINE_CTRL) 0x80 p;
          p = outb (COM1 + REG_DATA) 0x03 p;
          p = outb (COM1 + REG_INT_ENABLE) 0x00 p;
          p = outb (COM1 + REG_LINE_CTRL) 0x03 p;
          p = outb (COM1 + REG_FIFO_CTRL) 0xc7 p;
          p = outb (COM1 + REG_MODEM_CTRL) 0x0b p;
          p = outb (COM1 + REG_MODEM_CTRL) 0x1e p;
          p = outb (COM1 + REG_DATA) 0xae p;
          (echo, p) = inb (COM1 + REG_DATA) p;
          p = outb (COM1 + REG_MODEM_CTRL) 0x0f p
      in \<lparr>com = p, serial_present = (echo = 0xae)\<rparr>)"

text \<open>\<^verbatim>\<open>while (!transmit_empty()) {}\<close> and the byte.\<close>

definition transmit :: "u8 \<Rightarrow> serial \<Rightarrow> serial option" where
  "transmit byte s =
     map_option (\<lambda>p. s\<lparr>com := outb (COM1 + REG_DATA) byte p\<rparr>) (poll_port (COM1 + REG_LINE_STATUS) 0x20 (com s))"

function serial_putc :: "char \<Rightarrow> serial \<Rightarrow> serial option" where
  "serial_putc c s =
     (if \<not> serial_present s then Some s
      else Option.bind (if c = CHR 0x0A then serial_putc (CHR 0x0D) s else Some s) (transmit (of_char c)))"
  by pat_completeness auto
termination
  by (relation "measure (\<lambda>(c, s). if c = CHR 0x0A then 1 else 0)") auto

declare serial_putc.simps [simp del]

text \<open>The string is the list of the characters before its NUL; the counted one may hold NULs.\<close>

primrec serial_write :: "string \<Rightarrow> serial \<Rightarrow> serial option" where
  "serial_write [] s = Some s"
| "serial_write (c # cs) s = Option.bind (serial_putc c s) (serial_write cs)"

primrec serial_write_from :: "string \<Rightarrow> nat \<Rightarrow> nat \<Rightarrow> serial \<Rightarrow> serial option" where
  "serial_write_from str i 0 s = Some s"
| "serial_write_from str i (Suc left) s = Option.bind (serial_putc (str ! i) s) (serial_write_from str (Suc i) left)"

definition serial_write_n :: "string \<Rightarrow> u64 \<Rightarrow> serial \<Rightarrow> serial option" where
  "serial_write_n str len s = serial_write_from str 0 (unat len) s"

section \<open>What reaches the line\<close>

text \<open>The transmitter works: whenever it is polled long enough it reports room.\<close>

definition transmitter_ready :: "serial \<Rightarrow> bool" where
  "transmitter_ready s \<longleftrightarrow> (\<forall>n. \<exists>k \<ge> n. port_answers (com s) k (COM1 + REG_LINE_STATUS) AND 0x20 \<noteq> 0)"

text \<open>The bytes of a text on the line: a carriage return before every newline.\<close>

primrec crlf :: "string \<Rightarrow> u8 list" where
  "crlf [] = []"
| "crlf (c # cs) = (if c = CHR 0x0A then [0x0d, 0x0a] else [of_char c]) @ crlf cs"

lemma crlf_append: "crlf (xs @ ys) = crlf xs @ crlf ys"
  by (induction xs) auto

text \<open>One state after another of the same port, with the bytes sent in between.\<close>

definition sent :: "serial \<Rightarrow> u8 list \<Rightarrow> serial \<Rightarrow> bool" where
  "sent s bytes s' \<longleftrightarrow> serial_present s' = serial_present s \<and> port_answers (com s') = port_answers (com s) \<and>
     port_writes (com s') = port_writes (com s) @ (if serial_present s then map (\<lambda>b. (COM1 + REG_DATA, b)) bytes else [])"

lemma sent_refl: "sent s [] s" by (simp add: sent_def)

lemma sent_trans: "sent s xs s' \<Longrightarrow> sent s' ys s'' \<Longrightarrow> sent s (xs @ ys) s''"
  by (simp add: sent_def)

lemma sent_ready: "sent s xs s' \<Longrightarrow> transmitter_ready s' = transmitter_ready s"
  by (simp add: sent_def transmitter_ready_def)

lemma transmit_sends:
  assumes "transmitter_ready s" "serial_present s"
  shows "\<exists>s'. transmit b s = Some s' \<and> sent s [b] s'"
proof -
  obtain k where "answered (port_answers (com s)) (COM1 + REG_LINE_STATUS) 0x20 (port_reads (com s)) k"
    using eventually_answered assms(1) unfolding transmitter_ready_def by blast
  from poll_port_result [OF this] show ?thesis
    using assms(2) by (simp add: transmit_def outb_def sent_def)
qed

lemma serial_putc_sends:
  assumes "transmitter_ready s"
  shows "\<exists>s'. serial_putc c s = Some s' \<and> sent s (crlf [c]) s'"
proof (cases "serial_present s")
  case False
  then show ?thesis by (simp add: serial_putc.simps sent_def)
next
  case True
  have plain: "\<exists>s'. serial_putc c s = Some s' \<and> sent s (crlf [c]) s'" if "c \<noteq> CHR 0x0A" for c
    using that transmit_sends [OF assms True] by (subst serial_putc.simps) (simp add: True)
  show ?thesis
  proof (cases "c = CHR 0x0A")
    case newline: True
    obtain s1 where s1: "serial_putc (CHR 0x0D) s = Some s1" "sent s [0x0d] s1" using plain [of "CHR 0x0D"] by auto
    have "serial_present s1" using s1(2) True by (simp add: sent_def)
    then obtain s2 where "transmit 0x0a s1 = Some s2" "sent s1 [0x0a] s2"
      using transmit_sends sent_ready [OF s1(2)] assms by blast
    then show ?thesis
      using newline True s1 sent_trans [OF s1(2)] by (subst serial_putc.simps) simp
  next
    case False
    then show ?thesis by (rule plain)
  qed
qed

lemma serial_write_sends:
  assumes "transmitter_ready s"
  shows "\<exists>s'. serial_write cs s = Some s' \<and> sent s (crlf cs) s'"
  using assms
proof (induction cs arbitrary: s)
  case (Cons c cs)
  obtain s1 where s1: "serial_putc c s = Some s1" "sent s (crlf [c]) s1"
    using serial_putc_sends [OF Cons.prems] by blast
  obtain s2 where "serial_write cs s1 = Some s2" "sent s1 (crlf cs) s2"
    using Cons.IH [of s1] Cons.prems sent_ready [OF s1(2)] by blast
  then show ?case using s1 sent_trans [OF s1(2)] crlf_append [of "[c]" cs] by simp
qed (simp add: sent_refl)

lemma serial_write_from_take:
  "i + n \<le> length str \<Longrightarrow> serial_write_from str i n = serial_write (take n (drop i str))"
proof (induction n arbitrary: i)
  case (Suc n)
  have "serial_write_from str (Suc i) n = serial_write (take n (drop (Suc i) str))"
    using Suc.prems by (intro Suc.IH) simp
  then show ?case using Suc.prems by (intro ext) (simp add: Cons_nth_drop_Suc [symmetric])
qed (simp add: fun_eq_iff)

lemma serial_write_n_take:
  "unat len \<le> length str \<Longrightarrow> serial_write_n str len s = serial_write (take (unat len) str) s"
  by (simp add: serial_write_n_def serial_write_from_take)

text \<open>The probe: the port counts as present exactly when the loopback returns the byte sent.\<close>

lemma serial_init_probe:
  "serial_present (serial_init s) \<longleftrightarrow> port_answers (com s) (port_reads (com s)) 0x3f8 = 0xae"
  "port_answers (com (serial_init s)) = port_answers (com s)"
  by (simp_all add: serial_init_def Let_def outb_def inb_def)

end
