(* ===== verification/Boot_Info.thy ===== *)
theory Boot_Info
  imports Quin_Prelude
begin

text \<open>
  \<^verbatim>\<open>kernel/include/boot_info.h\<close> and the accessors of
  \<^verbatim>\<open>kernel/arch/x86_64/boot/limine_requests.c\<close>. The bootloader's answers are a
  parameter of the model: the record \<open>limine_responses\<close> holds, for every request the
  kernel places in its image, the response pointer (\<open>None\<close> when it is null) and of
  each response the fields the kernel reads.
\<close>

section \<open>Plain boot information\<close>

record boot_framebuffer =
  fb_address :: u64
  fb_width :: u64
  fb_height :: u64
  fb_pitch :: u64
  fb_bpp :: u16
  red_mask_size :: u8
  red_mask_shift :: u8
  green_mask_size :: u8
  green_mask_shift :: u8
  blue_mask_size :: u8
  blue_mask_shift :: u8

abbreviation (input) BOOT_MEMMAP_USABLE :: u64 where "BOOT_MEMMAP_USABLE \<equiv> 0"
abbreviation (input) BOOT_MEMMAP_BOOTLOADER_RECLAIMABLE :: u64 where
  "BOOT_MEMMAP_BOOTLOADER_RECLAIMABLE \<equiv> 5"
abbreviation (input) BOOT_MEMMAP_EXECUTABLE_AND_MODULES :: u64 where
  "BOOT_MEMMAP_EXECUTABLE_AND_MODULES \<equiv> 6"

record boot_memmap_entry =
  entry_base :: u64
  entry_length :: u64
  entry_type :: u64

record boot_kernel_address =
  physical_base :: u64
  virtual_base :: u64

section \<open>The bootloader's responses and their accessors\<close>

record limine_responses =
  framebuffer_response :: "boot_framebuffer list option"
  hhdm_response :: "u64 option"
  memmap_response :: "boot_memmap_entry list option"
  executable_address_response :: "boot_kernel_address option"
  rsdp_response :: "u64 option"

definition boot_get_framebuffer :: "limine_responses \<Rightarrow> boot_framebuffer option" where
  "boot_get_framebuffer lim =
     (case framebuffer_response lim of
        None \<Rightarrow> None
      | Some fbs \<Rightarrow> (case fbs of [] \<Rightarrow> None | fb # _ \<Rightarrow> Some fb))"

text \<open>The one accessor that does not test its response pointer.\<close>

definition boot_get_hhdm_offset :: "limine_responses \<Rightarrow> u64 kresult" where
  "boot_get_hhdm_offset lim =
     (case hhdm_response lim of None \<Rightarrow> Inl NullDeref | Some off \<Rightarrow> Inr off)"

text \<open>The copy goes into a static buffer of 256 entries; longer maps are cut off there.\<close>

definition boot_get_memmap :: "limine_responses \<Rightarrow> boot_memmap_entry list option" where
  "boot_get_memmap lim =
     (case memmap_response lim of
        None \<Rightarrow> None
      | Some es \<Rightarrow>
          let count = (if length es > 256 then 256 else length es)
          in Some (map (\<lambda>i. \<lparr>entry_base = entry_base (es ! i),
               entry_length = entry_length (es ! i), entry_type = entry_type (es ! i)\<rparr>) [0..<count]))"

definition boot_get_kernel_address :: "limine_responses \<Rightarrow> boot_kernel_address option" where
  "boot_get_kernel_address lim = executable_address_response lim"

definition boot_get_rsdp :: "limine_responses \<Rightarrow> u64 option" where
  "boot_get_rsdp lim = rsdp_response lim"

lemma boot_get_memmap_take:
  "boot_get_memmap lim = map_option (take 256) (memmap_response lim)"
  by (auto simp: boot_get_memmap_def Let_def intro!: nth_equalityI split: option.split)

end
