(* ===== verification/Lib_String.thy ===== *)
theory Lib_String
  imports Quin_Prelude
begin

text \<open>
  \<^verbatim>\<open>kernel/lib/string.c\<close>: the freestanding memory and string routines. The four
  memory routines loop over a \<^verbatim>\<open>size_t\<close> counter that stays below \<open>n\<close>, so the
  counter is a natural number here; addresses wrap as pointers do. \<^verbatim>\<open>memcpy\<close>,
  \<^verbatim>\<open>memset\<close> and \<^verbatim>\<open>memmove\<close> return their first argument in C, which no caller
  uses; the model returns the memory they leave behind. \<^verbatim>\<open>strlen\<close> and
  \<^verbatim>\<open>strcmp\<close> read until a NUL byte, so not returning is the value \<open>None\<close>.
\<close>

section \<open>The routines\<close>

function memcpy_from :: "mem \<Rightarrow> u64 \<Rightarrow> u64 \<Rightarrow> nat \<Rightarrow> nat \<Rightarrow> mem" where
  "memcpy_from m d s i n =
     (if i < n then memcpy_from (m(d + of_nat i := m (s + of_nat i))) d s (Suc i) n else m)"
  by pat_completeness auto
termination
  by (relation "measure (\<lambda>(m, d, s, i, n). n - i)") auto

definition memcpy :: "mem \<Rightarrow> u64 \<Rightarrow> u64 \<Rightarrow> u64 \<Rightarrow> mem" where
  "memcpy m dest src n = memcpy_from m dest src 0 (unat n)"

function memset_from :: "mem \<Rightarrow> u64 \<Rightarrow> u8 \<Rightarrow> nat \<Rightarrow> nat \<Rightarrow> mem" where
  "memset_from m d byte i n =
     (if i < n then memset_from (m(d + of_nat i := byte)) d byte (Suc i) n else m)"
  by pat_completeness auto
termination
  by (relation "measure (\<lambda>(m, d, byte, i, n). n - i)") auto

definition memset :: "mem \<Rightarrow> u64 \<Rightarrow> u32 \<Rightarrow> u64 \<Rightarrow> mem" where
  "memset m dest value n = memset_from m dest (ucast value) 0 (unat n)"

fun memcpy_down :: "mem \<Rightarrow> u64 \<Rightarrow> u64 \<Rightarrow> nat \<Rightarrow> mem" where
  "memcpy_down m d s 0 = m"
| "memcpy_down m d s (Suc i) = memcpy_down (m(d + of_nat i := m (s + of_nat i))) d s i"

definition memmove :: "mem \<Rightarrow> u64 \<Rightarrow> u64 \<Rightarrow> u64 \<Rightarrow> mem" where
  "memmove m dest src n =
     (if dest = src \<or> n = 0 then m
      else if dest < src then memcpy_from m dest src 0 (unat n)
      else memcpy_down m dest src (unat n))"

function memcmp_from :: "mem \<Rightarrow> u64 \<Rightarrow> u64 \<Rightarrow> nat \<Rightarrow> nat \<Rightarrow> int" where
  "memcmp_from m a b i n =
     (if i < n then
        if m (a + of_nat i) \<noteq> m (b + of_nat i)
        then uint (m (a + of_nat i)) - uint (m (b + of_nat i))
        else memcmp_from m a b (Suc i) n
      else 0)"
  by pat_completeness auto
termination
  by (relation "measure (\<lambda>(m, a, b, i, n). n - i)") auto

definition memcmp :: "mem \<Rightarrow> u64 \<Rightarrow> u64 \<Rightarrow> u64 \<Rightarrow> int" where
  "memcmp m a b n = memcmp_from m a b 0 (unat n)"

partial_function (option) strlen_from :: "mem \<Rightarrow> u64 \<Rightarrow> u64 \<Rightarrow> u64 option" where
  "strlen_from m str len =
     (if m (str + len) \<noteq> 0 then strlen_from m str (len + 1) else Some len)"

definition strlen :: "mem \<Rightarrow> u64 \<Rightarrow> u64 option" where
  "strlen m str = strlen_from m str 0"

partial_function (option) strcmp :: "mem \<Rightarrow> u64 \<Rightarrow> u64 \<Rightarrow> int option" where
  "strcmp m a b =
     (if m a \<noteq> 0 \<and> m a = m b then strcmp m (a + 1) (b + 1)
      else Some (uint (m a) - uint (m b)))"

function strncmp_from :: "mem \<Rightarrow> u64 \<Rightarrow> u64 \<Rightarrow> nat \<Rightarrow> nat \<Rightarrow> int" where
  "strncmp_from m a b i n =
     (if i < n then
        if m (a + of_nat i) \<noteq> m (b + of_nat i) \<or> m (a + of_nat i) = 0
        then uint (m (a + of_nat i)) - uint (m (b + of_nat i))
        else strncmp_from m a b (Suc i) n
      else 0)"
  by pat_completeness auto
termination
  by (relation "measure (\<lambda>(m, a, b, i, n). n - i)") auto

definition strncmp :: "mem \<Rightarrow> u64 \<Rightarrow> u64 \<Rightarrow> u64 \<Rightarrow> int" where
  "strncmp m a b n = strncmp_from m a b 0 (unat n)"

declare memcpy_from.simps [simp del] memset_from.simps [simp del]
  memcmp_from.simps [simp del] strncmp_from.simps [simp del]

section \<open>What the memory routines leave behind\<close>

lemma memset_from_apply:
  assumes "n < 2 ^ 64"
  shows "memset_from m d byte i n x =
    (if i \<le> unat (x - d) \<and> unat (x - d) < n then byte else m x)"
  using assms
proof (induction m d byte i n rule: memset_from.induct)
  case (1 m d byte i n)
  show ?case
  proof (cases "i < n")
    case True
    have "x = d + of_nat i \<longleftrightarrow> unat (x - d) = i"
      using True 1(2) by (auto simp: unat_of_nat_64)
    with True 1 show ?thesis
      by (auto simp: memset_from.simps [of m d byte i n] Suc_le_eq fun_upd_def)
  next
    case False
    then show ?thesis by (auto simp: memset_from.simps)
  qed
qed

lemma memset_apply: "memset m d v n x = (if x - d < n then ucast v else m x)"
  using memset_from_apply [of "unat n" m d "ucast v" 0 x]
  by (simp add: memset_def word_less_nat_alt unat_lt_64)

lemma offset_eq_iff: "n < 2 ^ 64 \<Longrightarrow> (x :: u64) = d + of_nat n \<longleftrightarrow> unat (x - d) = n"
  by (auto simp: unat_of_nat_64)

text \<open>Copying upwards reads every source byte before it is overwritten when \<open>d < s\<close>.\<close>

lemma memcpy_from_apply:
  assumes "\<And>j k. j < k \<Longrightarrow> k < n \<Longrightarrow> s + of_nat k \<noteq> d + of_nat j" and "n < 2 ^ 64"
  shows "memcpy_from m d s i n x =
    (if i \<le> unat (x - d) \<and> unat (x - d) < n then m (s + (x - d)) else m x)"
  using assms
proof (induction m d s i n rule: memcpy_from.induct)
  case (1 m d s i n)
  show ?case
  proof (cases "i < n")
    case True
    have x: "x = d + of_nat i \<longleftrightarrow> unat (x - d) = i"
      using True 1(3) by (intro offset_eq_iff) simp
    have IH: "memcpy_from (m(d + of_nat i := m (s + of_nat i))) d s (Suc i) n x =
      (if Suc i \<le> unat (x - d) \<and> unat (x - d) < n
       then (m(d + of_nat i := m (s + of_nat i))) (s + (x - d))
       else (m(d + of_nat i := m (s + of_nat i))) x)"
      by (rule "1.IH") (use True 1(2,3) in auto)
    have "s + (x - d) \<noteq> d + of_nat i" if "Suc i \<le> unat (x - d)" "unat (x - d) < n"
      using 1(2) [of i "unat (x - d)"] that by simp
    with True IH x show ?thesis
      by (auto simp: memcpy_from.simps [of m d s i n] Suc_le_eq)
  next
    case False
    then show ?thesis by (auto simp: memcpy_from.simps)
  qed
qed

lemma memcpy_down_apply:
  assumes "\<And>j k. j < k \<Longrightarrow> k < n \<Longrightarrow> s + of_nat j \<noteq> d + of_nat k" and "n < 2 ^ 64"
  shows "memcpy_down m d s n x = (if unat (x - d) < n then m (s + (x - d)) else m x)"
  using assms
proof (induction n arbitrary: m)
  case 0
  then show ?case by simp
next
  case (Suc n)
  have x: "x = d + of_nat n \<longleftrightarrow> unat (x - d) = n"
    using Suc.prems(2) by (intro offset_eq_iff) simp
  have IH: "memcpy_down (m(d + of_nat n := m (s + of_nat n))) d s n x =
    (if unat (x - d) < n then (m(d + of_nat n := m (s + of_nat n))) (s + (x - d))
     else (m(d + of_nat n := m (s + of_nat n))) x)"
    by (rule Suc.IH) (use Suc.prems in auto)
  have "s + (x - d) \<noteq> d + of_nat n" if "unat (x - d) < n"
    using Suc.prems(1) [of "unat (x - d)" n] that by simp
  with IH x show ?case by (auto simp: less_Suc_eq)
qed

lemma forward_no_clobber:
  fixes d s :: u64
  assumes "d < s" and "unat s + n \<le> 2 ^ 64" and "j < k" and "k < n"
  shows "s + of_nat k \<noteq> d + of_nat j"
proof -
  have "unat (s + of_nat k) = unat s + k" and "unat (d + of_nat j) = unat d + j"
    using assms unfolding word_less_nat_alt by (auto intro!: unat_add_of_nat_64)
  with assms show ?thesis unfolding word_less_nat_alt by force
qed

lemma memmove_apply:
  assumes "unat src + unat n \<le> 2 ^ 64" and "unat dest + unat n \<le> 2 ^ 64"
  shows "memmove m dest src n x = (if x - dest < n then m (src + (x - dest)) else m x)"
proof (cases "dest = src \<or> n = 0")
  case True
  then show ?thesis by (auto simp: memmove_def)
next
  case False
  show ?thesis
  proof (cases "dest < src")
    case True
    have "memcpy_from m dest src 0 (unat n) x =
        (if unat (x - dest) < unat n then m (src + (x - dest)) else m x)"
      by (subst memcpy_from_apply)
        (use True assms unat_lt_64 [of n] in \<open>auto simp: forward_no_clobber\<close>)
    with True False show ?thesis by (simp add: memmove_def word_less_nat_alt)
  next
    case above: False
    then have "src < dest" using False by auto
    then have "memcpy_down m dest src (unat n) x =
        (if unat (x - dest) < unat n then m (src + (x - dest)) else m x)"
      by (subst memcpy_down_apply)
        (use assms unat_lt_64 [of n] in \<open>auto simp: forward_no_clobber [symmetric]\<close>)
    with above False show ?thesis by (simp add: memmove_def word_less_nat_alt)
  qed
qed

text \<open>
  \<^verbatim>\<open>memmove\<close> copies correctly whatever the overlap of the two ranges: as long as
  neither range wraps around the end of the address space, every destination byte gets
  the byte its source position held before the call and every other byte is unchanged.
\<close>

theorem memmove_correct:
  assumes "unat src + unat n \<le> 2 ^ 64" and "unat dest + unat n \<le> 2 ^ 64"
  shows "memmove m dest src n x = (if x - dest < n then m (src + (x - dest)) else m x)"
  using assms by (rule memmove_apply)

theorem memmove_correct_witness:
  "memmove (\<lambda>a. ucast a) 0x1002 0x1000 8 0x1005 = 3"
  using memmove_correct [where src = "0x1000" and n = 8 and dest = "0x1002"
      and m = "\<lambda>a. ucast a" and x = "0x1005"] by simp

text \<open>\<^verbatim>\<open>memcmp\<close> is the difference at the first position where the ranges differ.\<close>

lemma memcmp_from_eq_0:
  "memcmp_from m a b i n = 0 \<longleftrightarrow>
     (\<forall>j. i \<le> j \<and> j < n \<longrightarrow> m (a + of_nat j) = m (b + of_nat j))"
proof (induction m a b i n rule: memcmp_from.induct)
  case (1 m a b i n)
  show ?case
    unfolding all_interval_Suc [of i n] memcmp_from.simps [of m a b i n]
    using 1 by (auto simp: word_uint_eq_iff)
qed

lemma memcmp_eq_0:
  "memcmp m a b n = 0 \<longleftrightarrow> (\<forall>j < unat n. m (a + of_nat j) = m (b + of_nat j))"
  by (simp add: memcmp_def memcmp_from_eq_0)

section \<open>C strings\<close>

text \<open>A NUL-terminated string at an address.\<close>

fun cstr_at :: "mem \<Rightarrow> u64 \<Rightarrow> u8 list \<Rightarrow> bool" where
  "cstr_at m a [] \<longleftrightarrow> m a = 0"
| "cstr_at m a (c # cs) \<longleftrightarrow> m a = c \<and> c \<noteq> 0 \<and> cstr_at m (a + 1) cs"

lemma strlen_from_cstr:
  "cstr_at m (str + len) s \<Longrightarrow> strlen_from m str len = Some (len + of_nat (length s))"
proof (induction s arbitrary: len)
  case Nil
  then show ?case by (simp add: strlen_from.simps)
next
  case (Cons c s)
  then have "strlen_from m str (len + 1) = Some (len + 1 + of_nat (length s))"
    by (intro Cons.IH) (simp add: add.assoc)
  with Cons.prems show ?case by (subst strlen_from.simps) (simp add: ac_simps)
qed

lemma strlen_cstr: "cstr_at m a s \<Longrightarrow> strlen m a = Some (of_nat (length s))"
  using strlen_from_cstr [of m a 0 s] by (simp add: strlen_def)

lemma uint_gt_0_iff: "0 < uint (x :: u8) \<longleftrightarrow> x \<noteq> 0"
  using uint_0_iff [of x] uint_ge_0 [of x] by linarith

definition byte_less :: "(u8 \<times> u8) set" where
  "byte_less = {(x, y). x < y}"

lemma strcmp_cstr:
  assumes "cstr_at m a s" and "cstr_at m b t"
  shows "\<exists>r. strcmp m a b = Some r \<and> (r = 0 \<longleftrightarrow> s = t) \<and> (r < 0 \<longleftrightarrow> (s, t) \<in> lexord byte_less)"
  using assms
proof (induction s arbitrary: a b t)
  case Nil
  then show ?case
    by (cases t) (auto simp: strcmp.simps uint_0_iff uint_gt_0_iff)
next
  case (Cons c s)
  show ?case
  proof (cases t)
    case Nil
    with Cons.prems show ?thesis
      by (auto simp: strcmp.simps [of m a b] uint_0_iff)
  next
    case (Cons d t')
    show ?thesis
    proof (cases "c = d")
      case True
      then have "\<exists>r. strcmp m (a + 1) (b + 1) = Some r \<and> (r = 0 \<longleftrightarrow> s = t') \<and>
          (r < 0 \<longleftrightarrow> (s, t') \<in> lexord byte_less)"
        using Cons.IH [of "a + 1" "b + 1" t'] Cons.prems Cons by simp
      with True Cons Cons.prems show ?thesis
        by (auto simp: strcmp.simps [of m a b] byte_less_def)
    next
      case False
      with Cons Cons.prems show ?thesis
        by (auto simp: strcmp.simps [of m a b] byte_less_def word_less_def word_uint_eq_iff)
    qed
  qed
qed

text \<open>
  On two NUL-terminated strings \<^verbatim>\<open>strcmp\<close> returns; the result is zero exactly
  when the strings are equal and negative exactly when the first is lexicographically
  smaller with bytes compared as unsigned values; \<^verbatim>\<open>strlen\<close> returns the length.
\<close>

theorem strcmp_orders_strings:
  assumes "cstr_at m a s" and "cstr_at m b t"
  shows "(\<exists>r. strcmp m a b = Some r \<and> (r = 0 \<longleftrightarrow> s = t) \<and>
      (r < 0 \<longleftrightarrow> (s, t) \<in> lexord byte_less)) \<and>
    strlen m a = Some (of_nat (length s))"
  using strcmp_cstr [OF assms] strlen_cstr [OF assms(1)] by simp

theorem strcmp_orders_strings_witness:
  "\<exists>r. strcmp ((\<lambda>_. 0)(0 := 65, 1 := 200, 8 := 65, 9 := 66)) 0 8 = Some r \<and> r \<noteq> 0 \<and> \<not> r < 0"
  using strcmp_orders_strings [of "(\<lambda>_. 0)(0 := 65, 1 := 200, 8 := 65, 9 := 66)" 0 "[65, 200]" 8 "[65, 66]"]
  by (auto simp: byte_less_def)

end
