(* ===== verification/Drv_Framebuffer.thy ===== *)
theory Drv_Framebuffer
  imports Drv_Font Boot_Info Lib_String
begin

text \<open>
  \<^verbatim>\<open>kernel/drivers/framebuffer/framebuffer.c\<close>: the text console. Pixels are bytes of
  memory; a shift of a 32-bit value by 32 or more, undefined in C, only arises for pixel formats
  of more than four bytes or shifts above 31, which the properties exclude. The second half of the
  theory states a terminal, a grid of character cells, and that the console shows it.
\<close>

section \<open>State and operations\<close>

abbreviation (input) CELL_W :: u32 where "CELL_W \<equiv> 8"
abbreviation (input) CELL_H :: u32 where "CELL_H \<equiv> 8"

record console =
  con_mem :: mem
  con_fb :: boot_framebuffer
  fb_ready :: bool
  bytes_per_pixel :: u32
  console_cols :: u32
  console_rows :: u32
  cursor_col :: u32
  cursor_row :: u32

text \<open>\<^verbatim>\<open>info\<close> is \<open>None\<close> when the pointer is null.\<close>

definition fb_init :: "boot_framebuffer option \<Rightarrow> console \<Rightarrow> bool \<times> console" where
  "fb_init info s =
     (case info of
        None \<Rightarrow> (False, s)
      | Some f \<Rightarrow>
          if fb_address f = 0 then (False, s)
          else (True, s\<lparr>con_fb := f, bytes_per_pixel := ucast (fb_bpp f div 8),
            console_cols := ucast (fb_width f div 8), console_rows := ucast (fb_height f div 8),
            cursor_col := 0, cursor_row := 0, fb_ready := True\<rparr>))"

definition fb_is_available :: "console \<Rightarrow> bool" where "fb_is_available s = fb_ready s"

text \<open>One component: scaled down when its mask is narrower than eight bits.\<close>

definition scale_component :: "u8 \<Rightarrow> u8 \<Rightarrow> u32" where
  "scale_component v mask_size = (if mask_size < 8 then ucast (drop_bit (unat (8 - mask_size)) v) else ucast v)"

definition pack_color :: "boot_framebuffer \<Rightarrow> u32 \<Rightarrow> u32" where
  "pack_color f rgb =
     (let r = ucast (drop_bit 16 rgb); g = ucast (drop_bit 8 rgb); b = ucast rgb;
          rv = scale_component r (red_mask_size f);
          gv = scale_component g (green_mask_size f);
          bv = scale_component b (blue_mask_size f)
      in push_bit (unat (red_mask_shift f)) rv OR push_bit (unat (green_mask_shift f)) gv OR
         push_bit (unat (blue_mask_shift f)) bv)"

function pixel_bytes :: "mem \<Rightarrow> u64 \<Rightarrow> u32 \<Rightarrow> u32 \<Rightarrow> u32 \<Rightarrow> mem" where
  "pixel_bytes m pixel color i n =
     (if i < n then pixel_bytes (m(pixel + ucast i := ucast (drop_bit (unat (8 * i)) color))) pixel color (i + 1) n
      else m)"
  by pat_completeness auto
termination
  by (relation "measure (\<lambda>(m, p, c, i, n). unat n - unat i)") (auto simp: word_less_nat_alt unat_plus_one_32)

declare pixel_bytes.simps [simp del]

definition put_pixel_raw :: "console \<Rightarrow> u32 \<Rightarrow> u32 \<Rightarrow> u32 \<Rightarrow> console" where
  "put_pixel_raw s x y native_color =
     (let row = fb_address (con_fb s) + ucast y * fb_pitch (con_fb s);
          pixel = row + ucast x * ucast (bytes_per_pixel s)
      in s\<lparr>con_mem := pixel_bytes (con_mem s) pixel native_color 0 (bytes_per_pixel s)\<rparr>)"

text \<open>
  The two loops of \<^verbatim>\<open>fb_clear\<close> compare a 32-bit counter with a 64-bit bound, so they need
  not end.
\<close>

partial_function (option) clear_row :: "console \<Rightarrow> u32 \<Rightarrow> u32 \<Rightarrow> u32 \<Rightarrow> console option" where
  "clear_row s native y x =
     (if ucast x < fb_width (con_fb s) then clear_row (put_pixel_raw s x y native) native y (x + 1) else Some s)"

partial_function (option) clear_rows :: "console \<Rightarrow> u32 \<Rightarrow> u32 \<Rightarrow> console option" where
  "clear_rows s native y =
     (if ucast y < fb_height (con_fb s)
      then Option.bind (clear_row s native y 0) (\<lambda>s1. clear_rows s1 native (y + 1))
      else Some s)"

definition fb_clear :: "console \<Rightarrow> u32 \<Rightarrow> console option" where
  "fb_clear s color_rgb = clear_rows s (pack_color (con_fb s) color_rgb) 0"

definition glyph_bit :: "char \<Rightarrow> nat \<Rightarrow> nat \<Rightarrow> bool" where
  "glyph_bit c gy gx = (font8x8_basic ! unat (of_char c AND 0x7f :: u8) ! gy AND push_bit gx 1 \<noteq> 0)"

definition draw_glyph :: "console \<Rightarrow> u32 \<Rightarrow> u32 \<Rightarrow> char \<Rightarrow> u32 \<Rightarrow> u32 \<Rightarrow> console" where
  "draw_glyph s col row c fg_rgb bg_rgb =
     (let fg = pack_color (con_fb s) fg_rgb;
          bg = pack_color (con_fb s) bg_rgb;
          origin_x = col * CELL_W;
          origin_y = row * CELL_H
      in fold (\<lambda>gy s. fold (\<lambda>gx s.
             put_pixel_raw s (origin_x + of_nat gx) (origin_y + of_nat gy) (if glyph_bit c gy gx then fg else bg))
           [0..<8] s) [0..<8] s)"

definition scroll_one_row :: "console \<Rightarrow> console" where
  "scroll_one_row s =
     (let row_bytes = 8 * fb_pitch (con_fb s);
          base = fb_address (con_fb s);
          remaining_bytes = (fb_height (con_fb s) - 8) * fb_pitch (con_fb s);
          m = memmove (con_mem s) base (base + row_bytes) remaining_bytes
      in s\<lparr>con_mem := memset m (base + remaining_bytes) 0 row_bytes\<rparr>)"

definition advance_cursor :: "console \<Rightarrow> console" where
  "advance_cursor s =
     (let s = s\<lparr>cursor_col := cursor_col s + 1\<rparr>
      in if console_cols s \<le> cursor_col s then s\<lparr>cursor_col := 0, cursor_row := cursor_row s + 1\<rparr> else s)"

definition fb_console_putc :: "char \<Rightarrow> u32 \<Rightarrow> u32 \<Rightarrow> console \<Rightarrow> console" where
  "fb_console_putc c fg_rgb bg_rgb s =
     (if fb_address (con_fb s) = 0 then s
      else
        let s1 = (if c = CHR 0x0A then s\<lparr>cursor_col := 0, cursor_row := cursor_row s + 1\<rparr>
                  else advance_cursor (draw_glyph s (cursor_col s) (cursor_row s) c fg_rgb bg_rgb))
        in if console_rows s1 \<le> cursor_row s1
           then (scroll_one_row s1)\<lparr>cursor_row := console_rows s1 - 1\<rparr> else s1)"

text \<open>The string is the list of the characters before its NUL.\<close>

primrec fb_console_write :: "string \<Rightarrow> u32 \<Rightarrow> u32 \<Rightarrow> console \<Rightarrow> console" where
  "fb_console_write [] fg_rgb bg_rgb s = s"
| "fb_console_write (c # cs) fg_rgb bg_rgb s = fb_console_write cs fg_rgb bg_rgb (fb_console_putc c fg_rgb bg_rgb s)"

section \<open>The frame buffer as a rectangle of pixels\<close>

text \<open>
  A mode the console can drive: the pixels of a row lie within its pitch, the buffer within the
  address space, and there is room for one cell.
\<close>

definition mode_ok :: "boot_framebuffer \<Rightarrow> bool" where
  "mode_ok f \<longleftrightarrow> fb_address f \<noteq> 0 \<and> unat (fb_address f) + unat (fb_height f) * unat (fb_pitch f) \<le> 2 ^ 64 \<and>
     unat (fb_width f) * (unat (fb_bpp f) div 8) \<le> unat (fb_pitch f) \<and>
     8 \<le> unat (fb_width f) \<and> unat (fb_width f) < 2 ^ 32 - 8 \<and>
     8 \<le> unat (fb_height f) \<and> unat (fb_height f) < 2 ^ 32 - 8 \<and>
     8 \<le> unat (fb_bpp f) \<and> unat (fb_bpp f) < 40"

definition geometry_ok :: "console \<Rightarrow> bool" where
  "geometry_ok s \<longleftrightarrow> mode_ok (con_fb s) \<and> fb_ready s \<and>
     unat (bytes_per_pixel s) = unat (fb_bpp (con_fb s)) div 8 \<and>
     unat (console_cols s) = unat (fb_width (con_fb s)) div 8 \<and>
     unat (console_rows s) = unat (fb_height (con_fb s)) div 8"

definition pixel_offset :: "console \<Rightarrow> nat \<Rightarrow> nat \<Rightarrow> nat \<Rightarrow> nat" where
  "pixel_offset s y x i = y * unat (fb_pitch (con_fb s)) + x * unat (bytes_per_pixel s) + i"

definition pixel_at :: "console \<Rightarrow> nat \<Rightarrow> nat \<Rightarrow> nat \<Rightarrow> u8" where
  "pixel_at s y x i = con_mem s (fb_address (con_fb s) + of_nat (pixel_offset s y x i))"

definition in_buffer :: "console \<Rightarrow> u64 \<Rightarrow> bool" where
  "in_buffer s a \<longleftrightarrow> unat (a - fb_address (con_fb s)) < unat (fb_height (con_fb s)) * unat (fb_pitch (con_fb s))"

text \<open>Which pixels exist.\<close>

definition visible :: "console \<Rightarrow> nat \<Rightarrow> nat \<Rightarrow> nat \<Rightarrow> bool" where
  "visible s y x i \<longleftrightarrow> y < unat (fb_height (con_fb s)) \<and> x < unat (fb_width (con_fb s)) \<and> i < unat (bytes_per_pixel s)"

lemma row_offset_inj:
  assumes "a * p + u = b * p + v" "u < p" "v < (p :: nat)"
  shows "a = b \<and> u = v"
proof -
  have "(a * p + u) div p = a" "(b * p + v) div p = b" using assms(2,3) by simp_all
  then show ?thesis using assms(1) by simp
qed

lemma column_offset:
  assumes "geometry_ok s" "visible s y x i"
  shows "x * unat (bytes_per_pixel s) + i < unat (fb_pitch (con_fb s))"
proof -
  let ?b = "unat (bytes_per_pixel s)"
  have "x * ?b + i < (x + 1) * ?b" using assms(2) by (simp add: visible_def)
  also have "\<dots> \<le> unat (fb_width (con_fb s)) * ?b"
    using assms(2) by (intro mult_le_mono1) (simp add: visible_def)
  finally show ?thesis using assms(1) by (simp add: geometry_ok_def mode_ok_def)
qed

lemma pixel_offset_inj:
  assumes "geometry_ok s" "visible s y x i" "visible s y' x' i'" "pixel_offset s y x i = pixel_offset s y' x' i'"
  shows "y = y' \<and> x = x' \<and> i = i'"
proof -
  have "y = y' \<and> x * unat (bytes_per_pixel s) + i = x' * unat (bytes_per_pixel s) + i'"
    using row_offset_inj [OF _ column_offset column_offset, OF _ assms(1,2,1,3)] assms(4)
    by (simp add: pixel_offset_def add.assoc)
  then show ?thesis using row_offset_inj [of x "unat (bytes_per_pixel s)" i x' i'] assms(2,3) by (simp add: visible_def)
qed

lemma pixel_offset_less:
  assumes "geometry_ok s" "visible s y x i"
  shows "pixel_offset s y x i < unat (fb_height (con_fb s)) * unat (fb_pitch (con_fb s))"
proof -
  have "pixel_offset s y x i < (y + 1) * unat (fb_pitch (con_fb s))"
    using column_offset [OF assms] by (simp add: pixel_offset_def)
  also have "\<dots> \<le> unat (fb_height (con_fb s)) * unat (fb_pitch (con_fb s))"
    using assms(2) by (intro mult_le_mono1) (simp add: visible_def)
  finally show ?thesis .
qed

lemma buffer_bytes:
  assumes "geometry_ok s"
  shows "unat (fb_height (con_fb s)) * unat (fb_pitch (con_fb s)) < 2 ^ 64"
proof -
  have "0 < unat (fb_address (con_fb s))" "unat (fb_address (con_fb s)) +
      unat (fb_height (con_fb s)) * unat (fb_pitch (con_fb s)) \<le> 2 ^ 64"
    using assms by (simp_all add: geometry_ok_def mode_ok_def unat_gt_0)
  then show ?thesis by linarith
qed

text \<open>Drawing one pixel.\<close>

lemma pixel_bytes_apply:
  assumes "unat n \<le> 4"
  shows "pixel_bytes m p c i n a =
    (if unat i \<le> unat (a - p) \<and> unat (a - p) < unat n then ucast (drop_bit (8 * unat (a - p)) c) else m a)"
  using assms
proof (induction m p c i n rule: pixel_bytes.induct)
  case (1 m p c i n)
  show ?case
  proof (cases "i < n")
    case True
    have i: "unat (i + 1) = unat i + 1" "unat i < unat n" using True by (simp_all add: unat_plus_one_32 word_less_nat_alt)
    have e: "unat (8 * i) = 8 * unat i" using i(2) "1.prems" by (simp add: unat_word_ariths)
    have h: "a = p + ucast i \<longleftrightarrow> unat (a - p) = unat i"
      unfolding unat_ucast_u32 [of i, symmetric] word_unat_eq_iff [symmetric] by (auto simp: algebra_simps)
    have "pixel_bytes m p c i n a =
        pixel_bytes (m(p + ucast i := ucast (drop_bit (unat (8 * i)) c))) p c (i + 1) n a"
      using True by (subst pixel_bytes.simps) simp
    also have "\<dots> = (if unat (i + 1) \<le> unat (a - p) \<and> unat (a - p) < unat n
        then ucast (drop_bit (8 * unat (a - p)) c)
        else (m(p + ucast i := ucast (drop_bit (unat (8 * i)) c))) a)"
      by (rule "1.IH" [OF True "1.prems"])
    also have "\<dots> = (if unat i \<le> unat (a - p) \<and> unat (a - p) < unat n
        then ucast (drop_bit (8 * unat (a - p)) c) else m a)"
      unfolding i(1) e fun_upd_apply h using i(2) by simp
    finally show ?thesis .
  next
    case False
    then show ?thesis by (subst pixel_bytes.simps) (auto simp: word_less_nat_alt)
  qed
qed

text \<open>What a change of pixels leaves alone: every field and every byte outside the buffer.\<close>

definition drawn :: "console \<Rightarrow> console \<Rightarrow> bool" where
  "drawn s s' \<longleftrightarrow> s' = s\<lparr>con_mem := con_mem s'\<rparr> \<and> (\<forall>a. \<not> in_buffer s a \<longrightarrow> con_mem s' a = con_mem s a)"

lemma drawn_refl [simp]: "drawn s s" by (simp add: drawn_def)

lemma drawn_trans: "drawn s s' \<Longrightarrow> drawn s' s'' \<Longrightarrow> drawn s s''"
  unfolding drawn_def in_buffer_def
  by (metis (no_types, lifting) console.select_convs(2) console.surjective console.update_convs(1))

lemma drawn_fields:
  assumes "drawn s s'"
  shows "con_fb s' = con_fb s" "bytes_per_pixel s' = bytes_per_pixel s" "geometry_ok s' = geometry_ok s"
    "visible s' = visible s" "pixel_offset s' = pixel_offset s" "in_buffer s' = in_buffer s"
    "cursor_col s' = cursor_col s" "cursor_row s' = cursor_row s" "console_cols s' = console_cols s"
    "console_rows s' = console_rows s"
proof -
  obtain m where "s' = s\<lparr>con_mem := m\<rparr>" using assms unfolding drawn_def by blast
  then show "con_fb s' = con_fb s" "bytes_per_pixel s' = bytes_per_pixel s" "geometry_ok s' = geometry_ok s"
    "visible s' = visible s" "pixel_offset s' = pixel_offset s" "in_buffer s' = in_buffer s"
    "cursor_col s' = cursor_col s" "cursor_row s' = cursor_row s" "console_cols s' = console_cols s"
    "console_rows s' = console_rows s"
    by (simp_all add: geometry_ok_def visible_def pixel_offset_def in_buffer_def fun_eq_iff)
qed

lemma offset_unat:
  assumes "geometry_ok s" "n < unat (fb_height (con_fb s)) * unat (fb_pitch (con_fb s))"
  shows "unat (of_nat n :: u64) = n"
  using assms buffer_bytes [of s] by (intro unat_of_nat_64) simp

text \<open>The address of a pixel, and the bytes drawing it writes.\<close>

definition pixel_addr :: "console \<Rightarrow> nat \<Rightarrow> nat \<Rightarrow> u64" where
  "pixel_addr s y x = fb_address (con_fb s) + of_nat (pixel_offset s y x 0)"

lemma pixel_offset_add: "pixel_offset s y x k = pixel_offset s y x 0 + k"
  by (simp add: pixel_offset_def)

lemma pixel_addr_at: "a = fb_address (con_fb s) + of_nat (pixel_offset s y x (unat (a - pixel_addr s y x)))"
  by (subst pixel_offset_add) (simp add: pixel_addr_def algebra_simps)

lemma put_pixel_mem:
  assumes "geometry_ok s"
  shows "con_mem (put_pixel_raw s x y color) a =
    (if unat (a - pixel_addr s (unat y) (unat x)) < unat (bytes_per_pixel s)
     then ucast (drop_bit (8 * unat (a - pixel_addr s (unat y) (unat x))) color) else con_mem s a)"
proof -
  have "unat (fb_bpp (con_fb s)) < 8 * 5" using assms by (simp add: geometry_ok_def mode_ok_def)
  then have "unat (fb_bpp (con_fb s)) div 8 < 5" by (simp add: less_mult_imp_div_less mult.commute)
  then have b: "unat (bytes_per_pixel s) \<le> 4" using assms by (simp add: geometry_ok_def)
  have "fb_address (con_fb s) + ucast y * fb_pitch (con_fb s) + ucast x * ucast (bytes_per_pixel s) =
      pixel_addr s (unat y) (unat x)"
    by (simp add: pixel_addr_def pixel_offset_def algebra_simps)
  then show ?thesis
    using pixel_bytes_apply [OF b, of "con_mem s" "pixel_addr s (unat y) (unat x)" color 0 a]
    by (simp add: put_pixel_raw_def Let_def)
qed

lemma visible_bytes: "visible s y x 0 \<Longrightarrow> k < unat (bytes_per_pixel s) \<Longrightarrow> visible s y x k"
  by (simp add: visible_def)

lemma put_pixel_drawn:
  assumes "geometry_ok s" "visible s (unat y) (unat x) 0"
  shows "drawn s (put_pixel_raw s x y color)"
  unfolding drawn_def
proof (intro conjI allI impI)
  let ?P = "pixel_addr s (unat y) (unat x)"
  show "put_pixel_raw s x y color = s\<lparr>con_mem := con_mem (put_pixel_raw s x y color)\<rparr>"
    by (simp add: put_pixel_raw_def Let_def)
  fix a assume "\<not> in_buffer s a"
  have "\<not> unat (a - ?P) < unat (bytes_per_pixel s)"
  proof
    assume l: "unat (a - ?P) < unat (bytes_per_pixel s)"
    let ?o = "pixel_offset s (unat y) (unat x) (unat (a - ?P))"
    have "?o < unat (fb_height (con_fb s)) * unat (fb_pitch (con_fb s))"
      by (rule pixel_offset_less [OF assms(1) visible_bytes [OF assms(2) l]])
    then have "in_buffer s (fb_address (con_fb s) + of_nat ?o)"
      using offset_unat [OF assms(1)] by (simp add: in_buffer_def)
    then show False using \<open>\<not> in_buffer s a\<close> pixel_addr_at [of a] by simp
  qed
  then show "con_mem (put_pixel_raw s x y color) a = con_mem s a"
    by (simp add: put_pixel_mem [OF assms(1)])
qed

lemma put_pixel_at:
  assumes "geometry_ok s" "visible s (unat y) (unat x) 0" "visible s y' x' i'"
  shows "pixel_at (put_pixel_raw s x y color) y' x' i' =
      (if y' = unat y \<and> x' = unat x then ucast (drop_bit (8 * i') color) else pixel_at s y' x' i')"
proof -
  let ?A = "fb_address (con_fb s)" and ?P = "pixel_addr s (unat y) (unat x)" and ?b = "unat (bytes_per_pixel s)"
  let ?o' = "pixel_offset s y' x' i'" and ?a = "?A + of_nat (pixel_offset s y' x' i')"
  have u: "unat (of_nat ?o' :: u64) = ?o'" by (rule offset_unat [OF assms(1) pixel_offset_less [OF assms(1,3)]])
  have i: "i' < ?b" using assms(3) by (simp add: visible_def)
  have same: "unat (?a - ?P) = i'" if "y' = unat y \<and> x' = unat x"
  proof -
    have "?a - ?P = of_nat i'" unfolding pixel_addr_def using that by (subst pixel_offset_add) simp
    then show ?thesis using i unat_lt_32 [of "bytes_per_pixel s"] by (simp add: unat_of_nat_64)
  qed
  have "y' = unat y \<and> x' = unat x" if l: "unat (?a - ?P) < ?b"
  proof -
    let ?o = "pixel_offset s (unat y) (unat x) (unat (?a - ?P))"
    have v: "visible s (unat y) (unat x) (unat (?a - ?P))" by (rule visible_bytes [OF assms(2) l])
    have "unat (of_nat ?o :: u64) = ?o" by (rule offset_unat [OF assms(1) pixel_offset_less [OF assms(1) v]])
    moreover have "of_nat ?o' = (of_nat ?o :: u64)" using pixel_addr_at [of ?a s] by (metis add_left_cancel)
    ultimately show ?thesis using pixel_offset_inj [OF assms(1,3) v] u by metis
  qed
  then have "unat (?a - ?P) < ?b \<longleftrightarrow> y' = unat y \<and> x' = unat x" using same i by metis
  then show ?thesis
    using put_pixel_mem [OF assms(1), of x y color ?a] same
    by (simp add: pixel_at_def drawn_fields [OF put_pixel_drawn [OF assms(1,2)]])
qed

text \<open>A row of pixels, a block of rows, and the glyph.\<close>

lemma unat_add_small_32: "unat (x :: u32) + n < 2 ^ 32 \<Longrightarrow> unat (x + of_nat n) = unat x + n"
  by (simp add: unat_word_ariths unat_of_nat)

lemma visible_pixel: "visible s y x i \<Longrightarrow> visible s y x 0" by (simp add: visible_def)

lemma console_width: "geometry_ok s \<Longrightarrow> unat (fb_width (con_fb s)) < 2 ^ 32 - 8 \<and> unat (fb_height (con_fb s)) < 2 ^ 32 - 8"
  by (simp add: geometry_ok_def mode_ok_def)

lemma visible_in:
  "geometry_ok s \<Longrightarrow> y < unat (fb_height (con_fb s)) \<Longrightarrow> x < unat (fb_width (con_fb s)) \<Longrightarrow> visible s y x 0"
  by (simp add: visible_def geometry_ok_def mode_ok_def div_greater_zero_iff)

lemma draw_span:
  assumes "geometry_ok s" "unat y < unat (fb_height (con_fb s))" "unat x + n \<le> unat (fb_width (con_fb s))"
  shows "drawn s (fold (\<lambda>k s. put_pixel_raw s (x + of_nat k) y (f k)) [0..<n] s)"
    and "visible s y' x' i' \<Longrightarrow>
      pixel_at (fold (\<lambda>k s. put_pixel_raw s (x + of_nat k) y (f k)) [0..<n] s) y' x' i' =
        (if y' = unat y \<and> unat x \<le> x' \<and> x' < unat x + n then ucast (drop_bit (8 * i') (f (x' - unat x)))
         else pixel_at s y' x' i')"
  using assms
proof (induction n)
  case (Suc n)
  let ?s = "fold (\<lambda>k s. put_pixel_raw s (x + of_nat k) y (f k)) [0..<n] s"
  {
    case 1
    then have d: "drawn s ?s" by (intro Suc.IH(1)) simp_all
    have u: "unat (x + of_nat n) = unat x + n" using 1 console_width [of s] by (intro unat_add_small_32) simp
    have v: "visible ?s (unat y) (unat (x + of_nat n)) 0"
      unfolding drawn_fields [OF d] u using 1 by (intro visible_in) simp_all
    have ok: "geometry_ok ?s" using 1 by (simp add: drawn_fields [OF d])
    have "drawn ?s (put_pixel_raw ?s (x + of_nat n) y (f n))" by (rule put_pixel_drawn [OF ok v])
    then show ?case using drawn_trans [OF d] by simp
  next
    case 2
    then have d: "drawn s ?s" by (intro Suc.IH(1)) simp_all
    have u: "unat (x + of_nat n) = unat x + n" using 2 console_width [of s] by (intro unat_add_small_32) simp
    have v: "visible ?s (unat y) (unat (x + of_nat n)) 0"
      unfolding drawn_fields [OF d] u using 2 by (intro visible_in) simp_all
    have ok: "geometry_ok ?s" using 2 by (simp add: drawn_fields [OF d])
    have vis: "visible ?s y' x' i'" using 2 by (simp add: drawn_fields [OF d])
    have "pixel_at ?s y' x' i' = (if y' = unat y \<and> unat x \<le> x' \<and> x' < unat x + n
        then ucast (drop_bit (8 * i') (f (x' - unat x))) else pixel_at s y' x' i')"
      using 2 by (intro Suc.IH(2)) simp_all
    then show ?case using put_pixel_at [OF ok v vis, of "f n"] unfolding u by (simp add: less_Suc_eq) auto
  }
qed auto

lemma draw_block:
  assumes "geometry_ok s" "unat y + n \<le> unat (fb_height (con_fb s))" "unat x + w \<le> unat (fb_width (con_fb s))"
  shows "drawn s (fold (\<lambda>j s. fold (\<lambda>k s. put_pixel_raw s (x + of_nat k) (y + of_nat j) (f j k)) [0..<w] s) [0..<n] s)"
    and "visible s y' x' i' \<Longrightarrow>
      pixel_at (fold (\<lambda>j s. fold (\<lambda>k s. put_pixel_raw s (x + of_nat k) (y + of_nat j) (f j k)) [0..<w] s)
          [0..<n] s) y' x' i' =
        (if unat y \<le> y' \<and> y' < unat y + n \<and> unat x \<le> x' \<and> x' < unat x + w
         then ucast (drop_bit (8 * i') (f (y' - unat y) (x' - unat x))) else pixel_at s y' x' i')"
  using assms
proof (induction n)
  case (Suc n)
  let ?s = "fold (\<lambda>j s. fold (\<lambda>k s. put_pixel_raw s (x + of_nat k) (y + of_nat j) (f j k)) [0..<w] s) [0..<n] s"
  {
    case 1
    then have d: "drawn s ?s" by (intro Suc.IH(1)) simp_all
    have u: "unat (y + of_nat n) = unat y + n" using 1 console_width [of s] by (intro unat_add_small_32) simp
    have "drawn ?s (fold (\<lambda>k s. put_pixel_raw s (x + of_nat k) (y + of_nat n) (f n k)) [0..<w] ?s)"
      using 1 by (intro draw_span) (simp_all add: drawn_fields [OF d] u)
    then show ?case using drawn_trans [OF d] by simp
  next
    case 2
    then have d: "drawn s ?s" by (intro Suc.IH(1)) simp_all
    have u: "unat (y + of_nat n) = unat y + n" using 2 console_width [of s] by (intro unat_add_small_32) simp
    have "pixel_at ?s y' x' i' = (if unat y \<le> y' \<and> y' < unat y + n \<and> unat x \<le> x' \<and> x' < unat x + w
        then ucast (drop_bit (8 * i') (f (y' - unat y) (x' - unat x))) else pixel_at s y' x' i')"
      using 2 by (intro Suc.IH(2)) simp_all
    moreover have "pixel_at (fold (\<lambda>k s. put_pixel_raw s (x + of_nat k) (y + of_nat n) (f n k)) [0..<w] ?s) y' x' i' =
        (if y' = unat (y + of_nat n) \<and> unat x \<le> x' \<and> x' < unat x + w
         then ucast (drop_bit (8 * i') (f n (x' - unat x))) else pixel_at ?s y' x' i')"
      using 2 by (intro draw_span) (simp_all add: drawn_fields [OF d] u)
    ultimately show ?case unfolding u by (simp add: less_Suc_eq)
  }
qed auto

text \<open>The byte of a glyph's pixel.\<close>

definition glyph_byte :: "boot_framebuffer \<Rightarrow> char \<times> u32 \<times> u32 \<Rightarrow> nat \<Rightarrow> nat \<Rightarrow> nat \<Rightarrow> u8" where
  "glyph_byte f cell gy gx i = (case cell of (c, fg, bg) \<Rightarrow>
     ucast (drop_bit (8 * i) (pack_color f (if glyph_bit c gy gx then fg else bg))))"

lemma cell_origin:
  assumes "geometry_ok s" "col < console_cols s" "row < console_rows s"
  shows "unat (col * 8) = 8 * unat col" "unat (row * 8) = 8 * unat row"
    "8 * unat col + 8 \<le> unat (fb_width (con_fb s))" "8 * unat row + 8 \<le> unat (fb_height (con_fb s))"
proof -
  have "unat col < unat (fb_width (con_fb s)) div 8" "unat row < unat (fb_height (con_fb s)) div 8"
    using assms by (simp_all add: geometry_ok_def word_less_nat_alt)
  then show c: "8 * unat col + 8 \<le> unat (fb_width (con_fb s))" "8 * unat row + 8 \<le> unat (fb_height (con_fb s))"
    by linarith+
  then show "unat (col * 8) = 8 * unat col" "unat (row * 8) = 8 * unat row"
    using console_width [OF assms(1)] by (simp_all add: unat_word_ariths)
qed

lemma draw_glyph_shows:
  assumes "geometry_ok s" "col < console_cols s" "row < console_rows s"
  shows "drawn s (draw_glyph s col row c fg bg)"
    and "visible s y x i \<Longrightarrow> pixel_at (draw_glyph s col row c fg bg) y x i =
      (if y div 8 = unat row \<and> x div 8 = unat col then glyph_byte (con_fb s) (c, fg, bg) (y mod 8) (x mod 8) i
       else pixel_at s y x i)"
proof -
  note o = cell_origin [OF assms]
  have f: "draw_glyph s col row c fg bg = fold (\<lambda>j s. fold (\<lambda>k s. put_pixel_raw s (col * 8 + of_nat k) (row * 8 + of_nat j)
      (if glyph_bit c j k then pack_color (con_fb s0) fg else pack_color (con_fb s0) bg)) [0..<8] s) [0..<8] s"
    if "s0 = s" for s0 using that by (simp only: draw_glyph_def Let_def)
  show "drawn s (draw_glyph s col row c fg bg)"
    unfolding f [OF refl] using assms(1) o by (intro draw_block) simp_all
  assume v: "visible s y x i"
  let ?f = "\<lambda>j k. if glyph_bit c j k then pack_color (con_fb s) fg else pack_color (con_fb s) bg"
  have d: "8 * r \<le> a \<and> a < 8 * r + 8 \<longleftrightarrow> a div 8 = r" for a r :: nat by auto
  have m: "a - 8 * (a div 8) = a mod 8" for a :: nat by (simp add: minus_mult_div_eq_mod)
  have "pixel_at (draw_glyph s col row c fg bg) y x i =
      (if (8 * unat row \<le> y \<and> y < 8 * unat row + 8) \<and> (8 * unat col \<le> x \<and> x < 8 * unat col + 8)
       then ucast (drop_bit (8 * i) (?f (y - 8 * unat row) (x - 8 * unat col))) else pixel_at s y x i)"
    unfolding f [OF refl] using draw_block(2) [OF assms(1), of "row * 8" 8 "col * 8" 8 y x i ?f] v o by simp
  then show "pixel_at (draw_glyph s col row c fg bg) y x i =
      (if y div 8 = unat row \<and> x div 8 = unat col then glyph_byte (con_fb s) (c, fg, bg) (y mod 8) (x mod 8) i
       else pixel_at s y x i)"
    unfolding d by (auto simp: glyph_byte_def m simp flip: m)
qed

text \<open>Scrolling moves every pixel row up by eight and clears the last eight.\<close>

lemma scroll_sizes:
  assumes "geometry_ok s"
  shows "unat (8 * fb_pitch (con_fb s)) = 8 * unat (fb_pitch (con_fb s))"
    "unat ((fb_height (con_fb s) - 8) * fb_pitch (con_fb s)) =
       (unat (fb_height (con_fb s)) - 8) * unat (fb_pitch (con_fb s))"
    "(unat (fb_height (con_fb s)) - 8) * unat (fb_pitch (con_fb s)) + 8 * unat (fb_pitch (con_fb s)) =
       unat (fb_height (con_fb s)) * unat (fb_pitch (con_fb s))"
proof -
  let ?H = "fb_height (con_fb s)" and ?P = "fb_pitch (con_fb s)"
  have h: "8 \<le> unat ?H" using assms by (simp add: geometry_ok_def mode_ok_def)
  then have "unat ?H * unat ?P = (unat ?H - 8 + 8) * unat ?P" by simp
  then show sum: "(unat ?H - 8) * unat ?P + 8 * unat ?P = unat ?H * unat ?P" by (simp only: distrib_right)
  have "unat (?H - 8) = unat ?H - 8" using h by (simp add: unat_sub_64 word_le_nat_alt)
  then show "unat (8 * ?P) = 8 * unat ?P" "unat ((?H - 8) * ?P) = (unat ?H - 8) * unat ?P"
    using sum buffer_bytes [OF assms] by (simp_all add: unat_mult_64)
qed

lemma scroll_mem:
  assumes "geometry_ok s"
  shows "con_mem (scroll_one_row s) a =
    (let H = unat (fb_height (con_fb s)); P = unat (fb_pitch (con_fb s)); d = unat (a - fb_address (con_fb s))
     in if d < (H - 8) * P then con_mem s (a + 8 * fb_pitch (con_fb s)) else if d < H * P then 0 else con_mem s a)"
proof -
  let ?H = "unat (fb_height (con_fb s))" and ?P = "unat (fb_pitch (con_fb s))" and ?A = "fb_address (con_fb s)"
  define rb where "rb = 8 * fb_pitch (con_fb s)"
  define rem where "rem = (fb_height (con_fb s) - 8) * fb_pitch (con_fb s)"
  have u: "unat rb = 8 * ?P" "unat rem = (?H - 8) * ?P" "unat rem + unat rb = ?H * ?P"
    using scroll_sizes [OF assms] by (simp_all add: rb_def rem_def)
  have A: "unat ?A + (unat rem + unat rb) \<le> 2 ^ 64" "0 < unat ?A"
    using assms unfolding u(3) by (simp_all add: geometry_ok_def mode_ok_def unat_gt_0)
  have "unat (?A + rb) \<le> unat ?A + unat rb" by (simp add: unat_word_ariths)
  then have mv: "memmove (con_mem s) ?A (?A + rb) rem x = (if x - ?A < rem then con_mem s (?A + rb + (x - ?A)) else con_mem s x)" for x
    using A(1) by (intro memmove_apply) linarith+
  have clear: "a - (?A + rem) < rb \<longleftrightarrow> unat rem \<le> unat (a - ?A) \<and> unat (a - ?A) < unat rem + unat rb"
  proof (cases "rem \<le> a - ?A")
    case True
    then have "unat (a - ?A - rem) = unat (a - ?A) - unat rem" by (rule unat_sub_64)
    then show ?thesis using True by (simp add: word_less_nat_alt word_le_nat_alt diff_diff_add less_diff_conv2 add.commute)
  next
    case False
    then have "unat (a - ?A - rem) = 2 ^ 64 - (unat rem - unat (a - ?A))"
      using unat_lt_64 [of rem] by (simp add: unat_sub_if_size word_size word_le_nat_alt)
    then show ?thesis using False A by (simp add: word_less_nat_alt word_le_nat_alt diff_diff_add)
  qed
  have e: "?A + rb + (a - ?A) = a + rb" by simp
  show ?thesis
    using mv [of a] clear unfolding scroll_one_row_def Let_def rb_def [symmetric] rem_def [symmetric] u(2,3) [symmetric]
    by (simp add: memset_apply word_less_nat_alt e)
qed

lemma scroll_drawn: "geometry_ok s \<Longrightarrow> drawn s (scroll_one_row s)"
  using scroll_sizes(3) [of s]
  by (auto simp: drawn_def scroll_mem in_buffer_def Let_def) (simp add: scroll_one_row_def Let_def)

lemma scroll_shows:
  assumes "geometry_ok s" "visible s y x i"
  shows "pixel_at (scroll_one_row s) y x i = (if y + 8 < unat (fb_height (con_fb s)) then pixel_at s (y + 8) x i else 0)"
proof -
  let ?H = "unat (fb_height (con_fb s))" and ?P = "unat (fb_pitch (con_fb s))" and ?o = "pixel_offset s y x i"
  have u: "unat (of_nat ?o :: u64) = ?o" "?o < ?H * ?P"
    using offset_unat [OF assms(1)] pixel_offset_less [OF assms] by simp_all
  have c: "x * unat (bytes_per_pixel s) + i < ?P" by (rule column_offset [OF assms])
  have "?o < (?H - 8) * ?P \<longleftrightarrow> y < ?H - 8"
  proof
    assume "?o < (?H - 8) * ?P"
    then have "y * ?P < (?H - 8) * ?P" unfolding pixel_offset_def by linarith
    then show "y < ?H - 8" by simp
  next
    assume "y < ?H - 8"
    then have "(y + 1) * ?P \<le> (?H - 8) * ?P" by (intro mult_le_mono1) simp
    then show "?o < (?H - 8) * ?P" using c by (simp add: pixel_offset_def)
  qed
  moreover have "of_nat ?o + 8 * fb_pitch (con_fb s) = (of_nat (pixel_offset s (y + 8) x i) :: u64)"
    by (simp add: pixel_offset_def algebra_simps)
  ultimately show ?thesis
    using u by (simp add: pixel_at_def scroll_mem [OF assms(1)] drawn_fields [OF scroll_drawn [OF assms(1)]]
        Let_def less_diff_conv add.assoc)
qed

section \<open>The terminal the console shows\<close>

text \<open>
  A grid of cells, each blank or holding a character with its two colours, and a cursor. A
  character goes to the cursor's cell, a newline to the start of the next row; past the last row
  the grid moves up by one.
\<close>

record terminal =
  cells :: "nat \<Rightarrow> nat \<Rightarrow> (char \<times> u32 \<times> u32) option"
  term_cols :: nat
  term_rows :: nat
  term_col :: nat
  term_row :: nat

definition term_scroll :: "terminal \<Rightarrow> terminal" where
  "term_scroll t = (if term_row t < term_rows t then t
     else t\<lparr>cells := (\<lambda>r c. if r + 1 < term_rows t then cells t (r + 1) c else None), term_row := term_rows t - 1\<rparr>)"

definition term_putc :: "char \<Rightarrow> u32 \<Rightarrow> u32 \<Rightarrow> terminal \<Rightarrow> terminal" where
  "term_putc c fg bg t = term_scroll
     (if c = CHR 0x0A then t\<lparr>term_col := 0, term_row := term_row t + 1\<rparr>
      else let t = t\<lparr>cells := (cells t)(term_row t := (cells t (term_row t))(term_col t := Some (c, fg, bg)))\<rparr>
           in if term_col t + 1 < term_cols t then t\<lparr>term_col := term_col t + 1\<rparr>
              else t\<lparr>term_col := 0, term_row := term_row t + 1\<rparr>)"

definition screen_byte :: "boot_framebuffer \<Rightarrow> terminal \<Rightarrow> nat \<Rightarrow> nat \<Rightarrow> nat \<Rightarrow> u8" where
  "screen_byte f t y x i =
     (if y < 8 * term_rows t then
        (case cells t (y div 8) (x div 8) of None \<Rightarrow> 0 | Some cell \<Rightarrow> glyph_byte f cell (y mod 8) (x mod 8) i)
      else 0)"

text \<open>
  The console shows the terminal: the cursors agree and stand on a cell, and every pixel of every
  cell is the glyph's. \<open>paints\<close> is the part about pixels.
\<close>

definition paints :: "console \<Rightarrow> terminal \<Rightarrow> bool" where
  "paints s t \<longleftrightarrow> geometry_ok s \<and> term_cols t = unat (console_cols s) \<and> term_rows t = unat (console_rows s) \<and>
     (\<forall>y x i. visible s y x i \<longrightarrow> x < 8 * term_cols t \<longrightarrow> pixel_at s y x i = screen_byte (con_fb s) t y x i)"

definition same_cursor :: "console \<Rightarrow> terminal \<Rightarrow> bool" where
  "same_cursor s t \<longleftrightarrow> term_col t = unat (cursor_col s) \<and> term_row t = unat (cursor_row s)"

definition showing :: "console \<Rightarrow> terminal \<Rightarrow> bool" where
  "showing s t \<longleftrightarrow> paints s t \<and> same_cursor s t \<and> term_col t < term_cols t \<and> term_row t < term_rows t"

lemma geometry_rows:
  assumes "geometry_ok s"
  shows "8 * unat (console_rows s) \<le> unat (fb_height (con_fb s))" "unat (fb_height (con_fb s)) < 8 * unat (console_rows s) + 8"
    "0 < unat (console_rows s)" "0 < unat (console_cols s)"
proof -
  let ?H = "unat (fb_height (con_fb s))"
  have "unat (console_rows s) = ?H div 8" "8 \<le> ?H" "unat (console_cols s) = unat (fb_width (con_fb s)) div 8"
    "8 \<le> unat (fb_width (con_fb s))"
    using assms by (simp_all add: geometry_ok_def mode_ok_def)
  then show "8 * unat (console_rows s) \<le> ?H" "?H < 8 * unat (console_rows s) + 8"
    "0 < unat (console_rows s)" "0 < unat (console_cols s)" by linarith+
qed

lemma paints_cursor: "paints (s\<lparr>cursor_col := a, cursor_row := b\<rparr>) t = paints s t"
    "paints s (t\<lparr>term_col := c, term_row := r\<rparr>) = paints s t"
    "paints (s\<lparr>cursor_col := a\<rparr>) t = paints s t" "paints (s\<lparr>cursor_row := b\<rparr>) t = paints s t"
    "paints s (t\<lparr>term_col := c\<rparr>) = paints s t" "paints s (t\<lparr>term_row := r\<rparr>) = paints s t"
  by (simp_all add: paints_def geometry_ok_def visible_def pixel_at_def pixel_offset_def screen_byte_def)

lemma paints_glyph:
  assumes "paints s t" "same_cursor s t" "term_col t < term_cols t" "term_row t < term_rows t"
  shows "paints (draw_glyph s (cursor_col s) (cursor_row s) c fg bg)
    (t\<lparr>cells := (cells t)(term_row t := (cells t (term_row t))(term_col t := Some (c, fg, bg)))\<rparr>)"
proof -
  have ok: "geometry_ok s" "cursor_col s < console_cols s" "cursor_row s < console_rows s"
    using assms by (simp_all add: paints_def same_cursor_def word_less_nat_alt)
  note d = drawn_fields [OF draw_glyph_shows(1) [OF ok, of c fg bg]]
  have "y < 8 * term_rows t" if "y div 8 = unat (cursor_row s)" for y
    using that assms(2,4) by (simp add: same_cursor_def)
  then show ?thesis
    using assms(1,2) draw_glyph_shows(2) [OF ok, of _ _ _ c fg bg]
    by (auto simp: paints_def d screen_byte_def same_cursor_def)
qed

lemma paints_scroll:
  assumes "paints s t" and "t' = t\<lparr>cells := (\<lambda>r c. if r + 1 < term_rows t then cells t (r + 1) c else None)\<rparr>"
  shows "paints (scroll_one_row s) t'"
proof -
  have ok: "geometry_ok s" using assms(1) by (simp add: paints_def)
  note d = drawn_fields [OF scroll_drawn [OF ok]] and r = geometry_rows [OF ok]
  have px: "pixel_at s y x i = screen_byte (con_fb s) t y x i" if "visible s y x i" "x < 8 * term_cols t" for y x i
    using assms(1) that by (simp add: paints_def)
  have rows: "term_rows t = unat (console_rows s)" using assms(1) by (simp add: paints_def)
  have "pixel_at (scroll_one_row s) y x i = screen_byte (con_fb s) t' y x i"
    if v: "visible s y x i" and x: "x < 8 * term_cols t" for y x i
  proof (cases "y + 8 < unat (fb_height (con_fb s))")
    case True
    then have "pixel_at s (y + 8) x i = screen_byte (con_fb s) t (y + 8) x i"
      using v x by (intro px) (simp_all add: visible_def)
    moreover have "y + 8 < 8 * term_rows t \<longleftrightarrow> y div 8 + 1 < term_rows t" by linarith
    moreover have "y < 8 * term_rows t" if "y + 8 < 8 * term_rows t" using that by linarith
    moreover have "(y + 8) div 8 = y div 8 + 1" "(y + 8) mod 8 = y mod 8" by simp_all
    ultimately show ?thesis
      using True scroll_shows [OF ok v] by (auto simp: screen_byte_def assms(2) split: option.split)
  next
    case False
    then have "\<not> y div 8 + 1 < term_rows t" using r(1) rows by linarith
    then show ?thesis using False scroll_shows [OF ok v] by (simp add: screen_byte_def assms(2))
  qed
  then show ?thesis using assms(1) by (simp add: paints_def d assms(2))
qed

text \<open>One character: first the cell and the cursor, then the scroll.\<close>

definition outside_kept :: "console \<Rightarrow> console \<Rightarrow> bool" where
  "outside_kept s s' \<longleftrightarrow> con_fb s' = con_fb s \<and> (\<forall>a. \<not> in_buffer s a \<longrightarrow> con_mem s' a = con_mem s a)"

lemma outside_kept_refl: "outside_kept s s" by (simp add: outside_kept_def)

lemma outside_kept_trans: "outside_kept s s' \<Longrightarrow> outside_kept s' s'' \<Longrightarrow> outside_kept s s''"
  by (simp add: outside_kept_def in_buffer_def)

lemma drawn_kept: "drawn s s' \<Longrightarrow> outside_kept s s'"
  using drawn_fields(1) [of s s'] unfolding outside_kept_def drawn_def by blast

lemma scroll_step:
  assumes "paints s t" "same_cursor s t" "term_col t < term_cols t" "term_row t \<le> term_rows t"
    and "s' = (if console_rows s \<le> cursor_row s then (scroll_one_row s)\<lparr>cursor_row := console_rows s - 1\<rparr> else s)"
  shows "showing s' (term_scroll t) \<and> outside_kept s s'"
proof (cases "console_rows s \<le> cursor_row s")
  case True
  have ok: "geometry_ok s" and rows: "term_rows t = unat (console_rows s)" using assms(1) by (simp_all add: paints_def)
  let ?t = "t\<lparr>cells := (\<lambda>r c. if r + 1 < term_rows t then cells t (r + 1) c else None)\<rparr>"
  have "\<not> term_row t < term_rows t" using True assms(2) rows by (simp add: same_cursor_def word_le_nat_alt)
  then have t: "term_scroll t = ?t\<lparr>term_row := term_rows t - 1\<rparr>" by (simp add: term_scroll_def)
  have u: "unat (console_rows s - 1) = unat (console_rows s) - 1"
    using geometry_rows(3) [OF ok] by (simp add: unat_sub_if_size word_size)
  have "paints (scroll_one_row s) ?t" by (rule paints_scroll [OF assms(1) refl])
  then have "showing ((scroll_one_row s)\<lparr>cursor_row := console_rows s - 1\<rparr>) (term_scroll t)"
    using assms(2-3) geometry_rows(3) [OF ok] rows
    by (simp add: showing_def t paints_cursor same_cursor_def u drawn_fields [OF scroll_drawn [OF ok]])
  moreover have "outside_kept s ((scroll_one_row s)\<lparr>cursor_row := console_rows s - 1\<rparr>)"
    using drawn_kept [OF scroll_drawn [OF ok]] by (simp add: outside_kept_def)
  ultimately show ?thesis using True by (simp add: assms(5))
next
  case False
  then have "term_row t < term_rows t" using assms(1,2) by (simp add: same_cursor_def paints_def word_le_nat_alt)
  then show ?thesis using False assms by (simp add: showing_def term_scroll_def outside_kept_refl)
qed

lemma putc_shows:
  assumes "showing s t"
  shows "showing (fb_console_putc c fg bg s) (term_putc c fg bg t) \<and> outside_kept s (fb_console_putc c fg bg s)"
proof -
  have p: "paints s t" "same_cursor s t" "term_col t < term_cols t" "term_row t < term_rows t"
    using assms by (simp_all add: showing_def)
  then have ok: "geometry_ok s" "cursor_col s < console_cols s" "cursor_row s < console_rows s"
    by (simp_all add: paints_def same_cursor_def word_less_nat_alt)
  have dims: "term_cols t = unat (console_cols s)" "term_rows t = unat (console_rows s)" "fb_address (con_fb s) \<noteq> 0"
    using p(1) by (simp_all add: paints_def geometry_ok_def mode_ok_def)
  have u: "unat (cursor_col s + 1) = unat (cursor_col s) + 1" "unat (cursor_row s + 1) = unat (cursor_row s) + 1"
    using ok by (simp_all add: unat_plus_one_32)
  let ?g = "draw_glyph s (cursor_col s) (cursor_row s) c fg bg"
  let ?t = "t\<lparr>cells := (cells t)(term_row t := (cells t (term_row t))(term_col t := Some (c, fg, bg)))\<rparr>"
  note d = draw_glyph_shows(1) [OF ok, of c fg bg] and pg = paints_glyph [OF p, of c fg bg]
  define s1 where "s1 = (if c = CHR 0x0A then s\<lparr>cursor_col := 0, cursor_row := cursor_row s + 1\<rparr> else advance_cursor ?g)"
  define t1 where "t1 = (if c = CHR 0x0A then t\<lparr>term_col := 0, term_row := term_row t + 1\<rparr>
    else if term_col t + 1 < term_cols t then ?t\<lparr>term_col := term_col t + 1\<rparr>
    else ?t\<lparr>term_col := 0, term_row := term_row t + 1\<rparr>)"
  have "paints s1 t1 \<and> same_cursor s1 t1 \<and> term_col t1 < term_cols t1 \<and> term_row t1 \<le> term_rows t1 \<and> outside_kept s s1"
    using p pg u dims geometry_rows(3,4) [OF ok(1)] drawn_kept [OF d]
    by (simp add: s1_def t1_def advance_cursor_def Let_def paints_cursor same_cursor_def drawn_fields [OF d]
        outside_kept_def word_le_nat_alt Suc_le_eq)
  moreover have "term_putc c fg bg t = term_scroll t1" by (simp add: term_putc_def t1_def Let_def)
  moreover have "fb_console_putc c fg bg s =
      (if console_rows s1 \<le> cursor_row s1 then (scroll_one_row s1)\<lparr>cursor_row := console_rows s1 - 1\<rparr> else s1)"
    using dims(3) by (simp add: fb_console_putc_def s1_def Let_def)
  ultimately show ?thesis using scroll_step [of s1 t1] outside_kept_trans [of s s1] by simp
qed

section \<open>Clearing the screen, and the console from the start\<close>

lemma ucast_less_width:
  "(ucast (x :: u32) :: u64) < w \<longleftrightarrow> unat x < unat w"
  by (simp add: word_less_nat_alt unat_ucast_u32)

lemma clear_row_result:
  assumes "geometry_ok s" "unat y < unat (fb_height (con_fb s))" "unat x + n = unat (fb_width (con_fb s))"
  shows "\<exists>s'. clear_row s native y x = Some s' \<and> drawn s s' \<and>
    (\<forall>y' x' i'. visible s y' x' i' \<longrightarrow> pixel_at s' y' x' i' =
       (if y' = unat y \<and> unat x \<le> x' then ucast (drop_bit (8 * i') native) else pixel_at s y' x' i'))"
  using assms
proof (induction n arbitrary: s x)
  case 0
  then show ?case by (subst clear_row.simps) (auto simp: ucast_less_width visible_def)
next
  case (Suc n)
  let ?s = "put_pixel_raw s x y native"
  have u: "unat (x + 1) = unat x + 1" using Suc.prems console_width [of s] unat_add_small_32 [of x 1] by simp
  have v: "visible s (unat y) (unat x) 0" using Suc.prems by (intro visible_in) simp_all
  note d = put_pixel_drawn [OF Suc.prems(1) v, of native]
  obtain s' where s': "clear_row ?s native y (x + 1) = Some s'" "drawn ?s s'"
    and px: "\<And>y' x' i'. visible s y' x' i' \<Longrightarrow> pixel_at s' y' x' i' =
       (if y' = unat y \<and> unat (x + 1) \<le> x' then ucast (drop_bit (8 * i') native) else pixel_at ?s y' x' i')"
    using Suc.IH [of ?s "x + 1"] Suc.prems u unfolding drawn_fields [OF d] by auto
  have "clear_row s native y x = Some s'"
    using Suc.prems s'(1) by (subst clear_row.simps) (simp add: ucast_less_width)
  then show ?case
    using drawn_trans [OF d s'(2)] px put_pixel_at [OF Suc.prems(1) v] u by (intro exI [of _ s']) auto
qed

lemma clear_rows_result:
  assumes "geometry_ok s" "unat y + n = unat (fb_height (con_fb s))"
  shows "\<exists>s'. clear_rows s native y = Some s' \<and> drawn s s' \<and>
    (\<forall>y' x' i'. visible s y' x' i' \<longrightarrow> pixel_at s' y' x' i' =
       (if unat y \<le> y' then ucast (drop_bit (8 * i') native) else pixel_at s y' x' i'))"
  using assms
proof (induction n arbitrary: s y)
  case 0
  then show ?case by (subst clear_rows.simps) (auto simp: ucast_less_width visible_def)
next
  case (Suc n)
  have u: "unat (y + 1) = unat y + 1" using Suc.prems console_width [of s] unat_add_small_32 [of y 1] by simp
  obtain s1 where s1: "clear_row s native y 0 = Some s1" "drawn s s1"
    and p1: "\<And>y' x' i'. visible s y' x' i' \<Longrightarrow> pixel_at s1 y' x' i' =
       (if y' = unat y then ucast (drop_bit (8 * i') native) else pixel_at s y' x' i')"
    using clear_row_result [OF Suc.prems(1), of y 0 "unat (fb_width (con_fb s))" native] Suc.prems(2) by auto
  note d = drawn_fields [OF s1(2)]
  obtain s' where s': "clear_rows s1 native (y + 1) = Some s'" "drawn s1 s'"
    and p: "\<And>y' x' i'. visible s y' x' i' \<Longrightarrow> pixel_at s' y' x' i' =
       (if unat (y + 1) \<le> y' then ucast (drop_bit (8 * i') native) else pixel_at s1 y' x' i')"
    using Suc.IH [of s1 "y + 1"] Suc.prems u unfolding d by auto
  have "clear_rows s native y = Some s'"
    using Suc.prems s1(1) s'(1) by (subst clear_rows.simps) (simp add: ucast_less_width)
  then show ?case
    using drawn_trans [OF s1(2) s'(2)] p p1 u by (intro exI [of _ s']) auto
qed

definition blank_terminal :: "boot_framebuffer \<Rightarrow> terminal" where
  "blank_terminal f = \<lparr>cells = (\<lambda>r c. None), term_cols = unat (fb_width f) div 8,
     term_rows = unat (fb_height f) div 8, term_col = 0, term_row = 0\<rparr>"

lemma fb_init_geometry:
  assumes "mode_ok f"
  shows "fst (fb_init (Some f) s)" "geometry_ok (snd (fb_init (Some f) s))" "con_fb (snd (fb_init (Some f) s)) = f"
    "con_mem (snd (fb_init (Some f) s)) = con_mem s" "cursor_col (snd (fb_init (Some f) s)) = 0"
    "cursor_row (snd (fb_init (Some f) s)) = 0"
proof -
  have u: "unat (ucast (w div 8) :: u32) = unat w div 8" if "unat w < 2 ^ 32 - 8" for w :: u64
  proof -
    have "unat w div 8 < 2 ^ 32" using that by linarith
    then have t: "take_bit 32 (unat w div 8) = unat w div 8" by (rule take_bit_nat_eq_self)
    show ?thesis by (simp add: unsigned_ucast_eq unat_div t)
  qed
  have "unat (ucast (w div 8) :: u32) = unat w div 8" for w :: u16
  proof -
    have "unat w < 2 ^ LENGTH(16)" by (rule unsigned_less)
    then have "unat w div 8 < 2 ^ 32" by simp
    then have t: "take_bit 32 (unat w div 8) = unat w div 8" by (rule take_bit_nat_eq_self)
    show ?thesis by (simp add: unsigned_ucast_eq unat_div t)
  qed
  then show "geometry_ok (snd (fb_init (Some f) s))"
    using assms u by (simp add: fb_init_def geometry_ok_def mode_ok_def)
qed (use assms in \<open>simp_all add: fb_init_def mode_ok_def\<close>)

lemma cleared_shows:
  assumes "mode_ok f"
  shows "\<exists>s'. fb_clear (snd (fb_init (Some f) s)) 0 = Some s' \<and> showing s' (blank_terminal f) \<and>
    con_fb s' = f \<and> (\<forall>a. \<not> in_buffer s' a \<longrightarrow> con_mem s' a = con_mem s a)"
proof -
  let ?s = "snd (fb_init (Some f) s)"
  note i = fb_init_geometry [OF assms, of s]
  have z: "pack_color f 0 = 0" by (simp add: pack_color_def scale_component_def Let_def)
  obtain s' where s': "clear_rows ?s 0 0 = Some s'" "drawn ?s s'"
    and p: "\<And>y' x' i'. visible ?s y' x' i' \<Longrightarrow> pixel_at s' y' x' i' = 0"
    using clear_rows_result [of ?s 0 _ 0] i(2) by auto
  note d = drawn_fields [OF s'(2)]
  have dims: "unat (console_cols ?s) = unat (fb_width f) div 8" "unat (console_rows ?s) = unat (fb_height f) div 8"
    using i(2,3) by (simp_all add: geometry_ok_def)
  have "showing s' (blank_terminal f)"
    using i p dims geometry_rows(3,4) [OF i(2)]
    by (simp add: showing_def paints_def same_cursor_def d blank_terminal_def screen_byte_def)
  moreover have "fb_clear ?s 0 = Some s'" using s'(1) by (simp add: fb_clear_def i z)
  moreover have "con_mem s' a = con_mem s a" if "\<not> in_buffer s' a" for a
    using that s'(2) i(4) d(6) unfolding drawn_def by metis
  ultimately show ?thesis using d(1) i(3) by auto
qed

lemma chars_show:
  assumes "showing s t"
  shows "showing (fold (\<lambda>(c, fg, bg). fb_console_putc c fg bg) xs s) (fold (\<lambda>(c, fg, bg). term_putc c fg bg) xs t) \<and>
    outside_kept s (fold (\<lambda>(c, fg, bg). fb_console_putc c fg bg) xs s)"
  using assms
proof (induction xs arbitrary: s t)
  case (Cons x xs)
  then show ?case using putc_shows [OF Cons.prems] outside_kept_trans [of s] by (cases x) fastforce
qed (simp add: outside_kept_refl)


definition demo_mode :: boot_framebuffer where
  "demo_mode = \<lparr>fb_address = 0x10000, fb_width = 20, fb_height = 17, fb_pitch = 96, fb_bpp = 32,
     red_mask_size = 8, red_mask_shift = 16, green_mask_size = 8, green_mask_shift = 8,
     blue_mask_size = 8, blue_mask_shift = 0\<rparr>"

definition demo_console :: console where
  "demo_console = \<lparr>con_mem = (\<lambda>a. ucast a), con_fb = demo_mode, fb_ready = False, bytes_per_pixel = 0,
     console_cols = 0, console_rows = 0, cursor_col = 0, cursor_row = 0\<rparr>"

lemma demo_mode_ok: "mode_ok demo_mode"
  by (simp add: mode_ok_def demo_mode_def)

definition demo_text :: "(char \<times> u32 \<times> u32) list" where
  "demo_text = [(CHR ''o'', 0xffffff, 0), (CHR ''k'', 0xffffff, 0)]"

lemma demo_terminal:
  "term_row (fold (\<lambda>(c, fg, bg). term_putc c fg bg) demo_text (blank_terminal demo_mode)) = 1"
  "term_cols (fold (\<lambda>(c, fg, bg). term_putc c fg bg) demo_text (blank_terminal demo_mode)) = 2"
  "screen_byte demo_mode (fold (\<lambda>(c, fg, bg). term_putc c fg bg) demo_text (blank_terminal demo_mode)) 2 1 0 = 0xff"
  by code_simp+


end
