(* ===== verification/Lib_Log.thy ===== *)
theory Lib_Log
  imports Lib_Printf Drv_Serial Drv_Framebuffer
begin

text \<open>
  \<^verbatim>\<open>kernel/lib/log.c\<close>: levelled output to the serial line and, once there is one, to the
  console. Waiting for the serial transmitter need not end, so the sink handed to the formatter works on
  an optional state. The theory interprets the formatter's sink interface for it.
\<close>

section \<open>Levels and styles\<close>

datatype log_level = LOG_LEVEL_DEBUG | LOG_LEVEL_INFO | LOG_LEVEL_WARN

primrec log_level_number :: "log_level \<Rightarrow> nat" where
  "log_level_number LOG_LEVEL_DEBUG = 0"
| "log_level_number LOG_LEVEL_INFO = 1"
| "log_level_number LOG_LEVEL_WARN = 2"

instantiation log_level :: linorder
begin

definition less_eq_log_level :: "log_level \<Rightarrow> log_level \<Rightarrow> bool" where
  "less_eq_log_level a b \<longleftrightarrow> log_level_number a \<le> log_level_number b"

definition less_log_level :: "log_level \<Rightarrow> log_level \<Rightarrow> bool" where
  "less_log_level a b \<longleftrightarrow> log_level_number a < log_level_number b"

instance
proof
  fix a b c :: log_level
  show "a < b \<longleftrightarrow> a \<le> b \<and> \<not> b \<le> a" by (auto simp: less_eq_log_level_def less_log_level_def)
  show "a \<le> a" "a \<le> b \<or> b \<le> a" by (auto simp: less_eq_log_level_def)
  show "a \<le> b \<Longrightarrow> b \<le> c \<Longrightarrow> a \<le> c" by (simp add: less_eq_log_level_def)
  show "a \<le> b \<Longrightarrow> b \<le> a \<Longrightarrow> a = b" by (cases a; cases b; simp add: less_eq_log_level_def)
qed

end

definition FB_COLOR :: "u32 \<Rightarrow> u32 \<Rightarrow> u32 \<Rightarrow> u32" where
  "FB_COLOR r g b = push_bit 16 r OR push_bit 8 g OR b"

definition FB_WHITE :: u32 where "FB_WHITE = FB_COLOR 0xff 0xff 0xff"
definition FB_BLACK :: u32 where "FB_BLACK = FB_COLOR 0 0 0"
definition FB_RED :: u32 where "FB_RED = FB_COLOR 0xff 0x40 0x40"
definition FB_YELLOW :: u32 where "FB_YELLOW = FB_COLOR 0xff 0xd0 0x40"
definition FB_GREEN :: u32 where "FB_GREEN = FB_COLOR 0x40 0xff 0x80"
definition FB_GRAY :: u32 where "FB_GRAY = FB_COLOR 0xa0 0xa0 0xa0"

primrec styles :: "log_level \<Rightarrow> string \<times> u32" where
  "styles LOG_LEVEL_DEBUG = (''DEBUG'', FB_GRAY)"
| "styles LOG_LEVEL_INFO = (''INFO'', FB_WHITE)"
| "styles LOG_LEVEL_WARN = (''WARN'', FB_YELLOW)"

section \<open>State and operations\<close>

text \<open>Where text goes, and the logger's own two variables.\<close>

record outputs =
  line :: serial
  screen :: console

record logger = outputs +
  min_level :: log_level
  current_fb_color :: u32

definition log_emit :: "char \<Rightarrow> logger \<Rightarrow> logger option" where
  "log_emit c s =
     map_option (\<lambda>l. let s = s\<lparr>line := l\<rparr> in
         if fb_is_available (screen s)
         then s\<lparr>screen := fb_console_putc c (current_fb_color s) FB_BLACK (screen s)\<rparr> else s)
       (serial_putc c (line s))"

definition log_set_min_level :: "log_level \<Rightarrow> logger \<Rightarrow> logger" where
  "log_set_min_level level s = s\<lparr>min_level := level\<rparr>"

definition log_sink :: "char \<Rightarrow> logger option \<Rightarrow> logger option" where
  "log_sink c s = Option.bind s (log_emit c)"

definition log_write :: "log_level \<Rightarrow> string \<Rightarrow> printf_arg list \<Rightarrow> logger \<Rightarrow> printf_fault + logger option" where
  "log_write level fmt args s =
     (if level < min_level s then Inr (Some s)
      else
        let (tag, color) = styles level;
            s1 = Some (s\<lparr>current_fb_color := color\<rparr>);
            s2 = log_sink CHR ''['' s1;
            s3 = emit_all log_sink tag s2;
            s4 = log_sink CHR '' '' (log_sink CHR '']'' s3)
        in (case kvprintf log_sink fmt args s4 of
              Inl e \<Rightarrow> Inl e
            | Inr s5 \<Rightarrow> Inr (log_sink CHR 0x0A s5)))"

section \<open>The sink's promise\<close>

text \<open>
  From \<open>s\<close> a state has received a text when the serial line carried it, with its carriage
  returns, and the console, if available, printed it in the colour.
\<close>

definition shown :: "u32 \<Rightarrow> 'a outputs_scheme \<Rightarrow> 'a outputs_scheme \<Rightarrow> string \<Rightarrow> bool" where
  "shown color s s' xs \<longleftrightarrow> transmitter_ready (line s') \<and> sent (line s) (crlf xs) (line s') \<and>
     fb_ready (screen s') = fb_ready (screen s) \<and>
     screen s' = (if fb_ready (screen s) then fb_console_write xs color FB_BLACK (screen s) else screen s)"

lemma console_write_append:
  "fb_console_write (xs @ ys) fg bg s = fb_console_write ys fg bg (fb_console_write xs fg bg s)"
  by (induction xs arbitrary: s) simp_all

lemma console_putc_ready: "fb_ready (fb_console_putc c fg bg s) = fb_ready s"
proof -
  have p: "fb_ready (fold (\<lambda>k s. put_pixel_raw s (x k) y (f k)) ks s) = fb_ready s" for x y f ks s
    by (induction ks arbitrary: s) (simp_all add: put_pixel_raw_def Let_def)
  have "fb_ready (fold (\<lambda>j s. fold (\<lambda>k s. put_pixel_raw s (x k) (y j) (f j k)) ks s) js s) = fb_ready s" for x y f ks js s
    by (induction js arbitrary: s) (simp_all add: p)
  then have "fb_ready (draw_glyph s col row c fg bg) = fb_ready s" for col row
    unfolding draw_glyph_def Let_def by (rule trans) simp
  then show ?thesis
    by (simp add: fb_console_putc_def Let_def advance_cursor_def scroll_one_row_def)
qed

lemma console_write_ready: "fb_ready (fb_console_write xs fg bg s) = fb_ready s"
  by (induction xs arbitrary: s) (simp_all add: console_putc_ready)

lemma shown_refl: "transmitter_ready (line s) \<Longrightarrow> shown color s s []"
  by (simp add: shown_def sent_refl)

text \<open>One more character through the serial port and, if it is ready, the console.\<close>

lemma shown_step:
  assumes "shown color s s' xs"
  shows "\<exists>l. serial_putc c (line s') = Some l \<and> transmitter_ready l \<and> sent (line s) (crlf (xs @ [c])) l"
    and "fb_ready (screen s) \<Longrightarrow> fb_console_putc c color FB_BLACK (screen s') =
      fb_console_write (xs @ [c]) color FB_BLACK (screen s)"
proof -
  have r: "transmitter_ready (line s')" "sent (line s) (crlf xs) (line s')" using assms by (simp_all add: shown_def)
  obtain l where l: "serial_putc c (line s') = Some l" "sent (line s') (crlf [c]) l"
    using serial_putc_sends [OF r(1)] by blast
  then show "\<exists>l. serial_putc c (line s') = Some l \<and> transmitter_ready l \<and> sent (line s) (crlf (xs @ [c])) l"
    using sent_ready [OF l(2)] r(1) sent_trans [OF r(2) l(2)] unfolding crlf_append by blast
  show "fb_ready (screen s) \<Longrightarrow> fb_console_putc c color FB_BLACK (screen s') =
      fb_console_write (xs @ [c]) color FB_BLACK (screen s)"
    using assms by (simp add: shown_def console_write_append)
qed

definition log_received :: "logger \<Rightarrow> logger option \<Rightarrow> string \<Rightarrow> bool" where
  "log_received s0 so xs \<longleftrightarrow> (\<exists>s. so = Some s \<and> shown (current_fb_color s0) s0 s xs \<and>
     current_fb_color s = current_fb_color s0 \<and> min_level s = min_level s0)"

lemma log_sink_received:
  assumes "log_received s0 so xs"
  shows "log_received s0 (log_sink c so) (xs @ [c])"
proof -
  obtain s where s: "so = Some s" "shown (current_fb_color s0) s0 s xs"
      "current_fb_color s = current_fb_color s0" "min_level s = min_level s0"
    using assms unfolding log_received_def by blast
  obtain l where l: "serial_putc c (line s) = Some l" "transmitter_ready l" "sent (line s0) (crlf (xs @ [c])) l"
    using shown_step(1) [OF s(2)] by blast
  have "fb_ready (screen s) = fb_ready (screen s0)" using s(2) unfolding shown_def by blast
  moreover have "\<not> fb_ready (screen s0) \<Longrightarrow> screen s = screen s0" using s(2) by (simp add: shown_def)
  ultimately show ?thesis
    using l shown_step(2) [OF s(2), of c] s(3,4)
    by (auto simp: log_received_def log_sink_def s(1) log_emit_def fb_is_available_def shown_def console_write_ready)
qed

interpretation lg: char_sink log_sink "log_received s0" for s0
  by unfold_locales (rule log_sink_received)

lemma log_write_line:
  assumes "transmitter_ready (line s)" and "render fmt args = Inr out"
  shows "if level < min_level s then log_write level fmt args s = Inr (Some s)
    else \<exists>s'. log_write level fmt args s = Inr (Some s') \<and> min_level s' = min_level s \<and>
      shown (snd (styles level)) s s' (''['' @ fst (styles level) @ ''] '' @ out @ [CHR 0x0A])"
proof (cases "level < min_level s")
  case False
  let ?c = "snd (styles level)" and ?tag = "fst (styles level)"
  let ?s0 = "s\<lparr>current_fb_color := ?c\<rparr>"
  have "shown ?c ?s0 ?s0 []" using assms(1) by (intro shown_refl) simp
  then have "log_received ?s0 (Some ?s0) []" by (simp add: log_received_def)
  from lg.emit_received [OF lg.emit_received [OF lg.emit_all_received [OF lg.emit_received [OF this]]]]
  have "log_received ?s0 (log_sink CHR '' '' (log_sink CHR '']'' (emit_all log_sink ?tag (log_sink CHR ''['' (Some ?s0)))))
      (''['' @ ?tag @ ''] '')" by simp
  from lg.kvprintf_received [OF this, of fmt args] obtain s5 where
    k: "kvprintf log_sink fmt args (log_sink CHR '' '' (log_sink CHR '']''
        (emit_all log_sink ?tag (log_sink CHR ''['' (Some ?s0))))) = Inr s5"
    and r: "log_received ?s0 s5 (''['' @ ?tag @ ''] '' @ out)"
    using assms(2) by auto
  from lg.emit_received [OF r, of "CHR 0x0A"] obtain s' where
    "log_sink CHR 0x0A s5 = Some s'" "shown ?c ?s0 s' (''['' @ ?tag @ ''] '' @ out @ [CHR 0x0A])" "min_level s' = min_level s"
    by (auto simp: log_received_def)
  then show ?thesis
    using False k by (auto simp: log_write_def Let_def case_prod_beta shown_def)
qed (simp add: log_write_def)

lemma log_write_returns:
  assumes "transmitter_ready (line s)" and "render fmt args = Inr out"
  obtains s' where "log_write level fmt args s = Inr (Some s')" "transmitter_ready (line s')"
  using log_write_line [OF assms, of level] assms(1) by (auto simp: shown_def split: if_splits)

section \<open>Properties\<close>

text \<open>
  A log line, whole or not at all. Below the minimum level \<^verbatim>\<open>log_write\<close> changes
  nothing. Otherwise, when the serial transmitter always becomes ready again and the arguments fit the
  format, it returns, and exactly the text "[TAG] message" and a newline has gone out on the serial
  line, if present, with a carriage return before each newline, and to the console, if available, in
  the level's colour.
\<close>

theorem log_write_correct:
  assumes "transmitter_ready (line s)" and "render fmt args = Inr out"
  shows "if level < min_level s then log_write level fmt args s = Inr (Some s)
    else \<exists>s'. log_write level fmt args s = Inr (Some s') \<and> min_level s' = min_level s \<and>
      shown (snd (styles level)) s s' (''['' @ fst (styles level) @ ''] '' @ out @ [CHR 0x0A])"
  using assms by (rule log_write_line)

definition demo_logger :: logger where
  "demo_logger = \<lparr>line = \<lparr>com = \<lparr>port_answers = (\<lambda>n p. if p = 0x3fd \<and> odd n then 0x20 else 0), port_reads = 0,
     port_writes = []\<rparr>, serial_present = True\<rparr>, screen = demo_console, min_level = LOG_LEVEL_INFO, current_fb_color = 0\<rparr>"

lemma demo_ready: "transmitter_ready (line demo_logger)"
  unfolding transmitter_ready_def
proof
  show "\<exists>k \<ge> n. port_answers (com (line demo_logger)) k (COM1 + REG_LINE_STATUS) AND 0x20 \<noteq> 0" for n
    by (intro exI [of _ "2 * n + 1"]) (simp add: demo_logger_def)
qed

lemma demo_render: "render ''cpu %u'' [Arg_int 7] = Inr ''cpu 7''"
  by code_simp

theorem log_write_correct_witness:
  "(\<exists>s'. log_write LOG_LEVEL_INFO ''cpu %u'' [Arg_int 7] demo_logger = Inr (Some s') \<and>
     map snd (port_writes (com (line s'))) = map of_char ''[INFO] cpu 7'' @ [0x0d, 0x0a]) \<and>
   log_write LOG_LEVEL_DEBUG ''cpu %u'' [Arg_int 7] demo_logger = Inr (Some demo_logger)"
proof (intro conjI)
  have l: "\<not> LOG_LEVEL_INFO < min_level demo_logger" "LOG_LEVEL_DEBUG < min_level demo_logger"
    by (simp_all add: demo_logger_def less_log_level_def)
  obtain s' where "log_write LOG_LEVEL_INFO ''cpu %u'' [Arg_int 7] demo_logger = Inr (Some s')"
      "shown FB_WHITE demo_logger s' (''[INFO] cpu 7'' @ [CHR 0x0A])"
    using log_write_correct [OF demo_ready demo_render, of LOG_LEVEL_INFO] l(1) by auto
  then show "\<exists>s'. log_write LOG_LEVEL_INFO ''cpu %u'' [Arg_int 7] demo_logger = Inr (Some s') \<and>
     map snd (port_writes (com (line s'))) = map of_char ''[INFO] cpu 7'' @ [0x0d, 0x0a]"
    by (auto simp: shown_def sent_def demo_logger_def)
  show "log_write LOG_LEVEL_DEBUG ''cpu %u'' [Arg_int 7] demo_logger = Inr (Some demo_logger)"
    using log_write_correct [OF demo_ready demo_render, of LOG_LEVEL_DEBUG] l(2) by simp
qed

end
