(* ===== verification/Arch_Isr.thy ===== *)
theory Arch_Isr
  imports Quin_Prelude
begin

text \<open>
  \<^verbatim>\<open>kernel/arch/x86_64/cpu/isr.h\<close> and \<^verbatim>\<open>isr.c\<close>: the register frame the
  assembly stubs build, the table of C handlers and the dispatcher. A handler is a
  function pointer in C; the kernel installs three, named here. The dispatcher's effects
  (acknowledging the interrupt at the local APIC, running a handler, ending in
  \<^verbatim>\<open>panic_exception\<close>) are recorded in the order in which they happen.
\<close>

section \<open>Frames, handlers and dispatch\<close>

record interrupt_frame =
  if_r15 :: u64
  if_r14 :: u64
  if_r13 :: u64
  if_r12 :: u64
  if_r11 :: u64
  if_r10 :: u64
  if_r9 :: u64
  if_r8 :: u64
  if_rbp :: u64
  if_rdi :: u64
  if_rsi :: u64
  if_rdx :: u64
  if_rcx :: u64
  if_rbx :: u64
  if_rax :: u64
  if_vector :: u64
  if_error_code :: u64
  if_rip :: u64
  if_cs :: u64
  if_rflags :: u64

datatype handler = Page_fault_isr | Timer_tick_handler | Keyboard_isr

text \<open>\<^verbatim>\<open>handlers[256]\<close>, null where nothing is registered.\<close>

type_synonym handlers = "u8 \<Rightarrow> handler option"

definition interrupt_register_handler :: "handlers \<Rightarrow> u8 \<Rightarrow> handler \<Rightarrow> handlers" where
  "interrupt_register_handler hs vector h = hs(vector \<mapsto> h)"

datatype isr_effect = Send_eoi | Run_handler handler | Panic_exception

text \<open>
  \<^verbatim>\<open>handlers[frame->vector]\<close> with a 64-bit vector: the stubs only push vectors below
  256, and an index outside the table is the value \<open>None\<close>.
\<close>

definition isr_dispatch :: "handlers \<Rightarrow> interrupt_frame \<Rightarrow> isr_effect list option" where
  "isr_dispatch hs frame =
     (if 256 \<le> if_vector frame then None
      else
        let handler = hs (ucast (if_vector frame))
        in Some
          (if if_vector frame < 32
           then (case handler of Some h \<Rightarrow> [Run_handler h] | None \<Rightarrow> [Panic_exception])
           else Send_eoi # (case handler of Some h \<Rightarrow> [Run_handler h] | None \<Rightarrow> [])))"

text \<open>
  Every interrupt vector from 32 to 255 is acknowledged exactly once and before its
  handler runs, whether or not a handler is registered; an exception vector is never
  acknowledged and ends in \<^verbatim>\<open>panic_exception\<close> exactly when it has no handler.
\<close>

theorem isr_dispatch_eoi_first:
  assumes "if_vector frame < 256"
  shows "\<exists>effs. isr_dispatch hs frame = Some effs \<and>
    (if_vector frame < 32 \<longrightarrow> Send_eoi \<notin> set effs \<and>
       (Panic_exception \<in> set effs \<longleftrightarrow> hs (ucast (if_vector frame)) = None)) \<and>
    (32 \<le> if_vector frame \<longrightarrow>
       (\<exists>rest. effs = Send_eoi # rest \<and> Send_eoi \<notin> set rest \<and> Panic_exception \<notin> set effs)) \<and>
    (\<forall>h. Run_handler h \<in> set effs \<longleftrightarrow> hs (ucast (if_vector frame)) = Some h)"
  using assms by (auto simp: isr_dispatch_def Let_def not_le not_less split: option.splits)

definition timer_frame :: interrupt_frame where
  "timer_frame = \<lparr>if_r15 = 0, if_r14 = 0, if_r13 = 0, if_r12 = 0, if_r11 = 0, if_r10 = 0,
     if_r9 = 0, if_r8 = 0, if_rbp = 0, if_rdi = 0, if_rsi = 0, if_rdx = 0, if_rcx = 0,
     if_rbx = 0, if_rax = 0, if_vector = 32, if_error_code = 0, if_rip = 0x1000,
     if_cs = 8, if_rflags = 0x202\<rparr>"

theorem isr_dispatch_eoi_first_witness:
  "\<exists>effs rest. isr_dispatch (interrupt_register_handler Map.empty 32 Timer_tick_handler) timer_frame
     = Some effs \<and> effs = Send_eoi # rest \<and> Run_handler Timer_tick_handler \<in> set effs"
  using isr_dispatch_eoi_first [of timer_frame
      "interrupt_register_handler Map.empty 32 Timer_tick_handler"]
  by (auto simp: timer_frame_def interrupt_register_handler_def)

end
