(* ===== verification/Arch_Panic.thy ===== *)
theory Arch_Panic
  imports Lib_Log Arch_Isr
begin

text \<open>
  \<^verbatim>\<open>kernel/arch/x86_64/cpu/panic.c\<close>: the last words of the kernel. Neither
  \<^verbatim>\<open>panic\<close> nor \<^verbatim>\<open>panic_exception\<close> returns; their values here are what has
  been printed when the processor halts. Memory is read for the stack trace only.
\<close>

section \<open>Operations\<close>

definition exception_names :: "string list" where
  "exception_names =
     [''#DE Divide Error'', ''#DB Debug'', ''NMI'', ''#BP Breakpoint'', ''#OF Overflow'',
      ''#BR BOUND Range Exceeded'', ''#UD Invalid Opcode'', ''#NM Device Not Available'',
      ''#DF Double Fault'', ''Reserved (Coprocessor Segment Overrun)'', ''#TS Invalid TSS'',
      ''#NP Segment Not Present'', ''#SS Stack-Segment Fault'', ''#GP General Protection Fault'',
      ''#PF Page Fault'', ''Reserved'', ''#MF x87 FPU Floating-Point Error'', ''#AC Alignment Check'',
      ''#MC Machine Check'', ''#XM SIMD Floating-Point Exception'', ''#VE Virtualization Exception'',
      ''#CP Control Protection Exception'', ''Reserved'', ''Reserved'', ''Reserved'', ''Reserved'',
      ''Reserved'', ''Reserved'', ''#HV Hypervisor Injection Exception'',
      ''#VC VMM Communication Exception'', ''#SX Security Exception'', ''Reserved'']"

definition panic_emit :: "char \<Rightarrow> outputs \<Rightarrow> outputs option" where
  "panic_emit c s =
     map_option (\<lambda>l. let s = s\<lparr>line := l\<rparr> in
         if fb_is_available (screen s) then s\<lparr>screen := fb_console_putc c FB_RED FB_BLACK (screen s)\<rparr> else s)
       (serial_putc c (line s))"

definition panic_sink :: "char \<Rightarrow> outputs option \<Rightarrow> outputs option" where
  "panic_sink c s = Option.bind s (panic_emit c)"

text \<open>Each call prints after what is already printed.\<close>

type_synonym printed = "printf_fault + outputs option"

definition panic_printf :: "string \<Rightarrow> printf_arg list \<Rightarrow> printed \<Rightarrow> printed" where
  "panic_printf fmt args r = (case r of Inl e \<Rightarrow> Inl e | Inr s \<Rightarrow> kvprintf panic_sink fmt args s)"

function trace_from :: "mem \<Rightarrow> nat \<Rightarrow> u64 \<Rightarrow> printed \<Rightarrow> printed" where
  "trace_from m depth rbp r =
     (if depth < 16 \<and> rbp \<noteq> 0 then
        let saved_rbp = load64 m rbp;
            return_addr = load64 m (rbp + 8)
        in if return_addr = 0 then r
           else
             let r1 = panic_printf (''  #%d 0x%016lx'' @ [CHR 0x0A]) [Arg_int (of_nat depth), Arg_long return_addr] r
             in if saved_rbp \<le> rbp then r1 else trace_from m (depth + 1) saved_rbp r1
      else r)"
  by pat_completeness auto
termination by (relation "measure (\<lambda>(m, d, b, r). 16 - d)") auto

declare trace_from.simps [simp del]

definition print_stack_trace :: "mem \<Rightarrow> u64 \<Rightarrow> printed \<Rightarrow> printed" where
  "print_stack_trace m rbp r = trace_from m 0 rbp (panic_printf (''Stack trace:'' @ [CHR 0x0A]) [] r)"

definition panic_exception :: "mem \<Rightarrow> u64 \<Rightarrow> interrupt_frame \<Rightarrow> outputs \<Rightarrow> printed" where
  "panic_exception m cr2 f s =
     (let name = (if if_vector f < 32 then exception_names ! unat (if_vector f) else ''Unknown'');
          r = panic_printf (''[PANIC] %s (vector %lu, error 0x%lx)'' @ [CHR 0x0A])
                [Arg_str (Some name), Arg_long (if_vector f), Arg_long (if_error_code f)] (Inr (Some s));
          r = (if if_vector f = 14
               then panic_printf (''CR2=0x%016lx (faulting address)'' @ [CHR 0x0A]) [Arg_long cr2] r else r);
          r = panic_printf (''RIP=0x%016lx CS=0x%04lx RFLAGS=0x%016lx'' @ [CHR 0x0A])
                [Arg_long (if_rip f), Arg_long (if_cs f), Arg_long (if_rflags f)] r;
          r = panic_printf (''RAX=0x%016lx RBX=0x%016lx RCX=0x%016lx'' @ [CHR 0x0A])
                [Arg_long (if_rax f), Arg_long (if_rbx f), Arg_long (if_rcx f)] r;
          r = panic_printf (''RDX=0x%016lx RSI=0x%016lx RDI=0x%016lx'' @ [CHR 0x0A])
                [Arg_long (if_rdx f), Arg_long (if_rsi f), Arg_long (if_rdi f)] r;
          r = panic_printf (''RBP=0x%016lx R8= 0x%016lx R9= 0x%016lx'' @ [CHR 0x0A])
                [Arg_long (if_rbp f), Arg_long (if_r8 f), Arg_long (if_r9 f)] r;
          r = panic_printf (''R10=0x%016lx R11=0x%016lx R12=0x%016lx'' @ [CHR 0x0A])
                [Arg_long (if_r10 f), Arg_long (if_r11 f), Arg_long (if_r12 f)] r;
          r = panic_printf (''R13=0x%016lx R14=0x%016lx R15=0x%016lx'' @ [CHR 0x0A])
                [Arg_long (if_r13 f), Arg_long (if_r14 f), Arg_long (if_r15 f)] r
      in print_stack_trace m (if_rbp f) r)"

definition panic :: "mem \<Rightarrow> u64 \<Rightarrow> string \<Rightarrow> printf_arg list \<Rightarrow> outputs \<Rightarrow> printed" where
  "panic m rbp fmt args s =
     (let r = panic_printf ''[PANIC] '' [] (Inr (Some s));
          r = panic_printf fmt args r;
          r = panic_printf [CHR 0x0A] [] r
      in print_stack_trace m rbp r)"

section \<open>What is printed\<close>

definition panic_received :: "outputs \<Rightarrow> outputs option \<Rightarrow> string \<Rightarrow> bool" where
  "panic_received s0 so xs \<longleftrightarrow> (\<exists>s. so = Some s \<and> shown FB_RED s0 s xs)"

lemma panic_sink_received:
  assumes "panic_received s0 so xs"
  shows "panic_received s0 (panic_sink c so) (xs @ [c])"
proof -
  obtain s where s: "so = Some s" "shown FB_RED s0 s xs" using assms unfolding panic_received_def by blast
  obtain l where l: "serial_putc c (line s) = Some l" "transmitter_ready l" "sent (line s0) (crlf (xs @ [c])) l"
    using shown_step(1) [OF s(2)] by blast
  have "fb_ready (screen s) = fb_ready (screen s0)" using s(2) unfolding shown_def by blast
  moreover have "\<not> fb_ready (screen s0) \<Longrightarrow> screen s = screen s0" using s(2) by (simp add: shown_def)
  ultimately show ?thesis
    using l shown_step(2) [OF s(2), of c]
    by (auto simp: panic_received_def panic_sink_def s(1) panic_emit_def fb_is_available_def shown_def console_write_ready)
qed

interpretation pk: char_sink panic_sink "panic_received s0" for s0
  by unfold_locales (rule panic_sink_received)

definition said :: "outputs \<Rightarrow> printed \<Rightarrow> string \<Rightarrow> bool" where
  "said s0 r xs \<longleftrightarrow> (\<exists>s. r = Inr (Some s) \<and> shown FB_RED s0 s xs)"

lemma panic_printf_says:
  assumes "said s0 r xs" "render fmt args = Inr out"
  shows "said s0 (panic_printf fmt args r) (xs @ out)"
proof -
  obtain so where so: "r = Inr so" "panic_received s0 so xs"
    using assms(1) by (auto simp: said_def panic_received_def)
  show ?thesis
    using pk.kvprintf_received [OF so(2), of fmt args] assms(2) so(1)
    by (auto simp: said_def panic_printf_def panic_received_def)
qed

text \<open>The frames of the trace: frame pointer and return address, innermost first.\<close>

fun walk :: "mem \<Rightarrow> nat \<Rightarrow> u64 \<Rightarrow> (u64 \<times> u64) list" where
  "walk m 0 rbp = []"
| "walk m (Suc n) rbp =
     (if rbp = 0 \<or> load64 m (rbp + 8) = 0 then []
      else (rbp, load64 m (rbp + 8)) # (if load64 m rbp \<le> rbp then [] else walk m n (load64 m rbp)))"

lemma walk_bounded: "length (walk m n rbp) \<le> n"
  by (induction m n rbp rule: walk.induct) auto

lemma walk_increasing:
  "sorted_wrt (<) (map fst (walk m n rbp)) \<and> (\<forall>f \<in> set (map fst (walk m n rbp)). rbp \<le> f)"
  by (induction m n rbp rule: walk.induct) (auto simp: not_le intro: less_imp_le order.strict_trans2 order_trans)

definition hex16 :: "u64 \<Rightarrow> string" where "hex16 v = unsigned_text v 16 False 16 True"

lemma render_plain: "list_all (\<lambda>c. c \<noteq> CHR ''%'') fmt \<Longrightarrow> kvprintf snoc fmt args acc = Inr (acc @ fmt)"
  by (induction fmt arbitrary: acc) (simp_all add: kvprintf.simps snoc_def)

text \<open>The lines of the report.\<close>

definition three :: "string \<Rightarrow> u64 \<Rightarrow> string \<Rightarrow> u64 \<Rightarrow> string \<Rightarrow> u64 \<Rightarrow> string" where
  "three a x b y c z = a @ hex16 x @ b @ hex16 y @ c @ hex16 z @ [CHR 0x0A]"

definition trace_line :: "nat \<Rightarrow> u64 \<Rightarrow> string" where
  "trace_line d a = ''  #'' @ signed_text (scast (of_nat d :: u32)) 0 False @ '' 0x'' @ hex16 a @ [CHR 0x0A]"

primrec trace_text :: "nat \<Rightarrow> (u64 \<times> u64) list \<Rightarrow> string" where
  "trace_text d [] = []"
| "trace_text d (x # xs) = trace_line d (snd x) @ trace_text (Suc d) xs"

definition exception_name :: "u64 \<Rightarrow> string" where
  "exception_name v = (if v < 32 then exception_names ! unat v else ''Unknown'')"

definition exception_text :: "u64 \<Rightarrow> interrupt_frame \<Rightarrow> string" where
  "exception_text cr2 f =
     ''[PANIC] '' @ exception_name (if_vector f) @ '' (vector '' @ unsigned_text (if_vector f) 10 False 0 False @
     '', error 0x'' @ unsigned_text (if_error_code f) 16 False 0 False @ '')'' @ [CHR 0x0A] @
     (if if_vector f = 14 then ''CR2=0x'' @ hex16 cr2 @ '' (faulting address)'' @ [CHR 0x0A] else []) @
     ''RIP=0x'' @ hex16 (if_rip f) @ '' CS=0x'' @ unsigned_text (if_cs f) 16 False 4 True @
     '' RFLAGS=0x'' @ hex16 (if_rflags f) @ [CHR 0x0A] @
     three ''RAX=0x'' (if_rax f) '' RBX=0x'' (if_rbx f) '' RCX=0x'' (if_rcx f) @
     three ''RDX=0x'' (if_rdx f) '' RSI=0x'' (if_rsi f) '' RDI=0x'' (if_rdi f) @
     three ''RBP=0x'' (if_rbp f) '' R8= 0x'' (if_r8 f) '' R9= 0x'' (if_r9 f) @
     three ''R10=0x'' (if_r10 f) '' R11=0x'' (if_r11 f) '' R12=0x'' (if_r12 f) @
     three ''R13=0x'' (if_r13 f) '' R14=0x'' (if_r14 f) '' R15=0x'' (if_r15 f)"

lemma pad_none: "pad_left c 0 cs = cs" if "length cs < 2 ^ 31"
  using that by (simp add: pad_left_def sint_of_nat_small)

lemma render_trace_line:
  "render (''  #%d 0x%016lx'' @ [CHR 0x0A]) [Arg_int (of_nat d), Arg_long a] = Inr (trace_line d a)"
  by (simp add: rendering hex16_def trace_line_def)

lemma exception_name_length: "length (exception_name v) < 2 ^ 31"
proof -
  have "list_all (\<lambda>n. length n < 2 ^ 31) exception_names" by (simp add: exception_names_def)
  moreover have "unat v < length exception_names" if "v < 32"
    using that by (simp add: exception_names_def word_less_nat_alt)
  ultimately show ?thesis by (auto simp: exception_name_def list_all_length)
qed

lemma render_header:
  "render (''[PANIC] %s (vector %lu, error 0x%lx)'' @ [CHR 0x0A])
     [Arg_str (Some (exception_name v)), Arg_long v, Arg_long e] =
   Inr (''[PANIC] '' @ exception_name v @ '' (vector '' @ unsigned_text v 10 False 0 False @
     '', error 0x'' @ unsigned_text e 16 False 0 False @ '')'' @ [CHR 0x0A])"
  using exception_name_length [of v] by (simp add: rendering hex16_def pad_none)

lemma render_cr2:
  "render (''CR2=0x%016lx (faulting address)'' @ [CHR 0x0A]) [Arg_long a] =
   Inr (''CR2=0x'' @ hex16 a @ '' (faulting address)'' @ [CHR 0x0A])"
  by (simp add: rendering hex16_def)

lemma render_rip:
  "render (''RIP=0x%016lx CS=0x%04lx RFLAGS=0x%016lx'' @ [CHR 0x0A]) [Arg_long a, Arg_long b, Arg_long c] =
   Inr (''RIP=0x'' @ hex16 a @ '' CS=0x'' @ unsigned_text b 16 False 4 True @ '' RFLAGS=0x'' @ hex16 c @ [CHR 0x0A])"
  by (simp add: rendering hex16_def)

lemma render_regs:
  "render (''RAX=0x%016lx RBX=0x%016lx RCX=0x%016lx'' @ [CHR 0x0A]) [Arg_long a, Arg_long b, Arg_long c] =
   Inr (three ''RAX=0x'' a '' RBX=0x'' b '' RCX=0x'' c)"
  "render (''RDX=0x%016lx RSI=0x%016lx RDI=0x%016lx'' @ [CHR 0x0A]) [Arg_long a, Arg_long b, Arg_long c] =
   Inr (three ''RDX=0x'' a '' RSI=0x'' b '' RDI=0x'' c)"
  "render (''RBP=0x%016lx R8= 0x%016lx R9= 0x%016lx'' @ [CHR 0x0A]) [Arg_long a, Arg_long b, Arg_long c] =
   Inr (three ''RBP=0x'' a '' R8= 0x'' b '' R9= 0x'' c)"
  "render (''R10=0x%016lx R11=0x%016lx R12=0x%016lx'' @ [CHR 0x0A]) [Arg_long a, Arg_long b, Arg_long c] =
   Inr (three ''R10=0x'' a '' R11=0x'' b '' R12=0x'' c)"
  "render (''R13=0x%016lx R14=0x%016lx R15=0x%016lx'' @ [CHR 0x0A]) [Arg_long a, Arg_long b, Arg_long c] =
   Inr (three ''R13=0x'' a '' R14=0x'' b '' R15=0x'' c)"
  by (simp_all add: rendering hex16_def three_def)

lemma trace_says:
  assumes "said s0 r xs" "d \<le> 16"
  shows "said s0 (trace_from m d rbp r) (xs @ trace_text d (walk m (16 - d) rbp))"
  using assms
proof (induction "16 - d" arbitrary: d rbp r xs)
  case 0
  then show ?case by (subst trace_from.simps) simp
next
  case (Suc n)
  then have d: "d < 16" "16 - d = Suc (16 - Suc d)" by simp_all
  let ?a = "load64 m (rbp + 8)" and ?b = "load64 m rbp"
  have l: "said s0 (panic_printf (''  #%d 0x%016lx'' @ [CHR 0x0A]) [Arg_int (of_nat d), Arg_long ?a] r) (xs @ trace_line d ?a)"
    by (rule panic_printf_says [OF Suc.prems(1) render_trace_line])
  have "said s0 (trace_from m (Suc d) ?b (panic_printf (''  #%d 0x%016lx'' @ [CHR 0x0A]) [Arg_int (of_nat d), Arg_long ?a] r))
      ((xs @ trace_line d ?a) @ trace_text (Suc d) (walk m (16 - Suc d) ?b))"
    using d Suc.hyps(2) by (intro Suc.hyps(1) l) simp_all
  then show ?case
    using Suc.prems(1) l d(1) by (subst trace_from.simps) (auto simp: d(2) Let_def)
qed

lemma stack_trace_says:
  assumes "said s0 r xs"
  shows "said s0 (print_stack_trace m rbp r) (xs @ ''Stack trace:'' @ [CHR 0x0A] @ trace_text 0 (walk m 16 rbp))"
proof -
  have "render (''Stack trace:'' @ [CHR 0x0A]) [] = Inr (''Stack trace:'' @ [CHR 0x0A])" by (simp add: rendering hex16_def)
  from trace_says [OF panic_printf_says [OF assms this], of 0 m rbp] show ?thesis
    by (simp add: print_stack_trace_def)
qed

lemma panic_exception_says:
  assumes "transmitter_ready (line s)"
  shows "said s (panic_exception m cr2 f s)
    (exception_text cr2 f @ ''Stack trace:'' @ [CHR 0x0A] @ trace_text 0 (walk m 16 (if_rbp f)))"
proof -
  let ?cr2 = "if if_vector f = 14 then ''CR2=0x'' @ hex16 cr2 @ '' (faulting address)'' @ [CHR 0x0A] else []"
  have "said s (Inr (Some s)) []" using assms by (simp add: said_def shown_refl)
  note h = panic_printf_says [OF this render_header, of "if_vector f" "if_error_code f"]
  have c: "said s (if if_vector f = 14 then panic_printf (''CR2=0x%016lx (faulting address)'' @ [CHR 0x0A]) [Arg_long cr2] r else r)
      (xs @ ?cr2)" if "said s r xs" for r xs
    using panic_printf_says [OF that render_cr2, of cr2] that by simp
  note r = panic_printf_says [OF c [OF h] render_rip, of "if_rip f" "if_cs f" "if_rflags f"]
  note r = panic_printf_says [OF r render_regs(1), of "if_rax f" "if_rbx f" "if_rcx f"]
  note r = panic_printf_says [OF r render_regs(2), of "if_rdx f" "if_rsi f" "if_rdi f"]
  note r = panic_printf_says [OF r render_regs(3), of "if_rbp f" "if_r8 f" "if_r9 f"]
  note r = panic_printf_says [OF r render_regs(4), of "if_r10 f" "if_r11 f" "if_r12 f"]
  note r = panic_printf_says [OF r render_regs(5), of "if_r13 f" "if_r14 f" "if_r15 f"]
  show ?thesis
    using stack_trace_says [OF r, of m "if_rbp f"]
    by (simp only: panic_exception_def exception_text_def exception_name_def Let_def append_assoc append_Nil)
qed

lemma panic_says:
  assumes "transmitter_ready (line s)" and "render fmt args = Inr out"
  shows "said s (panic m rbp fmt args s) (''[PANIC] '' @ out @ [CHR 0x0A] @ ''Stack trace:'' @ [CHR 0x0A] @
    trace_text 0 (walk m 16 rbp))"
proof -
  have p: "render ''[PANIC] '' [] = Inr ''[PANIC] ''" "render [CHR 0x0A] [] = Inr [CHR 0x0A]" by (simp_all add: rendering hex16_def)
  have "said s (Inr (Some s)) []" using assms(1) by (simp add: said_def shown_refl)
  from panic_printf_says [OF panic_printf_says [OF panic_printf_says [OF this p(1)] assms(2)] p(2)]
  show ?thesis using stack_trace_says [of s _ _ m rbp] by (fastforce simp: panic_def Let_def)
qed


definition demo_frame :: interrupt_frame where
  "demo_frame = \<lparr>if_r15 = 0, if_r14 = 0, if_r13 = 0, if_r12 = 0, if_r11 = 0, if_r10 = 0, if_r9 = 0, if_r8 = 0,
     if_rbp = 0x2000, if_rdi = 0, if_rsi = 0, if_rdx = 0, if_rcx = 0, if_rbx = 0, if_rax = 0, if_vector = 13,
     if_error_code = 0, if_rip = 0xffffffff80001234, if_cs = 8, if_rflags = 0x202\<rparr>"

text \<open>Two frames of a chain; the second points back to the first.\<close>

definition demo_stack :: mem where
  "demo_stack = store64 (store64 (store64 (store64 (\<lambda>_. 0) 0x2000 0x2100) 0x2008 0x1111) 0x2100 0x2000) 0x2108 0x2222"

definition demo_outputs :: outputs where
  "demo_outputs = \<lparr>line = line demo_logger, screen = screen demo_logger\<rparr>"


end
