(* ===== verification/Drv_Keyboard.thy ===== *)
theory Drv_Keyboard
  imports Arch_Isr
begin

text \<open>
  \<^verbatim>\<open>kernel/drivers/keyboard/keyboard.c\<close>: decoding of PS/2 scan codes and the ring
  buffer between the interrupt handler and its reader. The byte that the handler reads from
  port 0x60 is an argument. The locale \<open>bounded_fifo\<close> is the contract of the buffer.
\<close>

section \<open>Scan codes\<close>

definition unshifted_table :: "char list" where
  "unshifted_table =
    [CHR 0x00, CHR 0x00] @ ''1234567890-='' @ [CHR 0x08, CHR 0x09] @ ''qwertyuiop[]'' @
    [CHR 0x0A, CHR 0x00] @ ''asdfghjkl;'' @ [CHR 0x27, CHR 0x60, CHR 0x00, CHR 0x5C] @
    ''zxcvbnm,./'' @ [CHR 0x00, CHR 0x00, CHR 0x00] @ '' ''"

definition shifted_table :: "char list" where
  "shifted_table =
    [CHR 0x00, CHR 0x00] @ ''!@#$%^&*()_+'' @ [CHR 0x08, CHR 0x09] @ ''QWERTYUIOP{}'' @
    [CHR 0x0A, CHR 0x00] @ ''ASDFGHJKL:'' @ [CHR 0x22, CHR 0x7E, CHR 0x00, CHR 0x7C] @
    ''ZXCVBNM<>?'' @ [CHR 0x00, CHR 0x00, CHR 0x00] @ '' ''"

abbreviation (input) SCANCODE_LEFT_SHIFT :: u8 where "SCANCODE_LEFT_SHIFT \<equiv> 0x2a"
abbreviation (input) SCANCODE_RIGHT_SHIFT :: u8 where "SCANCODE_RIGHT_SHIFT \<equiv> 0x36"
abbreviation (input) SCANCODE_RELEASE_BIT :: u8 where "SCANCODE_RELEASE_BIT \<equiv> 0x80"
abbreviation (input) BUFFER_SIZE :: u32 where "BUFFER_SIZE \<equiv> 256"

section \<open>State and operations\<close>

record keyboard =
  kb_buffer :: "char list"
  buffer_head :: u32
  buffer_tail :: u32
  shift_held :: bool

definition keyboard_start :: keyboard where
  "keyboard_start = \<lparr>kb_buffer = replicate 256 (CHR 0x00), buffer_head = 0, buffer_tail = 0,
     shift_held = False\<rparr>"

definition buffer_push :: "keyboard \<Rightarrow> char \<Rightarrow> keyboard" where
  "buffer_push k c =
     (let next = (buffer_head k + 1) mod BUFFER_SIZE
      in if next = buffer_tail k then k
         else k\<lparr>kb_buffer := (kb_buffer k)[unat (buffer_head k) := c], buffer_head := next\<rparr>)"

definition keyboard_isr :: "keyboard \<Rightarrow> u8 \<Rightarrow> keyboard" where
  "keyboard_isr k scancode =
     (let released = (scancode AND SCANCODE_RELEASE_BIT \<noteq> 0);
          code = scancode AND NOT SCANCODE_RELEASE_BIT
      in if code = SCANCODE_LEFT_SHIFT \<or> code = SCANCODE_RIGHT_SHIFT
         then k\<lparr>shift_held := \<not> released\<rparr>
         else if released \<or> 0x3a \<le> code then k
         else
           let c = (if shift_held k then shifted_table ! unat code else unshifted_table ! unat code)
           in if c \<noteq> CHR 0x00 then buffer_push k c else k)"

definition keyboard_init :: "handlers \<Rightarrow> handlers" where
  "keyboard_init hs = interrupt_register_handler hs 33 Keyboard_isr"

definition keyboard_read_char :: "keyboard \<Rightarrow> char \<times> keyboard" where
  "keyboard_read_char k =
     (if buffer_tail k = buffer_head k then (CHR 0x00, k)
      else (kb_buffer k ! unat (buffer_tail k),
            k\<lparr>buffer_tail := (buffer_tail k + 1) mod BUFFER_SIZE\<rparr>))"

section \<open>A bounded queue\<close>

text \<open>
  The contract the handler and its reader rely on: a full queue drops what is pushed,
  an empty one answers with a default value, and otherwise the order is kept.
\<close>

primrec pops :: "('s \<Rightarrow> 'a \<times> 's) \<Rightarrow> nat \<Rightarrow> 's \<Rightarrow> 'a list \<times> 's" where
  "pops pop 0 s = ([], s)"
| "pops pop (Suc n) s = (let (x, s1) = pop s; (xs, s2) = pops pop n s1 in (x # xs, s2))"

locale bounded_fifo =
  fixes push :: "'s \<Rightarrow> 'a \<Rightarrow> 's"
    and pop :: "'s \<Rightarrow> 'a \<times> 's"
    and contents :: "'s \<Rightarrow> 'a list"
    and inv :: "'s \<Rightarrow> bool"
    and cap :: nat
    and default :: 'a
  assumes push_inv: "inv s \<Longrightarrow> inv (push s x)"
    and push_contents: "inv s \<Longrightarrow> contents (push s x) =
      (if length (contents s) < cap then contents s @ [x] else contents s)"
    and pop_empty: "inv s \<Longrightarrow> contents s = [] \<Longrightarrow> pop s = (default, s)"
    and pop_inv: "inv s \<Longrightarrow> inv (snd (pop s))"
    and pop_contents: "inv s \<Longrightarrow> contents s = x # xs \<Longrightarrow> fst (pop s) = x \<and> contents (snd (pop s)) = xs"
begin

lemma push_all:
  "inv s \<Longrightarrow> length (contents s) \<le> cap \<Longrightarrow>
     inv (foldl push s xs) \<and> contents (foldl push s xs) = take cap (contents s @ xs)"
proof (induction xs arbitrary: s)
  case (Cons x xs)
  have "length (contents (push s x)) \<le> cap"
    using push_contents [OF Cons.prems(1), of x] Cons.prems(2) by auto
  from Cons.IH [OF push_inv [OF Cons.prems(1)] this]
  show ?case using push_contents [OF Cons.prems(1), of x] Cons.prems(2) by (auto simp: take_Cons')
qed simp

lemma pop_all:
  "inv s \<Longrightarrow> fst (pops pop n s) = take n (contents s) @ replicate (n - length (contents s)) default \<and>
     contents (snd (pops pop n s)) = drop n (contents s) \<and> inv (snd (pops pop n s))"
proof (induction n arbitrary: s)
  case (Suc n)
  obtain x s1 where p: "pop s = (x, s1)" by (cases "pop s")
  have inv1: "inv s1" using pop_inv [OF Suc.prems] p by simp
  note IH = Suc.IH [OF inv1]
  obtain ys s2 where q: "pops pop n s1 = (ys, s2)" by (cases "pops pop n s1")
  show ?case
  proof (cases "contents s")
    case Nil
    then have "x = default" "s1 = s" using pop_empty [OF Suc.prems] p by simp_all
    then show ?thesis using IH Nil p q by simp
  next
    case (Cons y cs)
    then have "x = y" "contents s1 = cs" using pop_contents [OF Suc.prems] p by force+
    then show ?thesis using IH Cons p q by simp
  qed
qed simp

end

section \<open>The ring buffer is a bounded queue\<close>

definition kb_inv :: "keyboard \<Rightarrow> bool" where
  "kb_inv k \<longleftrightarrow> length (kb_buffer k) = 256 \<and> buffer_head k < 256 \<and> buffer_tail k < 256"

definition kb_count :: "keyboard \<Rightarrow> nat" where
  "kb_count k = (unat (buffer_head k) + 256 - unat (buffer_tail k)) mod 256"

definition kb_contents :: "keyboard \<Rightarrow> char list" where
  "kb_contents k = map (\<lambda>n. kb_buffer k ! ((unat (buffer_tail k) + n) mod 256)) [0..<kb_count k]"

lemma unat_ring_next: "x < 256 \<Longrightarrow> unat ((x + 1) mod 256 :: u32) = (unat x + 1) mod 256"
proof -
  assume "x < 256"
  then have "unat x < 256" by (simp add: word_less_nat_alt)
  then have "unat (x + 1) = unat x + 1" by (simp add: unat_word_ariths)
  then show ?thesis by (simp add: unat_mod)
qed

lemma kb_indices:
  assumes "kb_inv k"
  shows "unat (buffer_head k) < 256" "unat (buffer_tail k) < 256"
    "unat (buffer_head k) = (unat (buffer_tail k) + kb_count k) mod 256" "kb_count k < 256"
  using assms by (auto simp: kb_inv_def kb_count_def word_less_nat_alt mod_if)

lemma kb_push_full:
  assumes "kb_inv k"
  shows "(buffer_head k + 1) mod BUFFER_SIZE = buffer_tail k \<longleftrightarrow> kb_count k = 255"
proof -
  have "(buffer_head k + 1) mod BUFFER_SIZE = buffer_tail k \<longleftrightarrow>
      (unat (buffer_head k) + 1) mod 256 = unat (buffer_tail k)"
    using assms unat_ring_next [of "buffer_head k"] by (simp add: kb_inv_def word_unat_eq_iff)
  then show ?thesis using kb_indices(1,2) [OF assms] by (auto simp: kb_count_def mod_if)
qed

lemma kb_push_count:
  assumes "kb_inv k" "kb_count k \<noteq> 255"
  shows "kb_count (buffer_push k c) = Suc (kb_count k)"
proof -
  have h: "unat ((buffer_head k + 1) mod 256) = (unat (buffer_head k) + 1) mod 256"
    using assms(1) by (intro unat_ring_next) (simp add: kb_inv_def)
  have "kb_count (buffer_push k c) = ((unat (buffer_head k) + 1) mod 256 + 256 - unat (buffer_tail k)) mod 256"
    using kb_push_full [OF assms(1)] assms(2) h by (simp add: buffer_push_def kb_count_def)
  also have "\<dots> = Suc (kb_count k)"
    using kb_indices(1,2) [OF assms(1)] assms(2) by (auto simp: kb_count_def mod_if split: if_splits)
  finally show ?thesis .
qed

lemma kb_push_inv:
  assumes "kb_inv k" shows "kb_inv (buffer_push k c)"
proof -
  have "(buffer_head k + 1) mod 256 < 256"
    by (simp add: word_less_nat_alt unat_mod)
  then show ?thesis using assms by (simp add: kb_inv_def buffer_push_def Let_def)
qed

lemma ring_distinct:
  assumes "n < c" "c < 256"
  shows "(t + n) mod 256 \<noteq> (t + c) mod (256 :: nat)"
proof
  assume "(t + n) mod 256 = (t + c) mod 256"
  then have "256 dvd (t + c) - (t + n)" using assms(1) by (metis mod_eq_dvd_iff_nat add_le_mono less_imp_le order_refl)
  then have "256 dvd c - n" by simp
  then show False using assms by (auto dest: dvd_imp_le)
qed

lemma kb_push_contents:
  assumes inv: "kb_inv k"
  shows "kb_contents (buffer_push k c) =
    (if length (kb_contents k) < 255 then kb_contents k @ [c] else kb_contents k)"
proof (cases "kb_count k = 255")
  case True
  then have "buffer_push k c = k" using kb_push_full [OF inv] by (simp add: buffer_push_def)
  then show ?thesis using True by (simp add: kb_contents_def)
next
  case False
  note ix = kb_indices [OF inv]
  have b: "kb_buffer (buffer_push k c) = (kb_buffer k)[unat (buffer_head k) := c]"
    "buffer_tail (buffer_push k c) = buffer_tail k"
    using kb_push_full [OF inv] False by (simp_all add: buffer_push_def Let_def)
  have "(unat (buffer_tail k) + n) mod 256 \<noteq> unat (buffer_head k)" if "n < kb_count k" for n
    unfolding ix(3) by (rule ring_distinct [OF that ix(4)])
  then have "unat (buffer_head k) \<noteq> (unat (buffer_tail k) + n) mod 256" if "n < kb_count k" for n
    using that by metis
  then have "kb_contents (buffer_push k c) = kb_contents k @ [c]"
    using ix(1,2) inv by (simp add: kb_contents_def kb_push_count [OF inv False] b kb_inv_def)
      (simp flip: ix(3))
  moreover have "length (kb_contents k) < 255" using ix(4) False by (simp add: kb_contents_def)
  ultimately show ?thesis by simp
qed

lemma kb_empty: "kb_inv k \<Longrightarrow> kb_contents k = [] \<longleftrightarrow> buffer_tail k = buffer_head k"
  using kb_indices(1,2) [of k]
  by (auto simp: kb_contents_def kb_count_def word_unat_eq_iff mod_if split: if_splits)

lemma kb_read_nonempty:
  assumes inv: "kb_inv k" and c: "kb_contents k = x # xs"
  shows "fst (keyboard_read_char k) = x \<and> kb_contents (snd (keyboard_read_char k)) = xs"
proof -
  note ix = kb_indices [OF inv]
  have ne: "buffer_tail k \<noteq> buffer_head k" using kb_empty [OF inv] c by auto
  have pos: "0 < kb_count k" using c by (cases "kb_count k") (simp_all add: kb_contents_def)
  have t: "unat ((buffer_tail k + 1) mod 256) = (unat (buffer_tail k) + 1) mod 256"
    using inv by (intro unat_ring_next) (simp add: kb_inv_def)
  let ?k = "snd (keyboard_read_char k)"
  have k': "buffer_tail ?k = (buffer_tail k + 1) mod 256" "kb_buffer ?k = kb_buffer k"
    "buffer_head ?k = buffer_head k"
    using ne by (simp_all add: keyboard_read_char_def)
  have cnt: "kb_count ?k = kb_count k - 1"
    using ix(1,2) pos unfolding kb_count_def k' t by (auto simp: mod_if split: if_splits)
  have "[0..<kb_count k] = 0 # map Suc [0..<kb_count k - 1]"
    using pos by (simp add: map_Suc_upt upt_conv_Cons)
  then have "x # xs = kb_buffer k ! unat (buffer_tail k) #
      map (\<lambda>n. kb_buffer k ! ((unat (buffer_tail k) + Suc n) mod 256)) [0..<kb_count k - 1]"
    using c ix(2) by (simp add: kb_contents_def comp_def)
  moreover have "kb_contents ?k =
      map (\<lambda>n. kb_buffer k ! ((unat (buffer_tail k) + Suc n) mod 256)) [0..<kb_count k - 1]"
    unfolding kb_contents_def cnt k' t by (simp add: mod_simps)
  ultimately show ?thesis using ne by (simp add: keyboard_read_char_def)
qed

interpretation kbd: bounded_fifo buffer_push keyboard_read_char kb_contents kb_inv 255 "CHR 0x00"
proof
  fix k :: keyboard
  assume inv: "kb_inv k"
  fix c x xs
  show "kb_inv (buffer_push k c)" by (rule kb_push_inv [OF inv])
  show "kb_contents (buffer_push k c) =
      (if length (kb_contents k) < 255 then kb_contents k @ [c] else kb_contents k)"
    by (rule kb_push_contents [OF inv])
  show "keyboard_read_char k = (CHR 0x00, k)" if "kb_contents k = []"
    using that kb_empty [OF inv] by (simp add: keyboard_read_char_def)
  have "(buffer_tail k + 1) mod 256 < 256" by (simp add: word_less_nat_alt unat_mod)
  then show "kb_inv (snd (keyboard_read_char k))"
    using inv by (simp add: keyboard_read_char_def kb_inv_def)
  show "fst (keyboard_read_char k) = x \<and> kb_contents (snd (keyboard_read_char k)) = xs"
    if "kb_contents k = x # xs"
    by (rule kb_read_nonempty [OF inv that])
qed

section \<open>Properties\<close>

lemma keyboard_start_inv: "kb_inv keyboard_start" "kb_contents keyboard_start = []"
  by (simp_all add: kb_inv_def keyboard_start_def kb_contents_def kb_count_def)

lemma kb_contents_length: "kb_inv k \<Longrightarrow> length (kb_contents k) \<le> 255"
  using kb_indices(4) [of k] by (simp add: kb_contents_def)

text \<open>
  The key buffer is a queue of 255 characters. Whatever is pushed, reads return the
  characters in the order in which they were pushed, after those already waiting; what does not
  fit is dropped from the newest end, and reads of an empty buffer return 0.
\<close>

theorem keyboard_buffer_fifo:
  assumes "kb_inv k"
  shows "fst (pops keyboard_read_char n (foldl buffer_push k cs)) =
    take n (take 255 (kb_contents k @ cs)) @
    replicate (n - length (take 255 (kb_contents k @ cs))) (CHR 0x00)"
  using kbd.push_all [OF assms kb_contents_length [OF assms], of cs]
    kbd.pop_all [of "foldl buffer_push k cs" n] by simp

theorem keyboard_buffer_fifo_witness:
  "fst (pops keyboard_read_char 3 (foldl buffer_push keyboard_start ''ok'')) = ''ok'' @ [CHR 0x00]"
  using keyboard_buffer_fifo [OF keyboard_start_inv(1), of 3 "''ok''"]
  by (simp add: keyboard_start_inv)

text \<open>The character a make code stands for, if any.\<close>

definition decoded :: "bool \<Rightarrow> u8 \<Rightarrow> char option" where
  "decoded shift scancode =
     (if scancode < 0x3a \<and> scancode \<noteq> 0x2a \<and> scancode \<noteq> 0x36 \<and>
         (if shift then shifted_table else unshifted_table) ! unat scancode \<noteq> CHR 0x00
      then Some ((if shift then shifted_table else unshifted_table) ! unat scancode) else None)"

lemma bit_release: "bit (0x80 :: u8) n \<longleftrightarrow> n = 7"
proof -
  have e: "(0x80 :: u8) = push_bit 7 1" by simp
  show ?thesis by (simp only: e bit_push_bit_iff bit_1_iff possible_bit_word) auto
qed

lemma bit7_iff: "bit (sc :: u8) 7 \<longleftrightarrow> 0x80 \<le> sc"
proof -
  have "bit sc 7 \<longleftrightarrow> bit (unat sc) 7" by (simp add: bit_unsigned_iff)
  also have "\<dots> \<longleftrightarrow> odd (unat sc div 128)" by (simp add: bit_iff_odd)
  also have "\<dots> \<longleftrightarrow> 128 \<le> unat sc"
  proof (cases "128 \<le> unat sc")
    case True
    then have "unat sc div 128 = 1" using unat_lt_8 [of sc] by (intro div_nat_eqI) simp_all
    then show ?thesis using True by simp
  qed simp
  finally show ?thesis by (simp add: word_le_nat_alt)
qed

lemma release_bit: "sc AND 0x80 \<noteq> 0 \<longleftrightarrow> 0x80 \<le> (sc :: u8)"
proof -
  have "sc AND 0x80 \<noteq> 0 \<longleftrightarrow> (\<exists>n < 8. bit (sc AND 0x80) n)"
    by (simp only: bit_eq_iff possible_bit_word bit_0_eq) auto
  also have "\<dots> \<longleftrightarrow> bit sc 7" by (simp only: bit_and_iff bit_release) auto
  finally show ?thesis by (simp add: bit7_iff)
qed

lemma without_release_bit: "sc < 0x80 \<Longrightarrow> sc AND NOT 0x80 = (sc :: u8)"
proof (rule bit_word_eqI)
  fix n assume "sc < 0x80" "n < LENGTH(8)"
  then show "bit (sc AND NOT 0x80) n = bit sc n"
    using bit7_iff [of sc] by (simp only: bit_and_iff bit_not_iff bit_release possible_bit_word) auto
qed

lemma shift_release: "0x80 \<le> sc \<Longrightarrow> (sc AND NOT 0x80 = x \<longleftrightarrow> sc = x OR 0x80)" if "x < 0x80" for sc x :: u8
proof -
  assume sc: "0x80 \<le> sc"
  have "sc = (sc AND NOT 0x80) OR 0x80"
  proof (rule bit_word_eqI)
    fix n assume "n < LENGTH(8)"
    then show "bit sc n = bit ((sc AND NOT 0x80) OR 0x80) n"
      using bit7_iff [of sc] sc
      by (simp only: bit_or_iff bit_and_iff bit_not_iff bit_release possible_bit_word) auto
  qed
  moreover have "(x OR 0x80) AND NOT 0x80 = x"
  proof (rule bit_word_eqI)
    fix n assume "n < LENGTH(8)"
    then show "bit ((x OR 0x80) AND NOT 0x80) n = bit x n"
      using bit7_iff [of x] that
      by (simp only: bit_or_iff bit_and_iff bit_not_iff bit_release possible_bit_word) auto
  qed
  ultimately show ?thesis by metis
qed

lemma keyboard_isr_state:
  assumes "kb_inv k"
  shows "kb_inv (keyboard_isr k sc) \<and>
    shift_held (keyboard_isr k sc) =
      (if sc \<in> {0x2a, 0x36} then True else if sc \<in> {0xaa, 0xb6} then False else shift_held k) \<and>
    kb_contents (keyboard_isr k sc) =
      take 255 (kb_contents k @ (case decoded (shift_held k) sc of None \<Rightarrow> [] | Some c \<Rightarrow> [c]))"
proof (cases "0x80 \<le> sc")
  case True
  then have nd: "decoded (shift_held k) sc = None"
    by (auto simp: decoded_def word_le_nat_alt word_less_nat_alt)
  have shift: "sc AND NOT 0x80 = 0x2a \<longleftrightarrow> sc = 0xaa" "sc AND NOT 0x80 = 0x36 \<longleftrightarrow> sc = 0xb6"
    using shift_release [OF _ True, of "0x2a"] shift_release [OF _ True, of "0x36"] by simp_all
  have "sc \<noteq> 0x2a" "sc \<noteq> 0x36" using True by auto
  then have "keyboard_isr k sc = (if sc \<in> {0xaa, 0xb6} then k\<lparr>shift_held := False\<rparr> else k)"
    unfolding keyboard_isr_def Let_def shift using True release_bit [of sc] by auto
  moreover have "kb_inv (k\<lparr>shift_held := False\<rparr>)" "kb_contents (k\<lparr>shift_held := False\<rparr>) = kb_contents k"
    using assms by (simp_all add: kb_inv_def kb_contents_def kb_count_def)
  ultimately show ?thesis
    using nd assms kb_contents_length [OF assms] \<open>sc \<noteq> 0x2a\<close> \<open>sc \<noteq> 0x36\<close> by simp
next
  case False
  have low: "sc AND 0x80 = 0" "sc AND NOT 0x80 = sc"
    using False release_bit [of sc] without_release_bit [of sc] by (auto simp: not_le)
  have ne: "sc \<noteq> 0xaa" "sc \<noteq> 0xb6" using False by auto
  have same: "kb_inv (k\<lparr>shift_held := True\<rparr>)" "kb_contents (k\<lparr>shift_held := True\<rparr>) = kb_contents k"
    using assms by (simp_all add: kb_inv_def kb_contents_def kb_count_def)
  have push: "keyboard_isr k sc = (if sc = 0x2a \<or> sc = 0x36 then k\<lparr>shift_held := True\<rparr>
      else case decoded (shift_held k) sc of None \<Rightarrow> k | Some c \<Rightarrow> buffer_push k c)"
    unfolding keyboard_isr_def Let_def low by (auto simp: decoded_def not_le)
  have sh: "shift_held (buffer_push k c) = shift_held k" for c
    by (simp add: buffer_push_def Let_def)
  have pc: "kb_contents (buffer_push k c) = take 255 (kb_contents k @ [c])" for c
    using kb_push_contents [OF assms, of c] kb_contents_length [OF assms] by simp
  have nd: "decoded (shift_held k) sc = None" if "sc = 0x2a \<or> sc = 0x36"
    using that by (auto simp: decoded_def)
  show ?thesis
    unfolding push using ne same sh pc kb_push_inv [OF assms] assms nd kb_contents_length [OF assms]
    by (auto split: option.splits)
qed

text \<open>
  Decoding. A shift key's make and break codes set and clear the shift state and
  nothing else; every other break code and every code outside the table is ignored; a make code
  appends the character of its table entry for the current shift state, when it has one and
  the buffer has room.
\<close>

theorem keyboard_decoding:
  assumes "kb_inv k"
  shows "kb_inv (keyboard_isr k sc) \<and>
    shift_held (keyboard_isr k sc) =
      (if sc \<in> {0x2a, 0x36} then True else if sc \<in> {0xaa, 0xb6} then False else shift_held k) \<and>
    kb_contents (keyboard_isr k sc) =
      take 255 (kb_contents k @ (case decoded (shift_held k) sc of None \<Rightarrow> [] | Some c \<Rightarrow> [c]))"
  by (rule keyboard_isr_state [OF assms])

theorem keyboard_decoding_witness:
  "kb_contents (keyboard_isr keyboard_start 0x1e) = ''a''"
  using keyboard_decoding [OF keyboard_start_inv(1), of "0x1e"] keyboard_start_inv(2)
  by (simp add: decoded_def keyboard_start_def unshifted_table_def)

text \<open>The events at the keyboard: a byte from the controller, or a read by the kernel.\<close>

datatype kb_event = Scan u8 | Read

fun kb_run :: "keyboard \<Rightarrow> kb_event list \<Rightarrow> char list \<times> keyboard" where
  "kb_run k [] = ([], k)"
| "kb_run k (Scan sc # es) = kb_run (keyboard_isr k sc) es"
| "kb_run k (Read # es) =
     (let (c, k1) = keyboard_read_char k; (cs, k2) = kb_run k1 es in (c # cs, k2))"

definition typeable :: "char \<Rightarrow> bool" where
  "typeable c \<longleftrightarrow> c \<in> set unshifted_table \<union> set shifted_table - {CHR 0x00}"

definition plain_code :: "nat \<Rightarrow> bool" where
  "plain_code n \<longleftrightarrow> n = 8 \<or> n = 9 \<or> n = 10 \<or> 32 \<le> n \<and> n \<le> 126"

lemma table_codes:
  "list_all (\<lambda>c. c = CHR 0x00 \<or> plain_code (of_char c)) unshifted_table"
  "list_all (\<lambda>c. c = CHR 0x00 \<or> plain_code (of_char c)) shifted_table"
  by code_simp+

lemma typeable_codes: "typeable c \<Longrightarrow> plain_code (of_char c)"
  using table_codes by (auto simp: typeable_def list_all_iff)

lemma decoded_typeable: "decoded sh sc = Some c \<Longrightarrow> typeable c"
proof -
  have "length unshifted_table = 58" "length shifted_table = 58"
    by (simp_all add: unshifted_table_def shifted_table_def)
  moreover assume "decoded sh sc = Some c"
  ultimately show ?thesis
    by (auto simp: decoded_def typeable_def word_less_nat_alt split: if_splits)
qed

lemma kb_run_typeable:
  assumes "kb_inv k" "\<forall>c \<in> set (kb_contents k). typeable c"
  shows "\<forall>c \<in> set (fst (kb_run k es)). c = CHR 0x00 \<or> typeable c"
  using assms
proof (induction k es rule: kb_run.induct)
  case (2 k sc es)
  have "\<forall>c \<in> set (kb_contents (keyboard_isr k sc)). typeable c"
    using keyboard_isr_state [OF 2(2), of sc] 2(3) decoded_typeable
    by (auto dest!: in_set_takeD split: option.splits)
  then show ?case using 2 keyboard_isr_state [OF 2(2), of sc] by simp
next
  case (3 k es)
  obtain c k1 where r: "keyboard_read_char k = (c, k1)" by (cases "keyboard_read_char k")
  obtain cs k2 where q: "kb_run k1 es = (cs, k2)" by (cases "kb_run k1 es")
  have inv1: "kb_inv k1" using kbd.pop_inv [OF 3(2)] r by simp
  have "(c = CHR 0x00 \<or> typeable c) \<and> (\<forall>c \<in> set (kb_contents k1). typeable c)"
  proof (cases "kb_contents k")
    case Nil
    then show ?thesis using kbd.pop_empty [OF 3(2)] r by simp
  next
    case (Cons x xs)
    then show ?thesis using kbd.pop_contents [OF 3(2) Cons] r 3(3) by force
  qed
  then show ?case using 3(1) [OF r [symmetric] refl inv1] r q by simp
qed simp



text \<open>
  The prefix byte 0xE0 leaves no trace, so an extended key is decoded as the plain key
  with the same second byte: keypad Enter types a newline, keypad slash a slash, and the fake
  shift codes some extended keys send turn the shift state on and off.
\<close>

theorem keyboard_ignores_prefix:
  "keyboard_isr k 0xe0 = k \<and>
   kb_contents (keyboard_isr (keyboard_isr keyboard_start 0xe0) 0x1c) = [CHR 0x0A] \<and>
   kb_contents (keyboard_isr (keyboard_isr keyboard_start 0xe0) 0x35) = ''/'' \<and>
   shift_held (keyboard_isr (keyboard_isr k 0xe0) 0x2a)"
proof -
  have "keyboard_isr k 0xe0 = k" for k by (simp add: keyboard_isr_def)
  then show ?thesis
    using keyboard_isr_state [OF keyboard_start_inv(1), of "0x1c"]
      keyboard_isr_state [OF keyboard_start_inv(1), of "0x35"] keyboard_start_inv(2)
    by (simp add: decoded_def keyboard_start_def unshifted_table_def keyboard_isr_def)
qed

end
