(* ===== verification/Drv_Keys.thy ===== *)
theory Drv_Keys
  imports Drv_Keyboard
begin

text \<open>
  \<^verbatim>\<open>keyboard_read_char\<close> takes no lock: the key handler may run between any two of its accesses to the
  ring buffer, and so may another thread. Here the function is a sequence of turns, one shared
  access each; the handler is one turn, because its gate clears the interrupt flag.
\<close>

section \<open>A read in turns\<close>

text \<open>
  Where a reader is: outside; with \<^verbatim>\<open>buffer_tail\<close> loaded for the comparison; past the comparison;
  with the character in hand and \<^verbatim>\<open>buffer_tail\<close> still to be advanced.
\<close>

datatype read_pc = Idle | Loaded u32 | Checked | Fetched char

fun read_turn :: "read_pc \<Rightarrow> keyboard \<Rightarrow> read_pc \<times> keyboard \<times> char option" where
  "read_turn Idle k = (Loaded (buffer_tail k), k, None)"
| "read_turn (Loaded t) k = (if t = buffer_head k then (Idle, k, Some (CHR 0x00)) else (Checked, k, None))"
| "read_turn Checked k = (Fetched (kb_buffer k ! unat (buffer_tail k)), k, None)"
| "read_turn (Fetched c) k = (Idle, k\<lparr>buffer_tail := (buffer_tail k + 1) mod BUFFER_SIZE\<rparr>, Some c)"

text \<open>
  The keyboard with its readers, and what has been seen from outside, in order: the bytes that
  arrived and the reads that returned.
\<close>

record keys =
  ks_kb :: keyboard
  ks_pc :: "nat \<Rightarrow> read_pc"
  ks_results :: "char list"
  ks_trace :: "kb_event list"

definition keys_start :: keys where
  "keys_start = \<lparr>ks_kb = keyboard_start, ks_pc = (\<lambda>_. Idle), ks_results = [], ks_trace = []\<rparr>"

datatype key_action = Key u8 | Turn nat

fun act :: "keys \<Rightarrow> key_action \<Rightarrow> keys" where
  "act s (Key sc) = s\<lparr>ks_kb := keyboard_isr (ks_kb s) sc, ks_trace := ks_trace s @ [Scan sc]\<rparr>"
| "act s (Turn r) =
     (let (pc, k, result) = read_turn (ks_pc s r) (ks_kb s);
          s = s\<lparr>ks_kb := k, ks_pc := (ks_pc s)(r := pc)\<rparr>
      in case result of None \<Rightarrow> s
         | Some c \<Rightarrow> s\<lparr>ks_results := ks_results s @ [c], ks_trace := ks_trace s @ [Read]\<rparr>)"

text \<open>Four turns that nobody interrupts, or two on an empty buffer, are the function itself.\<close>

lemma turns_alone:
  assumes "ks_pc s r = Idle"
  shows "foldl act s (replicate (if buffer_tail (ks_kb s) = buffer_head (ks_kb s) then 2 else 4) (Turn r)) =
    s\<lparr>ks_kb := snd (keyboard_read_char (ks_kb s)), ks_results := ks_results s @ [fst (keyboard_read_char (ks_kb s))],
      ks_trace := ks_trace s @ [Read]\<rparr>"
proof -
  have "(ks_pc s)(r := Idle) = ks_pc s" using assms by auto
  then show ?thesis
    using assms by (simp add: numeral_eq_Suc keyboard_read_char_def split: if_splits)
qed

section \<open>A typist and a queue\<close>

text \<open>
  The contract: the shift state, and a queue of at most 255 characters to which a make code appends its
  character and from which a read takes the oldest, 0 when there is none.
\<close>

fun typed :: "bool \<times> char list \<Rightarrow> kb_event list \<Rightarrow> char list \<times> bool \<times> char list" where
  "typed (shift, q) [] = ([], shift, q)"
| "typed (shift, q) (Scan sc # es) =
     typed (if sc \<in> {0x2a, 0x36} then True else if sc \<in> {0xaa, 0xb6} then False else shift,
       take 255 (q @ (case decoded shift sc of None \<Rightarrow> [] | Some c \<Rightarrow> [c]))) es"
| "typed (shift, q) (Read # es) =
     (let (c, q) = (case q of [] \<Rightarrow> (CHR 0x00, []) | c # q \<Rightarrow> (c, q)); (cs, rest) = typed (shift, q) es in (c # cs, rest))"

lemma read_contents:
  assumes "kb_inv k"
  shows "kb_inv (snd (keyboard_read_char k))" "shift_held (snd (keyboard_read_char k)) = shift_held k"
    "(case kb_contents k of [] \<Rightarrow> (CHR 0x00, []) | c # q \<Rightarrow> (c, q)) =
       (fst (keyboard_read_char k), kb_contents (snd (keyboard_read_char k)))"
  using kbd.pop_inv [OF assms] kbd.pop_empty [OF assms] kbd.pop_contents [OF assms]
  by (auto simp: keyboard_read_char_def split: list.splits)

lemma typed_run:
  "kb_inv k \<Longrightarrow> typed (shift_held k, kb_contents k) es =
     (fst (kb_run k es), shift_held (snd (kb_run k es)), kb_contents (snd (kb_run k es)))"
proof (induction k es rule: kb_run.induct)
  case (2 k sc es)
  then show ?case using keyboard_isr_state [OF 2(2), of sc] by simp
next
  case (3 k es)
  obtain c k1 where r: "keyboard_read_char k = (c, k1)" by (cases "keyboard_read_char k")
  show ?case using 3(1) [OF r [symmetric] refl] read_contents [OF 3(2)] by (simp add: r split: prod.split)
qed simp

lemma kb_run_append:
  "kb_run k (es @ fs) = (fst (kb_run k es) @ fst (kb_run (snd (kb_run k es)) fs), snd (kb_run (snd (kb_run k es)) fs))"
  by (induction k es rule: kb_run.induct) (simp_all split: prod.split)

section \<open>One reader, interrupted\<close>

fun reader_inv :: "read_pc \<Rightarrow> keyboard \<Rightarrow> bool" where
  "reader_inv Idle k \<longleftrightarrow> True"
| "reader_inv (Loaded t) k \<longleftrightarrow> t = buffer_tail k"
| "reader_inv Checked k \<longleftrightarrow> kb_contents k \<noteq> []"
| "reader_inv (Fetched c) k \<longleftrightarrow> (\<exists>q. kb_contents k = c # q)"

definition keys_inv :: "nat \<Rightarrow> keys \<Rightarrow> bool" where
  "keys_inv r s \<longleftrightarrow> kb_inv (ks_kb s) \<and> kb_run keyboard_start (ks_trace s) = (ks_results s, ks_kb s) \<and>
     reader_inv (ks_pc s r) (ks_kb s)"

lemma isr_keeps_tail: "buffer_tail (keyboard_isr k sc) = buffer_tail k"
  by (simp add: keyboard_isr_def buffer_push_def Let_def)

lemma reader_inv_isr:
  assumes "kb_inv k" "reader_inv pc k"
  shows "reader_inv pc (keyboard_isr k sc)"
  using assms(2) keyboard_isr_state [OF assms(1), of sc] by (cases pc) (auto simp: isr_keeps_tail)

lemma head_of_contents:
  assumes "kb_inv k" "kb_contents k \<noteq> []"
  shows "\<exists>q. kb_contents k = kb_buffer k ! unat (buffer_tail k) # q"
proof -
  obtain x xs where "kb_contents k = x # xs" using assms(2) by (cases "kb_contents k") auto
  then show ?thesis
    using kb_read_nonempty [OF assms(1)] kb_empty [OF assms(1)] by (force simp: keyboard_read_char_def)
qed

lemma reader_inv_turn:
  assumes "kb_inv k" "reader_inv pc k" "read_turn pc k = (pc', k', result)"
  shows "reader_inv pc' k' \<and> (case result of None \<Rightarrow> k' = k | Some c \<Rightarrow> keyboard_read_char k = (c, k'))"
proof (cases pc)
  case (Fetched c)
  then obtain q where "kb_contents k = c # q" using assms(2) by auto
  then show ?thesis
    using assms(3) Fetched kb_read_nonempty [OF assms(1)] kb_empty [OF assms(1)] by (auto simp: keyboard_read_char_def)
qed (use assms head_of_contents [OF assms(1)] kb_empty [OF assms(1)] in \<open>auto simp: keyboard_read_char_def split: if_splits\<close>)

lemma act_inv:
  assumes "keys_inv r s" and "\<And>r'. a = Turn r' \<Longrightarrow> r' = r"
  shows "keys_inv r (act s a)"
proof (cases a)
  case (Key sc)
  then show ?thesis
    using assms(1) keyboard_isr_state [of "ks_kb s" sc] reader_inv_isr by (auto simp: keys_inv_def kb_run_append)
next
  case (Turn r')
  then have r: "a = Turn r" using assms(2) by simp
  obtain pc k result where t: "read_turn (ks_pc s r) (ks_kb s) = (pc, k, result)" by (metis prod_cases3)
  have i: "kb_inv (ks_kb s)" "kb_run keyboard_start (ks_trace s) = (ks_results s, ks_kb s)" "reader_inv (ks_pc s r) (ks_kb s)"
    using assms(1) by (simp_all add: keys_inv_def)
  from reader_inv_turn [OF i(1,3) t] kbd.pop_inv [OF i(1)] i(1,2) show ?thesis
    by (cases result) (auto simp: r t keys_inv_def kb_run_append)
qed

lemma acts_inv:
  assumes "\<forall>r'. Turn r' \<in> set acts \<longrightarrow> r' = r"
  shows "keys_inv r (foldl act keys_start acts)"
  using assms
proof (induction acts rule: rev_induct)
  case Nil
  show ?case by (simp add: keys_inv_def keys_start_def keyboard_start_inv)
next
  case (snoc a acts)
  then show ?case by (auto intro!: act_inv)
qed

section \<open>Properties\<close>

text \<open>
  C19: one reader needs no lock. Whatever bytes arrive and wherever the key handler interrupts the accesses
  of \<^verbatim>\<open>keyboard_read_char\<close>, what its calls return, in the order in which they return, is what a queue of
  255 characters would give out, and what is in the buffer is what that queue holds: no character
  is lost while there is room, none is doubled, and none is out of order.
\<close>

theorem keyboard_reader_needs_no_lock:
  assumes "\<forall>r'. Turn r' \<in> set acts \<longrightarrow> r' = r" and "s = foldl act keys_start acts"
  shows "typed (False, []) (ks_trace s) = (ks_results s, shift_held (ks_kb s), kb_contents (ks_kb s)) \<and>
    length (kb_contents (ks_kb s)) \<le> 255"
proof -
  have "keys_inv r s" using acts_inv [OF assms(1)] assms(2) by simp
  then have s: "kb_inv (ks_kb s)" "kb_run keyboard_start (ks_trace s) = (ks_results s, ks_kb s)" by (simp_all add: keys_inv_def)
  have "shift_held keyboard_start = False" by (simp add: keyboard_start_def)
  then show ?thesis
    using typed_run [OF keyboard_start_inv(1), of "ks_trace s"] s kb_contents_length by (simp add: keyboard_start_inv(2))
qed

text \<open>The handler runs after the comparison and again before the tail is advanced.\<close>

theorem keyboard_reader_needs_no_lock_witness:
  "let s = foldl act keys_start [Key 0x1e, Turn 0, Turn 0, Key 0x30, Turn 0, Key 0x2e, Turn 0]
   in ks_results s = ''a'' \<and> kb_contents (ks_kb s) = ''bc''"
proof -
  let ?acts = "[Key 0x1e, Turn 0, Turn 0, Key 0x30, Turn 0, Key 0x2e, Turn 0]"
  have "ks_trace (foldl act keys_start ?acts) = [Scan 0x1e, Scan 0x30, Scan 0x2e, Read]" by code_simp
  moreover have "typed (False, []) [Scan 0x1e, Scan 0x30, Scan 0x2e, Read] = (''a'', False, ''bc'')" by code_simp
  moreover have "\<forall>r'. Turn r' \<in> set ?acts \<longrightarrow> r' = 0" by simp
  note keyboard_reader_needs_no_lock [OF this refl]
  ultimately show ?thesis unfolding Let_def by simp
qed

text \<open>
  Two readers do need one. A thread preempted between its load of the character and its store of the tail
  returns the character another thread has read meanwhile, and its store drops one that nobody has.
\<close>

lemma two_readers_lose_a_key:
  "let s = foldl act keys_start ([Key 0x1e, Key 0x30] @ replicate 3 (Turn 0) @ replicate 4 (Turn 1) @ [Turn 0])
   in ks_results s = ''aa'' \<and> kb_contents (ks_kb s) = [] \<and> fst (typed (False, []) (ks_trace s)) = ''ab''"
  by code_simp

end
