(* ===== verification/Lib_Bitmap.thy ===== *)
theory Lib_Bitmap
  imports Quin_Prelude
begin

text \<open>
  \<^verbatim>\<open>kernel/lib/bitmap.c\<close>: a bit array over caller-owned bytes. The storage is the
  byte-addressed memory and the pointer to its first byte, so that the frame allocator
  can keep its bitmap inside the memory it manages. The locale \<open>bit_array\<close> is the
  contract of the three bit operations (what a test returns after a set or a clear); the
  counting lemmas the frame allocator needs are proved once inside it.
\<close>

section \<open>The operations\<close>

definition bit_mask :: "u64 \<Rightarrow> u32" where
  "bit_mask b = push_bit (unat (b mod 8)) 1"

definition bitmap_set :: "mem \<Rightarrow> u64 \<Rightarrow> u64 \<Rightarrow> mem" where
  "bitmap_set m bitmap b =
     m(bitmap + b div 8 := m (bitmap + b div 8) OR ucast (bit_mask b))"

definition bitmap_clear :: "mem \<Rightarrow> u64 \<Rightarrow> u64 \<Rightarrow> mem" where
  "bitmap_clear m bitmap b =
     m(bitmap + b div 8 := m (bitmap + b div 8) AND ucast (NOT (bit_mask b)))"

definition bitmap_test :: "mem \<Rightarrow> u64 \<Rightarrow> u64 \<Rightarrow> bool" where
  "bitmap_test m bitmap b \<longleftrightarrow> m (bitmap + b div 8) AND ucast (bit_mask b) \<noteq> 0"

text \<open>The scanning loop: \<open>offset\<close> counts up to \<open>bit_count\<close>, so it stops.\<close>

function bitmap_scan :: "mem \<Rightarrow> u64 \<Rightarrow> u64 \<Rightarrow> u64 \<Rightarrow> u64 \<Rightarrow> u64" where
  "bitmap_scan m bitmap bit_count start offset =
     (if offset < bit_count then
        let b = (start + offset) mod bit_count in
        if \<not> bitmap_test m bitmap b then b
        else bitmap_scan m bitmap bit_count start (offset + 1)
      else bit_count)"
  by pat_completeness auto
termination
proof (relation "measure (\<lambda>(m, b, n, s, off). unat n - unat off)", goal_cases)
  case 1
  show ?case by simp
next
  case (2 m bitmap n start off b)
  then have "unat (off + 1) = unat off + 1"
    by (simp add: unat_plus_one_64)
  with 2 show ?case by (simp add: word_less_nat_alt)
qed

declare bitmap_scan.simps [simp del]

definition bitmap_find_first_clear :: "mem \<Rightarrow> u64 \<Rightarrow> u64 \<Rightarrow> u64 \<Rightarrow> u64" where
  "bitmap_find_first_clear m bitmap bit_count start_hint =
     (if bit_count = 0 then 0
      else bitmap_scan m bitmap bit_count (start_hint mod bit_count) 0)"

section \<open>Bits as single bits\<close>

lemma unat_mod8_less: "unat (b mod 8 :: u64) < 8"
  by (simp add: unat_mod_64)

lemma bit_bit_mask: "bit (bit_mask b) n \<longleftrightarrow> n = unat (b mod 8)"
  using unat_mod8_less [of b] by (auto simp: bit_mask_def bit_simps)

lemma bitmap_test_iff: "bitmap_test m bm i \<longleftrightarrow> bit (m (bm + i div 8)) (unat (i mod 8))"
proof -
  have "bitmap_test m bm i \<longleftrightarrow> (\<exists>n. bit (m (bm + i div 8) AND ucast (bit_mask i)) n)"
    unfolding bitmap_test_def by (metis bit_0_eq bit_eqI bot_apply bot_bool_def)
  then show ?thesis
    using unat_mod8_less [of i] by (auto simp add: bit_and_iff bit_ucast_iff bit_bit_mask)
qed

lemma div8_mod8_eq: "(i :: u64) div 8 = j div 8 \<Longrightarrow> unat (i mod 8) = unat (j mod 8) \<Longrightarrow> i = j"
  by (metis word_unat_eq_iff div_mult_mod_eq)

lemma bitmap_test_set: "bitmap_test (bitmap_set m bm j) bm i \<longleftrightarrow> i = j \<or> bitmap_test m bm i"
  using unat_mod8_less [of i]
  by (auto simp: bitmap_test_iff bitmap_set_def bit_simps bit_bit_mask dest: div8_mod8_eq)

lemma bitmap_test_clear:
  "bitmap_test (bitmap_clear m bm j) bm i \<longleftrightarrow> i \<noteq> j \<and> bitmap_test m bm i"
  using unat_mod8_less [of i]
  by (auto simp: bitmap_test_iff bitmap_clear_def bit_simps bit_bit_mask dest: div8_mod8_eq)

text \<open>Both writers touch only the byte that holds the bit.\<close>

lemma bitmap_set_frame [mem_simps]:
  "x \<noteq> bm + j div 8 \<Longrightarrow> bitmap_set m bm j x = m x"
  by (simp add: bitmap_set_def)

lemma bitmap_clear_frame [mem_simps]:
  "x \<noteq> bm + j div 8 \<Longrightarrow> bitmap_clear m bm j x = m x"
  by (simp add: bitmap_clear_def)

lemma bitmap_test_cong:
  "m (bm + i div 8) = m' (bm + i div 8) \<Longrightarrow> bitmap_test m bm i = bitmap_test m' bm i"
  by (simp add: bitmap_test_def)

section \<open>The contract of a bit array\<close>

text \<open>How many of the bits below \<open>n\<close> are clear.\<close>

definition count_clear :: "(u64 \<Rightarrow> bool) \<Rightarrow> nat \<Rightarrow> nat" where
  "count_clear t n = length (filter (\<lambda>i. \<not> t (of_nat i)) [0..<n])"

lemma count_clear_card: "count_clear t n = card {i. i < n \<and> \<not> t (of_nat i)}"
proof -
  have "count_clear t n = card (set (filter (\<lambda>i. \<not> t (of_nat i)) [0..<n]))"
    unfolding count_clear_def by (rule distinct_card [symmetric]) simp
  then show ?thesis by (simp add: conj_commute)
qed

lemma count_clear_le: "count_clear t n \<le> n"
  using length_filter_le [of _ "[0..<n]"] by (simp add: count_clear_def)

lemma count_clear_insert:
  assumes "n \<le> 2 ^ 64" and "unat j < n" and "\<not> t j"
  shows "count_clear t n = Suc (count_clear (\<lambda>i. i = j \<or> t i) n)"
proof -
  let ?A = "{i. i < n \<and> \<not> t (of_nat i)}"
  have "{i. i < n \<and> \<not> (of_nat i = j \<or> t (of_nat i))} = ?A - {unat j}"
    using assms(1) by (auto simp: unat_of_nat)
  moreover have "unat j \<in> ?A" using assms by simp
  ultimately show ?thesis
    by (simp only: count_clear_card) (simp add: card_Suc_Diff1 del: card_Diff_insert card_Diff_singleton)
qed

lemma count_clear_all: "(\<And>i. i < n \<Longrightarrow> t (of_nat i)) \<Longrightarrow> count_clear t n = 0"
  by (simp add: count_clear_def filter_empty_conv)

locale bit_array =
  fixes set_bit :: "'s \<Rightarrow> u64 \<Rightarrow> 's"
    and clear_bit :: "'s \<Rightarrow> u64 \<Rightarrow> 's"
    and test :: "'s \<Rightarrow> u64 \<Rightarrow> bool"
  assumes test_set: "test (set_bit s j) i \<longleftrightarrow> i = j \<or> test s i"
    and test_clear: "test (clear_bit s j) i \<longleftrightarrow> i \<noteq> j \<and> test s i"
begin

lemma set_clear_test: "test (clear_bit (set_bit s j) j) i \<longleftrightarrow> i \<noteq> j \<and> test s i"
  by (auto simp: test_set test_clear)

lemma test_set_fun: "test (set_bit s j) = (\<lambda>i. i = j \<or> test s i)"
  by (simp add: fun_eq_iff test_set)

lemma count_set:
  assumes "n \<le> 2 ^ 64" and "unat j < n" and "\<not> test s j"
  shows "count_clear (test s) n = Suc (count_clear (test (set_bit s j)) n)"
  using count_clear_insert [of n j "test s"] assms by (simp add: test_set_fun)

lemma count_clear_bit:
  assumes "n \<le> 2 ^ 64" and "unat j < n" and "test s j"
  shows "count_clear (test (clear_bit s j)) n = Suc (count_clear (test s) n)"
proof -
  have "(\<lambda>i. i = j \<or> test (clear_bit s j) i) = test s"
    using assms(3) by (auto simp: fun_eq_iff test_clear)
  then show ?thesis
    using count_clear_insert [of n j "test (clear_bit s j)"] assms by (simp add: test_clear)
qed

end

interpretation bm: bit_array
  "\<lambda>m. bitmap_set m base" "\<lambda>m. bitmap_clear m base" "\<lambda>m. bitmap_test m base" for base
  by unfold_locales (rule bitmap_test_set bitmap_test_clear)+

section \<open>The search\<close>

lemma word_mod_less: "n \<noteq> 0 \<Longrightarrow> x mod n < (n :: u64)"
  by (simp add: word_less_nat_alt unat_mod_64 unat_gt_0)

lemma bitmap_scan_result:
  "bitmap_scan m bm n s off = n \<or>
   (bitmap_scan m bm n s off < n \<and> \<not> bitmap_test m bm (bitmap_scan m bm n s off))"
proof (induction m bm n s off rule: bitmap_scan.induct)
  case (1 m bm n s off)
  show ?case
  proof (cases "off < n")
    case True
    then have "(s + off) mod n < n" by (intro word_mod_less) auto
    with True 1 show ?thesis
      by (auto simp: bitmap_scan.simps [of m bm n s off] Let_def)
  next
    case False
    then show ?thesis by (simp add: bitmap_scan.simps)
  qed
qed

lemma find_first_clear_result:
  assumes "bitmap_find_first_clear m bm n hint \<noteq> n"
  shows "bitmap_find_first_clear m bm n hint < n \<and>
    \<not> bitmap_test m bm (bitmap_find_first_clear m bm n hint)"
  using assms bitmap_scan_result [of m bm n "hint mod n" 0]
  by (auto simp: bitmap_find_first_clear_def split: if_splits)

text \<open>The loop as a linear search through the visited positions.\<close>

definition first_or :: "'a \<Rightarrow> ('a \<Rightarrow> bool) \<Rightarrow> 'a list \<Rightarrow> 'a" where
  "first_or d P xs = (case List.find P xs of None \<Rightarrow> d | Some x \<Rightarrow> x)"

lemma first_or_simps [simp]:
  "first_or d P [] = d"
  "first_or d P (x # xs) = (if P x then x else first_or d P xs)"
  by (simp_all add: first_or_def)

lemma bitmap_scan_find:
  "bitmap_scan m bm n s off =
     first_or n (\<lambda>b. \<not> bitmap_test m bm b)
       (map (\<lambda>k. (s + of_nat k) mod n) [unat off..<unat n])"
proof (induction m bm n s off rule: bitmap_scan.induct)
  case (1 m bm n s off)
  show ?case
  proof (cases "off < n")
    case True
    then have "[unat off..<unat n] = unat off # [unat (off + 1)..<unat n]"
      by (simp add: unat_plus_one_64 word_less_nat_alt upt_conv_Cons)
    with True 1 show ?thesis
      by (simp add: bitmap_scan.simps [of m bm n s off] Let_def)
  next
    case False
    then show ?thesis
      by (simp add: bitmap_scan.simps word_less_nat_alt)
  qed
qed

lemma cyclic_positions:
  fixes n s :: u64
  assumes "unat n \<le> 2 ^ 63" and "unat s < unat n"
  shows "map (\<lambda>k. (s + of_nat k) mod n) [0..<unat n] =
         map of_nat ([unat s..<unat n] @ [0..<unat s])"
proof (rule nth_equalityI)
  fix i assume "i < length (map (\<lambda>k. (s + of_nat k) mod n) [0..<unat n])"
  then have i: "i < unat n" by simp
  have "unat (s + of_nat i) = unat s + i"
    using assms i by (intro unat_add_of_nat_64) simp
  then have "unat ((s + of_nat i) mod n) =
      (if unat s + i < unat n then unat s + i else unat s + i - unat n)"
    using assms i by (simp add: unat_mod_64 mod_if)
  then have *: "(s + of_nat i) mod n =
      of_nat (if unat s + i < unat n then unat s + i else unat s + i - unat n)"
    by (simp only: word_of_nat_eqI_unat)
  show "map (\<lambda>k. (s + of_nat k) mod n) [0..<unat n] ! i =
      map of_nat ([unat s..<unat n] @ [0..<unat s]) ! i"
  proof (cases "unat s + i < unat n")
    case True
    then have "i < unat n - unat s" by simp
    with True i show ?thesis by (simp add: * nth_append del: of_nat_add)
  next
    case False
    then have "\<not> i < unat n - unat s" and "i - (unat n - unat s) = unat s + i - unat n"
      using assms(2) by simp_all
    with False i show ?thesis by (simp add: * nth_append del: of_nat_add of_nat_diff)
  qed
qed (use assms in simp)

lemma first_or_in:
  "\<exists>x \<in> set xs. P x \<Longrightarrow> first_or d P xs \<in> set xs \<and> P (first_or d P xs)"
  by (induction xs) auto

lemma first_or_none: "\<forall>x \<in> set xs. \<not> P x \<Longrightarrow> first_or d P xs = d"
  by (induction xs) auto

lemma find_first_clear_first_or:
  assumes "0 < bit_count" and "unat bit_count \<le> 2 ^ 63"
  shows "bitmap_find_first_clear m bm bit_count hint =
    first_or bit_count (\<lambda>b. \<not> bitmap_test m bm b)
      (map of_nat ([unat (hint mod bit_count)..<unat bit_count] @
                   [0..<unat (hint mod bit_count)]))"
proof -
  have "bit_count \<noteq> 0" using assms(1) by auto
  moreover from this have "unat (hint mod bit_count) < unat bit_count"
    using word_mod_less [of bit_count hint] by (simp add: word_less_nat_alt)
  ultimately show ?thesis
    using assms(2) by (simp add: bitmap_find_first_clear_def bitmap_scan_find
        cyclic_positions)
qed

text \<open>The search comes back empty-handed exactly when every bit is set.\<close>

lemma find_first_clear_full:
  assumes "unat n \<le> 2 ^ 63"
  shows "bitmap_find_first_clear m bm n hint = n \<longleftrightarrow> (\<forall>b < n. bitmap_test m bm b)"
proof (cases "n = 0")
  case True
  then show ?thesis by (simp add: bitmap_find_first_clear_def)
next
  case False
  let ?s = "unat (hint mod n)"
  let ?xs = "map of_nat ([?s..<unat n] @ [0..<?s]) :: u64 list"
  have s: "?s < unat n"
    using False word_mod_less [of n hint] by (simp add: word_less_nat_alt)
  have xs: "set ?xs = {b. b < n}"
  proof -
    have "set ?xs = (of_nat :: nat \<Rightarrow> u64) ` {0..<unat n}"
      using s by (simp add: image_Un [symmetric] ivl_disj_un_two(3) Un_commute)
    also have "\<dots> = {b. b < n}"
    proof (intro set_eqI iffI)
      fix b :: u64
      assume "b \<in> of_nat ` {0..<unat n}"
      then show "b \<in> {b. b < n}"
        using unat_lt_64 [of n] by (auto simp: word_less_nat_alt unat_of_nat_64)
    next
      fix b :: u64
      assume "b \<in> {b. b < n}"
      then show "b \<in> of_nat ` {0..<unat n}"
        by (intro image_eqI [of _ _ "unat b"]) (simp_all add: word_less_nat_alt)
    qed
    finally show ?thesis .
  qed
  have eq: "bitmap_find_first_clear m bm n hint = first_or n (\<lambda>b. \<not> bitmap_test m bm b) ?xs"
    using False assms by (intro find_first_clear_first_or) (simp_all add: word_gt_0)
  show ?thesis
  proof (cases "\<forall>b < n. bitmap_test m bm b")
    case True
    then have "first_or n (\<lambda>b. \<not> bitmap_test m bm b) ?xs = n"
      unfolding xs [symmetric] by (intro first_or_none) (use xs in blast)
    with True eq show ?thesis by simp
  next
    case False
    then have "first_or n (\<lambda>b. \<not> bitmap_test m bm b) ?xs \<in> set ?xs"
      using xs first_or_in [of ?xs "\<lambda>b. \<not> bitmap_test m bm b" n] by blast
    with False eq show ?thesis unfolding xs by auto
  qed
qed

text \<open>
  For at least one and at most \<open>2 ^ 63\<close> bits the search returns the first clear bit
  met when scanning from \<open>start_hint mod bit_count\<close> up to the end and then from bit 0
  up to the start, that is, wrapping at most once, and \<open>bit_count\<close> when every bit is
  set.
\<close>

theorem find_first_clear_cyclic:
  assumes "0 < bit_count" and "unat bit_count \<le> 2 ^ 63"
  shows "bitmap_find_first_clear m bm bit_count start_hint =
    first_or bit_count (\<lambda>b. \<not> bitmap_test m bm b)
      (map of_nat ([unat (start_hint mod bit_count)..<unat bit_count] @
                   [0..<unat (start_hint mod bit_count)]))"
  using assms by (rule find_first_clear_first_or)

theorem find_first_clear_cyclic_witness:
  "bitmap_find_first_clear ((\<lambda>_. 0xff)(101 := 0xef)) 100 16 13 = 12"
proof -
  let ?m = "(\<lambda>_. 0xff)(101 := 0xef) :: mem"
  have "bitmap_find_first_clear ?m 100 16 13 =
    first_or 16 (\<lambda>b. \<not> bitmap_test ?m 100 b) (map of_nat ([13..<16] @ [0..<13]))"
    using find_first_clear_cyclic [of 16 ?m 100 13] by simp
  also have "\<dots> = 12"
    by (simp add: upt_rec bitmap_test_def bit_mask_def)
  finally show ?thesis .
qed

end
