(* ===== verification/Mm_Pmm.thy ===== *)
theory Mm_Pmm
  imports Boot_Info Lib_Bitmap Lib_String
begin

text \<open>
  \<^verbatim>\<open>kernel/mm/pmm.c\<close>: the physical frame allocator. Its bitmap lives in the memory
  it manages, reached through the higher-half direct map: memory is addressed by virtual
  address, and physical address \<open>p\<close> is at \<open>p + hhdm_offset\<close>. The locale
  \<open>frame_allocator\<close> is the contract the page-table code relies on.
\<close>

section \<open>State and operations\<close>

abbreviation (input) PAGE_SIZE :: u64 where "PAGE_SIZE \<equiv> 4096"

record pmm =
  pmm_mem :: mem
  pmm_bitmap :: u64
  pmm_frame_count :: u64
  pmm_next_search_index :: u64
  pmm_hhdm_offset :: u64
  pmm_free_frames :: u64

definition pmm_phys_to_virt :: "pmm \<Rightarrow> u64 \<Rightarrow> u64" where
  "pmm_phys_to_virt p phys = phys + pmm_hhdm_offset p"

definition counts_as_ram :: "boot_memmap_entry \<Rightarrow> bool" where
  "counts_as_ram e \<longleftrightarrow> \<not> (entry_type e \<noteq> BOOT_MEMMAP_USABLE \<and>
     entry_type e \<noteq> BOOT_MEMMAP_BOOTLOADER_RECLAIMABLE \<and>
     entry_type e \<noteq> BOOT_MEMMAP_EXECUTABLE_AND_MODULES)"

primrec highest_addr_loop :: "boot_memmap_entry list \<Rightarrow> u64 \<Rightarrow> u64" where
  "highest_addr_loop [] highest = highest"
| "highest_addr_loop (e # es) highest =
     (if \<not> counts_as_ram e then highest_addr_loop es highest
      else let end = entry_base e + entry_length e in
           highest_addr_loop es (if end > highest then end else highest))"

primrec find_bitmap_region :: "boot_memmap_entry list \<Rightarrow> u64 \<Rightarrow> u64" where
  "find_bitmap_region [] bytes = 0"
| "find_bitmap_region (e # es) bytes =
     (if entry_type e = BOOT_MEMMAP_USABLE \<and> entry_length e \<ge> bytes then entry_base e
      else find_bitmap_region es bytes)"

function clear_frames :: "u64 \<Rightarrow> u64 \<Rightarrow> u64 \<Rightarrow> mem \<times> u64 \<Rightarrow> mem \<times> u64" where
  "clear_frames bm frame end (m, free) =
     (if frame < end then clear_frames bm (frame + 1) end (bitmap_clear m bm frame, free + 1)
      else (m, free))"
  by pat_completeness auto
termination
  by (relation "measure (\<lambda>(bm, f, e, _). unat e - unat f)")
    (auto simp: unat_plus_one_64 word_less_nat_alt)

primrec mark_usable :: "u64 \<Rightarrow> boot_memmap_entry list \<Rightarrow> mem \<times> u64 \<Rightarrow> mem \<times> u64" where
  "mark_usable bm [] mf = mf"
| "mark_usable bm (e # es) mf =
     (if entry_type e \<noteq> BOOT_MEMMAP_USABLE then mark_usable bm es mf
      else mark_usable bm es
        (clear_frames bm (entry_base e div PAGE_SIZE)
           ((entry_base e + entry_length e) div PAGE_SIZE) mf))"

definition claim_frame :: "u64 \<Rightarrow> u64 \<Rightarrow> mem \<times> u64 \<Rightarrow> mem \<times> u64" where
  "claim_frame bm frame mf =
     (if \<not> bitmap_test (fst mf) bm frame
      then (bitmap_set (fst mf) bm frame, snd mf - 1) else mf)"

function claim_frames :: "u64 \<Rightarrow> u64 \<Rightarrow> u64 \<Rightarrow> mem \<times> u64 \<Rightarrow> mem \<times> u64" where
  "claim_frames bm frame end mf =
     (if frame < end then claim_frames bm (frame + 1) end (claim_frame bm frame mf) else mf)"
  by pat_completeness auto
termination
  by (relation "measure (\<lambda>(bm, f, e, _). unat e - unat f)")
    (auto simp: unat_plus_one_64 word_less_nat_alt)

declare clear_frames.simps [simp del] claim_frames.simps [simp del]

definition pmm_init :: "limine_responses \<Rightarrow> pmm \<Rightarrow> pmm kresult" where
  "pmm_init lim p =
     (case boot_get_hhdm_offset lim of Inl e \<Rightarrow> Inl e | Inr hhdm \<Rightarrow>
      (case boot_get_memmap lim of
         None \<Rightarrow> Inl (Panic ''pmm: bootloader did not answer the memory map request'' [])
       | Some memmap \<Rightarrow>
         (let frame_count = highest_addr_loop memmap 0 div PAGE_SIZE;
              bitmap_bytes = align_up frame_count 8 div 8;
              bitmap_phys = find_bitmap_region memmap bitmap_bytes
          in if bitmap_phys = 0
             then Inl (Panic ''pmm: no usable region large enough for the frame bitmap (%lu bytes)''
                    [bitmap_bytes])
             else
               let bm = bitmap_phys + hhdm;
                   m1 = memset (pmm_mem p) bm 0xff bitmap_bytes;
                   mf2 = mark_usable bm memmap (m1, pmm_free_frames p);
                   bitmap_start_frame = bitmap_phys div PAGE_SIZE;
                   bitmap_end_frame = bitmap_start_frame + align_up bitmap_bytes PAGE_SIZE div PAGE_SIZE;
                   mf3 = claim_frames bm bitmap_start_frame bitmap_end_frame mf2;
                   mf4 = claim_frame bm 0 mf3
               in Inr (p\<lparr>pmm_mem := fst mf4, pmm_bitmap := bm, pmm_frame_count := frame_count,
                     pmm_hhdm_offset := hhdm, pmm_free_frames := snd mf4\<rparr>))))"

definition pmm_alloc_frame :: "pmm \<Rightarrow> u64 \<times> pmm" where
  "pmm_alloc_frame p =
     (let frame = bitmap_find_first_clear (pmm_mem p) (pmm_bitmap p) (pmm_frame_count p)
                    (pmm_next_search_index p)
      in if frame = pmm_frame_count p then (0, p)
         else
           let m1 = bitmap_set (pmm_mem p) (pmm_bitmap p) frame;
               phys = frame * PAGE_SIZE;
               m2 = memset m1 (pmm_phys_to_virt p phys) 0 PAGE_SIZE
           in (phys, p\<lparr>pmm_mem := m2, pmm_free_frames := pmm_free_frames p - 1,
                 pmm_next_search_index := frame + 1\<rparr>))"

definition pmm_free_frame :: "pmm \<Rightarrow> u64 \<Rightarrow> pmm kresult" where
  "pmm_free_frame p phys_addr =
     (let frame = phys_addr div PAGE_SIZE
      in if frame \<ge> pmm_frame_count p \<or> \<not> bitmap_test (pmm_mem p) (pmm_bitmap p) frame
         then Inl (Panic ''pmm_free_frame: double free or invalid address 0x%lx'' [phys_addr])
         else Inr (p\<lparr>pmm_mem := bitmap_clear (pmm_mem p) (pmm_bitmap p) frame,
                pmm_free_frames := pmm_free_frames p + 1\<rparr>))"

definition pmm_free_frame_count :: "pmm \<Rightarrow> u64" where
  "pmm_free_frame_count p = pmm_free_frames p"

definition pmm_total_frame_count :: "pmm \<Rightarrow> u64" where
  "pmm_total_frame_count p = pmm_frame_count p"

section \<open>Frames and addresses\<close>

lemma unat_frame_addr: "unat (f :: u64) < 2 ^ 52 \<Longrightarrow> unat (f * PAGE_SIZE) = unat f * 4096"
  by (simp add: unat_mult_64)

lemma frame_addr_div: "unat (f :: u64) < 2 ^ 52 \<Longrightarrow> f * PAGE_SIZE div PAGE_SIZE = f"
  by (rule word64_eqI) (simp add: unat_div_64 unat_frame_addr)

lemma frame_addr_inj:
  "unat f < 2 ^ 52 \<Longrightarrow> unat g < 2 ^ 52 \<Longrightarrow> f * PAGE_SIZE = g * PAGE_SIZE \<Longrightarrow> f = (g :: u64)"
  by (metis frame_addr_div)

lemma unat_numeral_4096: "unat (4096 :: u64) = 4096"
  by simp

lemma page_aligned_unat: "(x :: u64) mod 4096 = 0 \<Longrightarrow> unat x = 4096 * (unat x div 4096)"
  by (metis mult.commute add.right_neutral div_mult_mod_eq unat_0 unat_mod_64 unat_numeral_4096)

text \<open>An address lies in the frame that its quotient by the page size names.\<close>

lemma in_frame_iff:
  fixes f y :: u64
  assumes "unat f < 2 ^ 52"
  shows "y - f * PAGE_SIZE < PAGE_SIZE \<longleftrightarrow> y div PAGE_SIZE = f"
proof
  assume "y - f * PAGE_SIZE < PAGE_SIZE"
  then have r: "unat (y - f * PAGE_SIZE) < 4096" by (simp add: word_less_nat_alt)
  have "unat y = unat (f * PAGE_SIZE + (y - f * PAGE_SIZE))" by simp
  also have "\<dots> = unat f * 4096 + unat (y - f * PAGE_SIZE)"
    using r assms by (subst unat_add_64) (simp_all add: unat_frame_addr)
  finally have "unat y div 4096 = unat f" using r by simp
  then show "y div PAGE_SIZE = f" by (intro word64_eqI) (simp add: unat_div_64)
next
  assume "y div PAGE_SIZE = f"
  then have u: "unat y div 4096 = unat f" by (auto simp: unat_div_64)
  have "f * PAGE_SIZE \<le> y"
    unfolding word_le_nat_alt unat_frame_addr [OF assms] by (simp flip: u)
  then have "unat (y - f * PAGE_SIZE) = unat y - unat f * 4096"
    by (simp add: unat_sub_64 unat_frame_addr [OF assms])
  also have "\<dots> < 4096" by (simp flip: u add: minus_div_mult_eq_mod)
  finally show "y - f * PAGE_SIZE < PAGE_SIZE" by (simp add: word_less_nat_alt)
qed

section \<open>The invariant\<close>

abbreviation pmm_used :: "pmm \<Rightarrow> u64 \<Rightarrow> bool" where
  "pmm_used p \<equiv> bitmap_test (pmm_mem p) (pmm_bitmap p)"

definition bitmap_byte_count :: "u64 \<Rightarrow> u64" where
  "bitmap_byte_count frames = align_up frames 8 div 8"

text \<open>The frame that holds byte \<open>i\<close> of the bitmap.\<close>

definition bitmap_home :: "pmm \<Rightarrow> u64 \<Rightarrow> u64" where
  "bitmap_home p i = (pmm_bitmap p + i - pmm_hhdm_offset p) div PAGE_SIZE"

text \<open>
  The frame numbers fit the 52-bit physical addresses of x86-64, frame 0 is in use, the
  free counter is the number of clear bits, and no byte of the bitmap lies in a free frame.
\<close>

definition pmm_inv :: "pmm \<Rightarrow> bool" where
  "pmm_inv p \<longleftrightarrow>
     unat (pmm_frame_count p) \<le> 2 ^ 40 \<and>
     (0 < pmm_frame_count p \<longrightarrow> pmm_used p 0) \<and>
     pmm_free_frames p = of_nat (count_clear (pmm_used p) (unat (pmm_frame_count p))) \<and>
     (\<forall>f i. f < pmm_frame_count p \<and> \<not> pmm_used p f \<and> i < bitmap_byte_count (pmm_frame_count p)
        \<longrightarrow> bitmap_home p i \<noteq> f)"

text \<open>The physical addresses of the free frames.\<close>

definition pmm_avail :: "pmm \<Rightarrow> u64 set" where
  "pmm_avail p = (\<lambda>f. f * PAGE_SIZE) ` {f. f < pmm_frame_count p \<and> \<not> pmm_used p f}"

lemma unat_bitmap_byte_count:
  "unat n \<le> 2 ^ 40 \<Longrightarrow> unat (bitmap_byte_count n) = (unat n + 7) div 8"
  using unat_align_up_pow2 [of 3 n] by (simp add: bitmap_byte_count_def unat_div_64)

lemma bit_byte_in_bitmap:
  assumes "unat n \<le> 2 ^ 40" and "g < n"
  shows "g div 8 < bitmap_byte_count n"
  using assms unfolding word_less_nat_alt
  by (simp add: unat_bitmap_byte_count unat_div_64)

section \<open>Allocation and release\<close>

lemma pmm_avail_empty_iff:
  assumes "pmm_inv p"
  shows "pmm_avail p = {} \<longleftrightarrow>
    bitmap_find_first_clear (pmm_mem p) (pmm_bitmap p) (pmm_frame_count p)
      (pmm_next_search_index p) = pmm_frame_count p"
proof -
  have "unat (pmm_frame_count p) \<le> 2 ^ 63" using assms by (simp add: pmm_inv_def)
  then show ?thesis
    by (auto simp: find_first_clear_full pmm_avail_def)
qed

lemma pmm_frame_bound: "pmm_inv p \<Longrightarrow> f < pmm_frame_count p \<Longrightarrow> unat f < 2 ^ 52"
  by (simp add: pmm_inv_def word_less_nat_alt)

lemma pmm_avail_mem_iff:
  assumes "pmm_inv p" and "f < pmm_frame_count p"
  shows "f * PAGE_SIZE \<in> pmm_avail p \<longleftrightarrow> \<not> pmm_used p f"
  using assms by (auto simp: pmm_avail_def dest: frame_addr_inj [OF pmm_frame_bound pmm_frame_bound])

lemma pmm_avail_nonzero:
  assumes "pmm_inv p" shows "0 \<notin> pmm_avail p"
proof
  assume "0 \<in> pmm_avail p"
  then obtain f where f: "f < pmm_frame_count p" "\<not> pmm_used p f" "f * PAGE_SIZE = 0"
    by (auto simp: pmm_avail_def)
  then have "f = 0" using frame_addr_div [OF pmm_frame_bound [OF assms f(1)]] by simp
  with f assms show False by (auto simp: pmm_inv_def word_gt_0)
qed

text \<open>Zeroing a free frame never touches the bitmap.\<close>

lemma zeroing_keeps_bitmap:
  assumes "pmm_inv p" and "f < pmm_frame_count p" and "\<not> pmm_used p f"
    and "g < pmm_frame_count p"
  shows "bitmap_test (memset m (pmm_phys_to_virt p (f * PAGE_SIZE)) v PAGE_SIZE) (pmm_bitmap p) g
       = bitmap_test m (pmm_bitmap p) g"
proof (rule bitmap_test_cong)
  let ?x = "pmm_bitmap p + g div 8"
  have "g div 8 < bitmap_byte_count (pmm_frame_count p)"
    using assms by (intro bit_byte_in_bitmap) (simp_all add: pmm_inv_def)
  then have "bitmap_home p (g div 8) \<noteq> f"
    using assms by (simp add: pmm_inv_def)
  then have "\<not> ?x - pmm_hhdm_offset p - f * PAGE_SIZE < PAGE_SIZE"
    using pmm_frame_bound [OF assms(1,2)] by (simp only: in_frame_iff) (simp add: bitmap_home_def)
  then show "memset m (pmm_phys_to_virt p (f * PAGE_SIZE)) v PAGE_SIZE ?x = m ?x"
    by (simp add: memset_apply pmm_phys_to_virt_def algebra_simps)
qed

lemma count_clear_cong:
  assumes "\<And>g. unat g < n \<Longrightarrow> t g = t' g" and "n \<le> 2 ^ 64"
  shows "count_clear t n = count_clear t' n"
  unfolding count_clear_def using assms
  by (intro arg_cong [where f = length] filter_cong) (simp_all add: unat_of_nat_64)

lemma count_clear_le_word: "n \<le> 2 ^ 40 \<Longrightarrow> count_clear t n < 2 ^ 64"
  using count_clear_le [of t n] by simp

text \<open>Everything a successful allocation does, for the frame \<open>f\<close> it picked.\<close>

definition alloc_post :: "pmm \<Rightarrow> u64 \<Rightarrow> u64 \<Rightarrow> pmm \<Rightarrow> bool" where
  "alloc_post p f phys p' \<longleftrightarrow>
     f < pmm_frame_count p \<and> \<not> pmm_used p f \<and> phys = f * PAGE_SIZE \<and>
     pmm_bitmap p' = pmm_bitmap p \<and> pmm_frame_count p' = pmm_frame_count p \<and>
     pmm_hhdm_offset p' = pmm_hhdm_offset p \<and>
     pmm_free_frames p' = pmm_free_frames p - 1 \<and>
     (\<forall>g. g < pmm_frame_count p \<longrightarrow> pmm_used p' g = (g = f \<or> pmm_used p g)) \<and>
     (\<forall>x. pmm_mem p' x =
        (if x - (phys + pmm_hhdm_offset p) < PAGE_SIZE then 0
         else bitmap_set (pmm_mem p) (pmm_bitmap p) f x))"

lemma pmm_alloc_frame_post:
  assumes "pmm_inv p" and "pmm_avail p \<noteq> {}" and "pmm_alloc_frame p = (phys, p')"
  obtains f where "alloc_post p f phys p'"
proof -
  define f where "f = bitmap_find_first_clear (pmm_mem p) (pmm_bitmap p) (pmm_frame_count p)
             (pmm_next_search_index p)"
  have ne: "f \<noteq> pmm_frame_count p"
    using assms(2) pmm_avail_empty_iff [OF assms(1)] by (simp add: f_def)
  then have f: "f < pmm_frame_count p" "\<not> pmm_used p f"
    unfolding f_def by (blast dest: find_first_clear_result)+
  have p': "phys = f * PAGE_SIZE"
    "p' = p\<lparr>pmm_mem := memset (bitmap_set (pmm_mem p) (pmm_bitmap p) f)
                 (pmm_phys_to_virt p (f * PAGE_SIZE)) 0 PAGE_SIZE,
            pmm_free_frames := pmm_free_frames p - 1, pmm_next_search_index := f + 1\<rparr>"
    using assms(3) ne unfolding pmm_alloc_frame_def Let_def f_def [symmetric] by auto
  have "alloc_post p f phys p'"
    unfolding alloc_post_def p' using f zeroing_keeps_bitmap [OF assms(1) f]
    by (simp add: bitmap_test_set memset_apply pmm_phys_to_virt_def)
  then show thesis by (rule that)
qed

lemma alloc_post_used:
  "alloc_post p f phys p' \<Longrightarrow> g < pmm_frame_count p \<Longrightarrow> pmm_used p' g = (g = f \<or> pmm_used p g)"
  unfolding alloc_post_def by blast

lemma alloc_post_inv:
  assumes inv: "pmm_inv p" and post: "alloc_post p f phys p'"
  shows "pmm_inv p'"
proof -
  let ?n = "unat (pmm_frame_count p)"
  have n: "?n \<le> 2 ^ 40" using inv by (simp add: pmm_inv_def)
  have f: "unat f < ?n" "\<not> pmm_used p f"
    using post by (simp_all add: alloc_post_def word_less_nat_alt)
  have "count_clear (pmm_used p') ?n = count_clear (\<lambda>g. g = f \<or> pmm_used p g) ?n"
    using alloc_post_used [OF post] n
    by (intro count_clear_cong) (simp_all add: word_less_nat_alt)
  then have "count_clear (pmm_used p) ?n = Suc (count_clear (pmm_used p') ?n)"
    using count_clear_insert [of ?n f "pmm_used p"] n f by simp
  then have "pmm_free_frames p' = of_nat (count_clear (pmm_used p') ?n)"
    using inv post by (simp add: pmm_inv_def alloc_post_def)
  moreover have "bitmap_home p' i \<noteq> g"
    if "g < pmm_frame_count p" "\<not> pmm_used p' g" "i < bitmap_byte_count (pmm_frame_count p)" for g i
    using inv post that alloc_post_used [OF post that(1)]
    by (simp add: pmm_inv_def alloc_post_def bitmap_home_def)
  moreover have "pmm_used p' 0" if "0 < pmm_frame_count p"
    using inv that alloc_post_used [OF post that] by (simp add: pmm_inv_def)
  moreover have "pmm_frame_count p' = pmm_frame_count p"
    using post by (simp add: alloc_post_def)
  ultimately show ?thesis
    using n unfolding pmm_inv_def by simp
qed

lemma alloc_post_avail:
  assumes inv: "pmm_inv p" and post: "alloc_post p f phys p'"
  shows "pmm_avail p' = pmm_avail p - {phys}" and "phys \<in> pmm_avail p"
proof -
  have f: "f < pmm_frame_count p" and phys: "phys = f * PAGE_SIZE"
    using post by (simp_all add: alloc_post_def)
  have "g * PAGE_SIZE \<noteq> f * PAGE_SIZE" if "g < pmm_frame_count p" "g \<noteq> f" for g
    using that f frame_addr_inj [OF pmm_frame_bound [OF inv] pmm_frame_bound [OF inv]] by blast
  then show "pmm_avail p' = pmm_avail p - {phys}"
    using post unfolding pmm_avail_def alloc_post_def by auto
  show "phys \<in> pmm_avail p"
    using post by (auto simp: pmm_avail_def alloc_post_def)
qed

text \<open>Releasing a frame that is in use.\<close>

lemma pmm_free_frame_ok:
  assumes inv: "pmm_inv p" and ok: "pmm_free_frame p phys = Inr p'"
    and home: "\<And>i. i < bitmap_byte_count (pmm_frame_count p) \<Longrightarrow> bitmap_home p i \<noteq> phys div PAGE_SIZE"
    and nz: "phys div PAGE_SIZE \<noteq> 0"
  shows "pmm_inv p'" and "pmm_avail p' = insert (phys div PAGE_SIZE * PAGE_SIZE) (pmm_avail p)"
proof -
  let ?f = "phys div PAGE_SIZE" and ?n = "unat (pmm_frame_count p)"
  have f: "?f < pmm_frame_count p" "pmm_used p ?f" and
    p': "p' = p\<lparr>pmm_mem := bitmap_clear (pmm_mem p) (pmm_bitmap p) ?f,
                pmm_free_frames := pmm_free_frames p + 1\<rparr>"
    using ok by (auto simp: pmm_free_frame_def Let_def not_le split: if_splits)
  have n: "?n \<le> 2 ^ 40" using inv by (simp add: pmm_inv_def)
  have "count_clear (pmm_used p') ?n = Suc (count_clear (pmm_used p) ?n)"
    using bm.count_clear_bit [of ?n ?f "pmm_mem p" "pmm_bitmap p"] f n
    by (simp add: p' word_less_nat_alt)
  then show "pmm_inv p'"
    using inv home nz unfolding pmm_inv_def p' bitmap_home_def
    by (auto simp: bitmap_test_clear)
  show "pmm_avail p' = insert (?f * PAGE_SIZE) (pmm_avail p)"
    using f by (auto simp: p' pmm_avail_def bitmap_test_clear)
qed

section \<open>Initialisation\<close>

text \<open>
  What the boot protocol promises of the memory map: usable entries are page-aligned in
  base and length and do not overlap, and RAM lies below the 52-bit physical address limit.
\<close>

definition entry_usable :: "boot_memmap_entry \<Rightarrow> bool" where
  "entry_usable e \<longleftrightarrow> entry_type e = BOOT_MEMMAP_USABLE"

definition entry_end :: "boot_memmap_entry \<Rightarrow> nat" where
  "entry_end e = unat (entry_base e) + unat (entry_length e)"

definition entries_disjoint :: "boot_memmap_entry \<Rightarrow> boot_memmap_entry \<Rightarrow> bool" where
  "entries_disjoint a b \<longleftrightarrow> entry_usable a \<longrightarrow> entry_usable b \<longrightarrow>
     entry_end a \<le> unat (entry_base b) \<or> entry_end b \<le> unat (entry_base a)"

definition memmap_ok :: "boot_memmap_entry list \<Rightarrow> bool" where
  "memmap_ok es \<longleftrightarrow>
     (\<forall>e \<in> set es. counts_as_ram e \<longrightarrow> entry_end e \<le> 2 ^ 52) \<and>
     (\<forall>e \<in> set es. entry_usable e \<longrightarrow> entry_base e mod 4096 = 0 \<and> entry_length e mod 4096 = 0) \<and>
     sorted_wrt entries_disjoint es"

definition in_entry :: "u64 \<Rightarrow> boot_memmap_entry \<Rightarrow> bool" where
  "in_entry f e \<longleftrightarrow> entry_base e div PAGE_SIZE \<le> f \<and> f < (entry_base e + entry_length e) div PAGE_SIZE"

text \<open>The counter agrees with the bitmap.\<close>

definition counted :: "u64 \<Rightarrow> nat \<Rightarrow> mem \<times> u64 \<Rightarrow> bool" where
  "counted bm n mf \<longleftrightarrow> snd mf = of_nat (count_clear (bitmap_test (fst mf) bm) n)"

lemma clear_frames_test:
  "bitmap_test (fst (clear_frames bm a b mf)) bm i \<longleftrightarrow>
     bitmap_test (fst mf) bm i \<and> \<not> (a \<le> i \<and> i < b)"
proof (induction bm a b mf rule: clear_frames.induct)
  case (1 bm a b m free)
  have "a \<le> i \<longleftrightarrow> i = a \<or> a + 1 \<le> i" if "a < b"
    using that by (auto simp: word_le_nat_alt word_less_nat_alt unat_plus_one_64 word_unat_eq_iff)
  with 1 show ?case
    by (subst clear_frames.simps) (auto simp: bitmap_test_clear)
qed

lemma clear_frames_counted:
  assumes "n \<le> 2 ^ 64" and "unat b \<le> n" and "\<And>i. a \<le> i \<Longrightarrow> i < b \<Longrightarrow> bitmap_test (fst mf) bm i"
    and "counted bm n mf"
  shows "counted bm n (clear_frames bm a b mf)"
  using assms
proof (induction bm a b mf rule: clear_frames.induct)
  case (1 bm a b m free)
  show ?case
  proof (cases "a < b")
    case True
    have suc: "unat (a + 1) = unat a + 1" using True by (simp add: unat_plus_one_64)
    have an: "unat a < n" using True 1(3) by (simp add: word_less_nat_alt)
    have "counted bm n (bitmap_clear m bm a, free + 1)"
      using bm.count_clear_bit [of n a m bm] True 1(2,4,5) an
      by (simp add: counted_def)
    moreover have "bitmap_test (fst (bitmap_clear m bm a, free + 1)) bm i"
      if "a + 1 \<le> i" "i < b" for i
    proof -
      have "a \<le> i" "i \<noteq> a"
        using that(1) suc by (auto simp: word_le_nat_alt)
      then show ?thesis using 1(4) [of i] that by (simp add: bitmap_test_clear)
    qed
    ultimately show ?thesis
      using True 1(1,2,3) by (subst clear_frames.simps) simp
  next
    case False
    with 1 show ?thesis by (simp add: clear_frames.simps)
  qed
qed

text \<open>A byte that holds none of the bits written stays as it is.\<close>

lemma clear_frames_outside:
  "(\<And>f. a \<le> f \<Longrightarrow> f < b \<Longrightarrow> x \<noteq> bm + f div 8) \<Longrightarrow> fst (clear_frames bm a b mf) x = fst mf x"
proof (induction bm a b mf rule: clear_frames.induct)
  case (1 bm a b m free)
  have "a \<le> f" if "a < b" "a + 1 \<le> f" for f
    using that by (simp add: word_le_nat_alt word_less_nat_alt unat_plus_one_64)
  then show ?case
    using 1 by (subst clear_frames.simps) (simp add: bitmap_clear_frame)
qed

lemma mark_usable_outside:
  "(\<And>e f. e \<in> set es \<Longrightarrow> entry_usable e \<Longrightarrow> in_entry f e \<Longrightarrow> x \<noteq> bm + f div 8) \<Longrightarrow>
     fst (mark_usable bm es mf) x = fst mf x"
proof (induction es arbitrary: mf)
  case (Cons e es)
  have IH: "fst (mark_usable bm es mf1) x = fst mf1 x" for mf1
    by (rule Cons.IH) (use Cons.prems in auto)
  have "fst (clear_frames bm (entry_base e div PAGE_SIZE) ((entry_base e + entry_length e) div PAGE_SIZE) mf) x = fst mf x"
    if "entry_usable e"
    by (rule clear_frames_outside) (use that Cons.prems [of e] in \<open>auto simp: in_entry_def\<close>)
  then show ?case by (simp add: IH entry_usable_def)
qed simp

lemma mark_usable_test:
  "bitmap_test (fst (mark_usable bm es mf)) bm i \<longleftrightarrow>
     bitmap_test (fst mf) bm i \<and> \<not> (\<exists>e \<in> set es. entry_usable e \<and> in_entry i e)"
  by (induction es arbitrary: mf)
    (auto simp: clear_frames_test entry_usable_def in_entry_def)

lemma entry_end_word:
  assumes "entry_end e \<le> 2 ^ 52"
  shows "unat (entry_base e + entry_length e) = entry_end e"
  using assms by (simp add: entry_end_def unat_add_64)

lemma in_entry_nat:
  assumes "entry_end e \<le> 2 ^ 52"
  shows "in_entry f e \<longleftrightarrow> unat (entry_base e) div 4096 \<le> unat f \<and> unat f < entry_end e div 4096"
  using entry_end_word [OF assms]
  by (simp add: in_entry_def word_le_nat_alt word_less_nat_alt unat_div_64)

lemma disjoint_frames:
  assumes "entries_disjoint a b" "entry_usable a" "entry_usable b"
    "entry_end a \<le> 2 ^ 52" "entry_end b \<le> 2 ^ 52"
  shows "\<not> (in_entry f a \<and> in_entry f b)"
proof
  assume "in_entry f a \<and> in_entry f b"
  then have "unat (entry_base a) div 4096 < entry_end b div 4096"
    and "unat (entry_base b) div 4096 < entry_end a div 4096"
    using assms(4,5) by (auto simp: in_entry_nat)
  moreover have "entry_end a div 4096 \<le> unat (entry_base b) div 4096 \<or>
      entry_end b div 4096 \<le> unat (entry_base a) div 4096"
    using assms(1-3) unfolding entries_disjoint_def by (metis div_le_mono)
  ultimately show False by linarith
qed

lemma mark_usable_counted:
  assumes "n \<le> 2 ^ 64" and "sorted_wrt entries_disjoint es"
    and "\<And>e. e \<in> set es \<Longrightarrow> entry_usable e \<Longrightarrow> entry_end e \<le> 2 ^ 52 \<and> entry_end e div 4096 \<le> n"
    and "\<And>e i. e \<in> set es \<Longrightarrow> entry_usable e \<Longrightarrow> in_entry i e \<Longrightarrow> bitmap_test (fst mf) bm i"
    and "counted bm n mf"
  shows "counted bm n (mark_usable bm es mf)"
  using assms
proof (induction es arbitrary: mf)
  case Nil
  then show ?case by simp
next
  case (Cons e es)
  show ?case
  proof (cases "entry_usable e")
    case False
    have "counted bm n (mark_usable bm es mf)"
      by (rule Cons.IH) (use Cons.prems in auto)
    with False show ?thesis by (simp add: entry_usable_def)
  next
    case True
    let ?mf = "clear_frames bm (entry_base e div PAGE_SIZE)
        ((entry_base e + entry_length e) div PAGE_SIZE) mf"
    have e: "entry_end e \<le> 2 ^ 52" "entry_end e div 4096 \<le> n"
      using Cons.prems(3) [of e] True by auto
    have "counted bm n ?mf"
      using Cons.prems(1,5) Cons.prems(4) [of e] True e
      by (intro clear_frames_counted) (auto simp: in_entry_def unat_div_64 entry_end_word)
    moreover have "bitmap_test (fst ?mf) bm i"
      if "e' \<in> set es" "entry_usable e'" "in_entry i e'" for e' i
      using that True e(1) Cons.prems(2) Cons.prems(3) [of e'] Cons.prems(4) [of e' i]
        disjoint_frames [of e e' i]
      by (simp add: clear_frames_test in_entry_def)
    ultimately have "counted bm n (mark_usable bm es ?mf)"
      using Cons.prems(1,2,3) by (intro Cons.IH) auto
    with True show ?thesis by (simp add: entry_usable_def)
  qed
qed

lemma claim_frame_test:
  "bitmap_test (fst (claim_frame bm f mf)) bm i \<longleftrightarrow> i = f \<or> bitmap_test (fst mf) bm i"
  by (auto simp: claim_frame_def bitmap_test_set)

lemma claim_frame_counted:
  assumes "n \<le> 2 ^ 64" and "unat f < n" and "counted bm n mf"
  shows "counted bm n (claim_frame bm f mf)"
  using bm.count_set [of n f "fst mf" bm] assms by (auto simp: claim_frame_def counted_def)

lemma claim_frames_test:
  "bitmap_test (fst (claim_frames bm a b mf)) bm i \<longleftrightarrow>
     (a \<le> i \<and> i < b) \<or> bitmap_test (fst mf) bm i"
proof (induction bm a b mf rule: claim_frames.induct)
  case (1 bm a b mf)
  have "a \<le> i \<longleftrightarrow> i = a \<or> a + 1 \<le> i" if "a < b"
    using that by (auto simp: word_le_nat_alt word_less_nat_alt unat_plus_one_64 word_unat_eq_iff)
  with 1 show ?case
    by (subst claim_frames.simps) (auto simp: claim_frame_test)
qed

lemma claim_frame_outside: "x \<noteq> bm + f div 8 \<Longrightarrow> fst (claim_frame bm f mf) x = fst mf x"
  by (simp add: claim_frame_def bitmap_set_frame)

lemma claim_frames_outside:
  "(\<And>f. f < b \<Longrightarrow> x \<noteq> bm + f div 8) \<Longrightarrow> fst (claim_frames bm a b mf) x = fst mf x"
proof (induction bm a b mf rule: claim_frames.induct)
  case (1 bm a b mf)
  then show ?case by (subst claim_frames.simps) (simp add: claim_frame_outside)
qed

lemma claim_frames_counted:
  assumes "n \<le> 2 ^ 64" and "unat b \<le> n" and "counted bm n mf"
  shows "counted bm n (claim_frames bm a b mf)"
  using assms
proof (induction bm a b mf rule: claim_frames.induct)
  case (1 bm a b mf)
  show ?case
  proof (cases "a < b")
    case True
    then have "unat a < n" using 1(3) by (simp add: word_less_nat_alt)
    with 1 True show ?thesis by (subst claim_frames.simps) (simp add: claim_frame_counted)
  next
    case False
    with 1 show ?thesis by (simp add: claim_frames.simps)
  qed
qed

lemma highest_addr_ge: "h \<le> highest_addr_loop es h"
  by (induction es arbitrary: h) (auto simp: Let_def intro: order_trans less_imp_le)

lemma highest_addr_upper:
  "e \<in> set es \<Longrightarrow> counts_as_ram e \<Longrightarrow> entry_base e + entry_length e \<le> highest_addr_loop es h"
proof (induction es arbitrary: h)
  case (Cons a es)
  then show ?case
    using highest_addr_ge [of _ es] by (auto simp: Let_def not_less intro: order_trans)
qed simp

lemma highest_addr_bound:
  assumes "\<And>e. e \<in> set es \<Longrightarrow> counts_as_ram e \<Longrightarrow> entry_end e \<le> 2 ^ 52" and "unat h \<le> 2 ^ 52"
  shows "unat (highest_addr_loop es h) \<le> 2 ^ 52"
  using assms by (induction es arbitrary: h) (auto simp: Let_def entry_end_word)

lemma find_bitmap_region_sound:
  "find_bitmap_region es bytes \<noteq> 0 \<Longrightarrow>
     \<exists>e \<in> set es. entry_usable e \<and> bytes \<le> entry_length e \<and> find_bitmap_region es bytes = entry_base e"
  by (induction es) (auto simp: entry_usable_def)

lemma usable_counts: "entry_usable e \<Longrightarrow> counts_as_ram e"
  by (simp add: entry_usable_def counts_as_ram_def)

text \<open>The bitmap's home frames, for a bitmap that starts on a page boundary.\<close>

lemma unat_bitmap_end_frame:
  assumes "unat phys \<le> 2 ^ 52" and "unat B \<le> 2 ^ 40"
  shows "unat (phys div PAGE_SIZE + align_up B PAGE_SIZE div PAGE_SIZE) =
    unat phys div 4096 + (unat B + 4095) div 4096"
proof -
  have "unat (align_up B PAGE_SIZE) = (unat B + 4095) div 4096 * 4096"
    using unat_align_up_pow2 [of 12 B] assms(2) by simp
  then have "unat (align_up B PAGE_SIZE div PAGE_SIZE) = (unat B + 4095) div 4096"
    by (simp add: unat_div_64)
  moreover have "unat (phys div PAGE_SIZE) \<le> 2 ^ 40"
    using assms(1) by (simp add: unat_div_64)
  ultimately show ?thesis
    using assms by (subst unat_add_64) (simp_all add: unat_div_64)
qed

lemma bitmap_home_range:
  assumes "unat phys \<le> 2 ^ 52" and "phys mod 4096 = 0" and "unat B \<le> 2 ^ 40"
  shows "(\<exists>j < B. (phys + j) div PAGE_SIZE = f) \<longleftrightarrow>
    phys div PAGE_SIZE \<le> f \<and> f < phys div PAGE_SIZE + align_up B PAGE_SIZE div PAGE_SIZE"
    (is "?L \<longleftrightarrow> ?R")
proof -
  define s where "s = unat phys div 4096"
  have s: "unat phys = 4096 * s"
    using page_aligned_unat [OF assms(2)] by (simp add: s_def)
  have home: "unat ((phys + j) div PAGE_SIZE) = s + unat j div 4096" if "j < B" for j
    using that assms(1,3) by (simp add: unat_div_64 unat_add_64 word_less_nat_alt s)
  have R: "?R \<longleftrightarrow> s \<le> unat f \<and> unat f < s + (unat B + 4095) div 4096"
    using unat_bitmap_end_frame [OF assms(1,3)]
    by (simp add: word_le_nat_alt word_less_nat_alt unat_div_64 s_def)
  show ?thesis
  proof
    assume ?L
    then obtain j where "j < B" "(phys + j) div PAGE_SIZE = f" by blast
    then have "unat f = s + unat j div 4096" and "unat j < unat B"
      using home by (auto simp: word_less_nat_alt)
    then show ?R unfolding R by simp
  next
    assume ?R
    then have f: "s \<le> unat f" "unat f - s < (unat B + 4095) div 4096" unfolding R by auto
    define j where "j = (of_nat ((unat f - s) * 4096) :: u64)"
    have "(unat f - s) * 4096 < unat B" using f(2) by linarith
    then have uj: "unat j = (unat f - s) * 4096" and "j < B"
      using unat_lt_64 [of B] by (simp_all add: j_def unat_of_nat_64 word_less_nat_alt del: of_nat_mult)
    then have "unat ((phys + j) div PAGE_SIZE) = unat f" using home f(1) by simp
    then show ?L using \<open>j < B\<close> word64_eqI by blast
  qed
qed

lemma memset_bitmap_full:
  assumes "unat n \<le> 2 ^ 40" and "i < n"
  shows "bitmap_test (memset m bm 0xff (bitmap_byte_count n)) bm i"
proof -
  have "bit (255 :: u8) k" if "k < 8" for k
    using less8_cases [OF that] by (elim disjE) simp_all
  then show ?thesis
    using bit_byte_in_bitmap [OF assms] unat_mod8_less [of i]
    by (simp add: bitmap_test_iff memset_apply)
qed

lemma memmap_region_in_ram:
  assumes ok: "memmap_ok es" and nz: "find_bitmap_region es B \<noteq> 0"
  defines "n \<equiv> highest_addr_loop es 0 div PAGE_SIZE"
  assumes B: "unat B \<le> 2 ^ 40"
  shows "find_bitmap_region es B mod 4096 = 0" and "unat (find_bitmap_region es B) \<le> 2 ^ 52"
    and "unat (find_bitmap_region es B) div 4096 + (unat B + 4095) div 4096 \<le> unat n"
    and "0 < n"
proof -
  obtain e where e: "e \<in> set es" "entry_usable e" "B \<le> entry_length e"
    "find_bitmap_region es B = entry_base e"
    using find_bitmap_region_sound [OF nz] by blast
  have al: "entry_base e mod 4096 = 0" "entry_length e mod 4096 = 0" "entry_end e \<le> 2 ^ 52"
    using ok e by (auto simp: memmap_ok_def usable_counts)
  obtain s where s: "unat (entry_base e) = 4096 * s" using page_aligned_unat [OF al(1)] by blast
  obtain l where l: "unat (entry_length e) = 4096 * l" using page_aligned_unat [OF al(2)] by blast
  have "entry_end e \<le> unat (highest_addr_loop es 0)"
    using highest_addr_upper [OF e(1) usable_counts [OF e(2)], of 0] entry_end_word [OF al(3)]
    by (simp add: word_le_nat_alt)
  then have n: "s + l \<le> unat n"
    by (simp add: n_def unat_div_64 entry_end_def s l)
  have "unat B \<le> 4096 * l" using e(3) l by (simp add: word_le_nat_alt)
  then have "(unat B + 4095) div 4096 \<le> l" by linarith
  then show "unat (find_bitmap_region es B) div 4096 + (unat B + 4095) div 4096 \<le> unat n"
    using n by (simp add: e(4) s)
  show "find_bitmap_region es B mod 4096 = 0" by (simp add: e(4) al)
  show "unat (find_bitmap_region es B) \<le> 2 ^ 52" using al(3) by (simp add: e(4) entry_end_def)
  have "0 < s" using nz s unfolding e(4) by (metis mult_0_right neq0_conv unat_eq_zero)
  then show "0 < n" using n by (simp add: word_less_nat_alt)
qed

lemma bitmap_in_entry:
  assumes "memmap_ok es" and "find_bitmap_region es B \<noteq> 0" and "i < B"
  shows "\<exists>e \<in> set es. entry_usable e \<and> in_entry ((find_bitmap_region es B + i) div PAGE_SIZE) e"
proof -
  obtain e where e: "e \<in> set es" "entry_usable e" "B \<le> entry_length e" "find_bitmap_region es B = entry_base e"
    using find_bitmap_region_sound [OF assms(2)] by blast
  have al: "entry_base e mod 4096 = 0" "entry_length e mod 4096 = 0" "entry_end e \<le> 2 ^ 52"
    using assms(1) e by (auto simp: memmap_ok_def usable_counts)
  obtain s where s: "unat (entry_base e) = 4096 * s" using page_aligned_unat [OF al(1)] by blast
  obtain l where l: "unat (entry_length e) = 4096 * l" using page_aligned_unat [OF al(2)] by blast
  have i: "unat i < 4096 * l" using assms(3) e(3) l by (simp add: word_less_nat_alt word_le_nat_alt)
  have "unat (entry_base e + i) = 4096 * s + unat i" "unat (entry_base e + entry_length e) = 4096 * (s + l)"
    using al(3) i by (simp_all add: unat_add_64 entry_end_def s l)
  then have "in_entry ((entry_base e + i) div PAGE_SIZE) e"
    using i by (simp add: in_entry_def word_le_nat_alt word_less_nat_alt unat_div_64 s)
  then show ?thesis using e by auto
qed

text \<open>What a successful \<^verbatim>\<open>pmm_init\<close> did, and that its frame numbers are in range.\<close>

lemma pmm_init_steps:
  assumes ok: "memmap_ok es" and mm: "boot_get_memmap lim = Some es"
    and init: "pmm_init lim p0 = Inr p" and zero: "pmm_free_frames p0 = 0"
  obtains phys fe where "phys mod 4096 = 0" "unat phys \<le> 2 ^ 52"
    "boot_get_hhdm_offset lim = Inr (pmm_hhdm_offset p)" "pmm_bitmap p = phys + pmm_hhdm_offset p"
    "0 < pmm_frame_count p" "unat (pmm_frame_count p) \<le> 2 ^ 40" "unat fe \<le> unat (pmm_frame_count p)"
    "fe = phys div PAGE_SIZE + align_up (bitmap_byte_count (pmm_frame_count p)) PAGE_SIZE div PAGE_SIZE"
    "(pmm_mem p, pmm_free_frames p) = claim_frame (pmm_bitmap p) 0 (claim_frames (pmm_bitmap p) (phys div PAGE_SIZE) fe
       (mark_usable (pmm_bitmap p) es
         (memset (pmm_mem p0) (pmm_bitmap p) 0xff (bitmap_byte_count (pmm_frame_count p)), 0)))"
    "\<And>e. e \<in> set es \<Longrightarrow> entry_usable e \<Longrightarrow> entry_end e \<le> 2 ^ 52 \<and> entry_end e div 4096 \<le> unat (pmm_frame_count p)"
    "\<And>i. i < bitmap_byte_count (pmm_frame_count p) \<Longrightarrow> \<exists>e \<in> set es. entry_usable e \<and> in_entry (bitmap_home p i) e"
proof -
  define n where "n = highest_addr_loop es 0 div PAGE_SIZE"
  define B where "B = bitmap_byte_count n"
  define phys where "phys = find_bitmap_region es B"
  define fe where "fe = phys div PAGE_SIZE + align_up B PAGE_SIZE div PAGE_SIZE"
  obtain hhdm where hhdm: "boot_get_hhdm_offset lim = Inr hhdm"
    using init by (auto simp: pmm_init_def split: sum.splits)
  define mf where "mf = claim_frame (phys + hhdm) 0 (claim_frames (phys + hhdm) (phys div PAGE_SIZE) fe
    (mark_usable (phys + hhdm) es (memset (pmm_mem p0) (phys + hhdm) 0xff B, 0)))"
  note defs = n_def B_def phys_def fe_def mf_def bitmap_byte_count_def
  have nz: "phys \<noteq> 0" and p: "p = p0\<lparr>pmm_mem := fst mf, pmm_bitmap := phys + hhdm,
      pmm_frame_count := n, pmm_hhdm_offset := hhdm, pmm_free_frames := snd mf\<rparr>"
    using init mm hhdm zero by (simp_all add: pmm_init_def defs Let_def split: if_splits)
  have high: "unat (highest_addr_loop es 0) \<le> 2 ^ 52"
    using ok by (intro highest_addr_bound) (auto simp: memmap_ok_def)
  then have n: "unat n \<le> 2 ^ 40" by (simp add: n_def unat_div_64)
  then have B: "unat B \<le> 2 ^ 40" by (simp add: B_def unat_bitmap_byte_count)
  note region = memmap_region_in_ram [OF ok nz [unfolded phys_def] B, folded phys_def n_def]
  have fe: "unat fe \<le> unat n"
    using region(3) unat_bitmap_end_frame [OF region(2) B] by (simp add: fe_def)
  have ends: "entry_end e \<le> 2 ^ 52 \<and> entry_end e div 4096 \<le> unat n"
    if "e \<in> set es" "entry_usable e" for e
  proof -
    have "entry_end e \<le> 2 ^ 52" using ok that by (auto simp: memmap_ok_def usable_counts)
    moreover from this have "entry_end e \<le> unat (highest_addr_loop es 0)"
      using highest_addr_upper [OF that(1) usable_counts [OF that(2)], of 0]
      by (simp add: entry_end_word word_le_nat_alt)
    ultimately show ?thesis by (simp add: n_def unat_div_64 div_le_mono)
  qed
  have home: "\<exists>e \<in> set es. entry_usable e \<and> in_entry ((phys + i) div PAGE_SIZE) e" if "i < B" for i
    using bitmap_in_entry [OF ok nz [unfolded phys_def] that] by (simp add: phys_def)
  show thesis
    using region n fe ends hhdm home
    by (intro that [of phys fe]) (simp_all add: p mf_def fe_def B_def bitmap_home_def)
qed

text \<open>The state a successful \<^verbatim>\<open>pmm_init\<close> leaves, frame by frame, and the bytes it leaves alone.\<close>

lemma pmm_init_state:
  assumes ok: "memmap_ok es" and mm: "boot_get_memmap lim = Some es"
    and init: "pmm_init lim p0 = Inr p" and zero: "pmm_free_frames p0 = 0"
  shows "pmm_inv p"
    and "\<And>f. f < pmm_frame_count p \<Longrightarrow> pmm_used p f \<longleftrightarrow>
      f = 0 \<or> (\<exists>i < bitmap_byte_count (pmm_frame_count p). bitmap_home p i = f) \<or>
      \<not> (\<exists>e \<in> set es. entry_usable e \<and> in_entry f e)"
    and "\<And>x. \<not> x - pmm_bitmap p < bitmap_byte_count (pmm_frame_count p) \<Longrightarrow> pmm_mem p x = pmm_mem p0 x"
proof -
  obtain phys fe where st: "phys mod 4096 = 0" "unat phys \<le> 2 ^ 52" "pmm_bitmap p = phys + pmm_hhdm_offset p"
      "0 < pmm_frame_count p" "unat (pmm_frame_count p) \<le> 2 ^ 40" "unat fe \<le> unat (pmm_frame_count p)"
      "fe = phys div PAGE_SIZE + align_up (bitmap_byte_count (pmm_frame_count p)) PAGE_SIZE div PAGE_SIZE"
      "(pmm_mem p, pmm_free_frames p) = claim_frame (pmm_bitmap p) 0 (claim_frames (pmm_bitmap p) (phys div PAGE_SIZE) fe
         (mark_usable (pmm_bitmap p) es
           (memset (pmm_mem p0) (pmm_bitmap p) 0xff (bitmap_byte_count (pmm_frame_count p)), 0)))"
    and ends: "\<And>e. e \<in> set es \<Longrightarrow> entry_usable e \<Longrightarrow>
        entry_end e \<le> 2 ^ 52 \<and> entry_end e div 4096 \<le> unat (pmm_frame_count p)"
    using pmm_init_steps [OF assms] by metis
  define n where "n = pmm_frame_count p"
  define B where "B = bitmap_byte_count n"
  define bm where "bm = pmm_bitmap p"
  define mf1 where "mf1 = (memset (pmm_mem p0) bm 0xff B, 0 :: u64)"
  define mf2 where "mf2 = mark_usable bm es mf1"
  have mf: "(pmm_mem p, pmm_free_frames p) = claim_frame bm 0 (claim_frames bm (phys div PAGE_SIZE) fe mf2)"
    using st(8) by (simp add: bm_def mf2_def mf1_def B_def n_def)
  note n = st(4-6) [folded n_def]
  have B: "unat B \<le> 2 ^ 40" using n(2) by (simp add: B_def unat_bitmap_byte_count)
  have full: "bitmap_test (fst mf1) bm i" if "i < n" for i
    using memset_bitmap_full [OF n(2) that] by (simp add: mf1_def B_def)
  have "count_clear (bitmap_test (fst mf1) bm) (unat n) = 0"
    using n(2) by (intro count_clear_all full) (simp add: word_less_nat_alt unat_of_nat_64)
  then have c1: "counted bm (unat n) mf1" by (simp add: counted_def mf1_def)
  have inn: "i < n" if "e \<in> set es" "entry_usable e" "in_entry i e" for e i
    using ends [OF that(1,2)] that(3) by (simp add: in_entry_nat word_less_nat_alt n_def)
  have "sorted_wrt entries_disjoint es" using ok by (simp add: memmap_ok_def)
  then have "counted bm (unat n) mf2"
    unfolding mf2_def using n ends c1 full [OF inn] by (intro mark_usable_counted) (simp_all add: n_def)
  then have c4: "counted bm (unat n) (pmm_mem p, pmm_free_frames p)"
    unfolding mf using n
    by (intro claim_frame_counted claim_frames_counted) (simp_all add: word_less_nat_alt)
  have home: "bitmap_home p j = (phys + j) div PAGE_SIZE" for j
    by (simp add: bitmap_home_def st(3) algebra_simps)
  have range: "(\<exists>j < B. bitmap_home p j = f) \<longleftrightarrow> phys div PAGE_SIZE \<le> f \<and> f < fe" for f
    unfolding home st(7) B_def n_def by (rule bitmap_home_range [OF st(2,1) B [unfolded B_def n_def]])
  show used: "pmm_used p f \<longleftrightarrow> f = 0 \<or>
      (\<exists>i < bitmap_byte_count (pmm_frame_count p). bitmap_home p i = f) \<or>
      \<not> (\<exists>e \<in> set es. entry_usable e \<and> in_entry f e)" if "f < pmm_frame_count p" for f
    using that full [of f] range [of f] arg_cong [OF mf, of "\<lambda>y. bitmap_test (fst y) bm f"]
    by (simp add: claim_frame_test claim_frames_test mf2_def mark_usable_test bm_def
        flip: B_def n_def)
  show "pmm_inv p"
    unfolding pmm_inv_def using n c4 used by (auto simp: counted_def n_def bm_def)
  show "pmm_mem p x = pmm_mem p0 x" if "\<not> x - pmm_bitmap p < bitmap_byte_count (pmm_frame_count p)" for x
  proof -
    have out: "x \<noteq> bm + f div 8" if "f < n" for f
      using \<open>\<not> x - pmm_bitmap p < _\<close> bit_byte_in_bitmap [OF n(2) that] by (auto simp: bm_def n_def)
    have fe: "f < n" if "f < fe" for f using that n(3) by (simp add: word_less_nat_alt)
    have "fst mf2 x = fst mf1 x" unfolding mf2_def by (rule mark_usable_outside) (use out inn in blast)
    moreover have "fst (claim_frames bm (phys div PAGE_SIZE) fe mf2) x = fst mf2 x"
      by (rule claim_frames_outside) (use out fe in blast)
    ultimately have "pmm_mem p x = fst mf1 x"
      using arg_cong [OF mf, of "\<lambda>y. fst y x"] claim_frame_outside [of x bm 0] out [OF n(1)] by simp
    then show ?thesis
      using \<open>\<not> x - pmm_bitmap p < _\<close> by (simp add: mf1_def memset_apply bm_def B_def n_def)
  qed
qed

section \<open>The contract of a frame allocator\<close>

primrec alloc_many :: "('s \<Rightarrow> u64 \<times> 's) \<Rightarrow> nat \<Rightarrow> 's \<Rightarrow> u64 list \<times> 's" where
  "alloc_many alloc 0 s = ([], s)"
| "alloc_many alloc (Suc k) s =
     (let (a, s1) = alloc s; (as, s2) = alloc_many alloc k s1 in (a # as, s2))"

locale frame_allocator =
  fixes alloc :: "'s \<Rightarrow> u64 \<times> 's"
    and avail :: "'s \<Rightarrow> u64 set"
    and inv :: "'s \<Rightarrow> bool"
  assumes exhausted: "inv s \<Longrightarrow> avail s = {} \<Longrightarrow> alloc s = (0, s)"
    and grants: "inv s \<Longrightarrow> avail s \<noteq> {} \<Longrightarrow> alloc s = (a, s') \<Longrightarrow>
      a \<in> avail s \<and> avail s' = avail s - {a} \<and> inv s'"
    and sentinel: "inv s \<Longrightarrow> 0 \<notin> avail s"
begin

lemma alloc_cases:
  assumes "inv s" and "alloc s = (a, s')"
  obtains "a = 0" "s' = s" "avail s = {}"
  | "a \<noteq> 0" "a \<in> avail s" "avail s' = avail s - {a}" "inv s'"
proof (cases "avail s = {}")
  case True
  with exhausted [OF assms(1) True] assms(2) that(1) show thesis by simp
next
  case False
  with grants [OF assms(1) False assms(2)] sentinel [OF assms(1)] that(2) show thesis by metis
qed

lemma alloc_zero_iff: "inv s \<Longrightarrow> alloc s = (a, s') \<Longrightarrow> a = 0 \<longleftrightarrow> avail s = {}"
  by (rule alloc_cases [of s a s']) auto

lemma alloc_inv: "inv s \<Longrightarrow> alloc s = (a, s') \<Longrightarrow> inv s'"
  by (rule alloc_cases [of s a s']) auto

lemma alloc_avail: "inv s \<Longrightarrow> alloc s = (a, s') \<Longrightarrow> avail s' = avail s - {a}"
  by (rule alloc_cases [of s a s']) auto

lemma alloc_many_distinct:
  assumes "inv s" and "k \<le> card (avail s)" and "alloc_many alloc k s = (as, s')"
  shows "distinct as \<and> length as = k \<and> set as \<subseteq> avail s \<and> avail s' = avail s - set as \<and> inv s'"
  using assms
proof (induction k arbitrary: s as s')
  case 0
  then show ?case by simp
next
  case (Suc k)
  obtain a s1 where a: "alloc s = (a, s1)" by (cases "alloc s")
  obtain bs s2 where b: "alloc_many alloc k s1 = (bs, s2)" by (cases "alloc_many alloc k s1")
  have ne: "avail s \<noteq> {}" and fin: "finite (avail s)" using Suc.prems(2) by (auto intro: card_ge_0_finite)
  note g = grants [OF Suc.prems(1) ne a]
  have "k \<le> card (avail s1)" using g fin Suc.prems(2) by (simp add: card_Diff_singleton)
  with Suc.IH [OF _ _ b] g have IH: "distinct bs \<and> length bs = k \<and> set bs \<subseteq> avail s1 \<and>
      avail s2 = avail s1 - set bs \<and> inv s2"
    by blast
  have eqs: "as = a # bs" "s' = s2" using Suc.prems(3) a b by simp_all
  have s1: "avail s1 = avail s - {a}" and "a \<in> avail s" using g by auto
  then show ?case using IH unfolding eqs s1 by auto
qed

end

interpretation pmm_frames: frame_allocator pmm_alloc_frame pmm_avail pmm_inv
proof
  fix s assume "pmm_inv s" "pmm_avail s = {}"
  then show "pmm_alloc_frame s = (0, s)"
    by (simp add: pmm_avail_empty_iff pmm_alloc_frame_def Let_def)
next
  fix s a s' assume s: "pmm_inv s" "pmm_avail s \<noteq> {}" "pmm_alloc_frame s = (a, s')"
  then obtain f where "alloc_post s f a s'" by (rule pmm_alloc_frame_post)
  with s(1) show "a \<in> pmm_avail s \<and> pmm_avail s' = pmm_avail s - {a} \<and> pmm_inv s'"
    by (simp add: alloc_post_avail alloc_post_inv)
next
  fix s assume "pmm_inv s"
  then show "0 \<notin> pmm_avail s" by (rule pmm_avail_nonzero)
qed

section \<open>Properties\<close>

text \<open>
  C15: initialisation. On a memory map that keeps the boot protocol's promises, a
  successful \<^verbatim>\<open>pmm_init\<close> establishes the allocator's invariant, and a tracked frame is
  free exactly when a usable entry contains it, it is not frame 0 and it holds no byte of
  the bitmap.
\<close>

theorem pmm_init_correct:
  assumes "memmap_ok es" and "boot_get_memmap lim = Some es"
    and "pmm_init lim p0 = Inr p" and "pmm_free_frames p0 = 0"
  shows "pmm_inv p \<and> (\<forall>f. f < pmm_frame_count p \<longrightarrow>
    (\<not> pmm_used p f \<longleftrightarrow> f \<noteq> 0 \<and> (\<exists>e \<in> set es. entry_usable e \<and> in_entry f e) \<and>
       (\<forall>i < bitmap_byte_count (pmm_frame_count p). bitmap_home p i \<noteq> f)))"
  using pmm_init_state(1,2) [OF assms] by blast

definition demo_limine :: limine_responses where
  "demo_limine = \<lparr>framebuffer_response = None, hhdm_response = Some 0xffff800000000000,
     memmap_response = Some
       [\<lparr>entry_base = 0x1000, entry_length = 0x3000, entry_type = 0\<rparr>,
        \<lparr>entry_base = 0x4000, entry_length = 0x2000, entry_type = 1\<rparr>],
     executable_address_response = None, rsdp_response = None\<rparr>"

definition demo_pmm0 :: pmm where
  "demo_pmm0 = \<lparr>pmm_mem = (\<lambda>_. 0x5a), pmm_bitmap = 0, pmm_frame_count = 0,
     pmm_next_search_index = 0, pmm_hhdm_offset = 0, pmm_free_frames = 0\<rparr>"

text \<open>The state of the small machine after boot: frames 2 and 3 free, the bitmap in frame 1.\<close>

definition demo_pmm :: pmm where
  "demo_pmm = (case pmm_init demo_limine demo_pmm0 of Inr p \<Rightarrow> p | Inl _ \<Rightarrow> demo_pmm0)"

lemma demo_memmap: "boot_get_memmap demo_limine = Some
    [\<lparr>entry_base = 0x1000, entry_length = 0x3000, entry_type = 0\<rparr>,
     \<lparr>entry_base = 0x4000, entry_length = 0x2000, entry_type = 1\<rparr>]"
  by (simp add: boot_get_memmap_take demo_limine_def)

lemma demo_memmap_ok: "memmap_ok (the (boot_get_memmap demo_limine))"
  by (simp add: demo_memmap memmap_ok_def counts_as_ram_def entry_end_def entry_usable_def
      entries_disjoint_def)

lemma demo_init: "pmm_init demo_limine demo_pmm0 = Inr demo_pmm"
  by (simp add: demo_pmm_def demo_limine_def demo_pmm0_def pmm_init_def boot_get_hhdm_offset_def
      boot_get_memmap_take Let_def counts_as_ram_def align_up_def)

lemma demo_fields:
  "pmm_frame_count demo_pmm = 4" "pmm_bitmap demo_pmm = 0xffff800000001000"
  "pmm_hhdm_offset demo_pmm = 0xffff800000000000" "pmm_next_search_index demo_pmm = 0"
  by (simp_all add: demo_pmm_def demo_limine_def demo_pmm0_def pmm_init_def boot_get_hhdm_offset_def
      boot_get_memmap_take Let_def counts_as_ram_def align_up_def)

lemma demo_inv: "pmm_inv demo_pmm"
  using pmm_init_state(1) [OF demo_memmap_ok _ demo_init] by (simp add: demo_memmap demo_pmm0_def)

lemma demo_used: "f < 4 \<Longrightarrow> pmm_used demo_pmm f \<longleftrightarrow> f = 0 \<or> f = 1"
proof -
  assume f: "f < 4"
  have B: "i < bitmap_byte_count 4 \<longleftrightarrow> i = 0" for i
    by (simp add: bitmap_byte_count_def align_up_def)
  have "pmm_used demo_pmm f \<longleftrightarrow> f = 0 \<or> bitmap_home demo_pmm 0 = f \<or>
      \<not> (\<exists>e \<in> set (the (boot_get_memmap demo_limine)). entry_usable e \<and> in_entry f e)"
    using pmm_init_state(2) [OF demo_memmap_ok _ demo_init] f
    by (simp add: demo_memmap demo_pmm0_def demo_fields B)
  then show ?thesis
    using f by (auto simp: demo_memmap bitmap_home_def demo_fields entry_usable_def in_entry_def
        word_le_nat_alt word_less_nat_alt word_unat_eq_iff)
qed

lemma demo_avail: "pmm_avail demo_pmm = {0x2000, 0x3000}"
proof -
  have "{f. f < 4 \<and> \<not> pmm_used demo_pmm f} = {2, 3}"
  proof (intro set_eqI iffI)
    fix f assume "f \<in> {f. f < 4 \<and> \<not> pmm_used demo_pmm f}"
    then have "f < 4" "f \<noteq> 0" "f \<noteq> 1" using demo_used [of f] by auto
    then show "f \<in> {2, 3}" by (simp add: word_less_nat_alt word_unat_eq_iff) arith
  qed (auto simp: demo_used)
  then show ?thesis by (simp add: pmm_avail_def demo_fields)
qed

theorem pmm_init_correct_witness:
  "memmap_ok (the (boot_get_memmap demo_limine)) \<and> pmm_inv demo_pmm \<and> \<not> pmm_used demo_pmm 3"
proof -
  have "boot_get_memmap demo_limine = Some (the (boot_get_memmap demo_limine))"
    by (simp add: demo_memmap)
  moreover have "pmm_free_frames demo_pmm0 = 0" by (simp add: demo_pmm0_def)
  ultimately have "pmm_inv demo_pmm"
    using pmm_init_correct [OF demo_memmap_ok _ demo_init] by blast
  then show ?thesis by (simp add: demo_memmap_ok demo_used)
qed

text \<open>
  C3: allocation. From a state that satisfies the invariant, \<^verbatim>\<open>pmm_alloc_frame\<close>
  returns 0 exactly when no frame is free; otherwise it returns the page-aligned address of
  a frame that was free and now is not, with every byte of the frame zero and every byte
  outside the frame and the bitmap unchanged. The invariant holds afterwards; in
  particular zeroing the frame never damages the bitmap.
\<close>

theorem pmm_alloc_frame_correct:
  assumes "pmm_inv p" and "pmm_alloc_frame p = (phys, p')"
  shows "(phys = 0 \<longleftrightarrow> pmm_avail p = {}) \<and> pmm_inv p' \<and> pmm_avail p' = pmm_avail p - {phys} \<and>
    (phys \<noteq> 0 \<longrightarrow> phys \<in> pmm_avail p \<and> phys mod 4096 = 0 \<and>
       pmm_free_frames p' = pmm_free_frames p - 1 \<and>
       (\<forall>x. x - (phys + pmm_hhdm_offset p) < PAGE_SIZE \<longrightarrow> pmm_mem p' x = 0) \<and>
       (\<forall>x. \<not> x - (phys + pmm_hhdm_offset p) < PAGE_SIZE \<and>
            \<not> x - pmm_bitmap p < bitmap_byte_count (pmm_frame_count p) \<longrightarrow>
            pmm_mem p' x = pmm_mem p x))"
proof (cases "pmm_avail p = {}")
  case True
  with pmm_frames.exhausted [OF assms(1)] assms show ?thesis by simp
next
  case False
  obtain f where f: "alloc_post p f phys p'"
    using pmm_alloc_frame_post [OF assms(1) False assms(2)] .
  then have "f < pmm_frame_count p" and phys: "phys = f * PAGE_SIZE"
    by (simp_all add: alloc_post_def)
  then have "f div 8 < bitmap_byte_count (pmm_frame_count p)"
    using assms(1) by (intro bit_byte_in_bitmap) (simp_all add: pmm_inv_def)
  then have "pmm_mem p' x = pmm_mem p x"
    if "\<not> x - (phys + pmm_hhdm_offset p) < PAGE_SIZE"
      "\<not> x - pmm_bitmap p < bitmap_byte_count (pmm_frame_count p)" for x
    using f that by (auto simp: alloc_post_def bitmap_set_def)
  moreover have "phys mod 4096 = 0"
    using pmm_frame_bound [OF assms(1) \<open>f < pmm_frame_count p\<close>]
    by (simp add: phys word_unat_eq_iff unat_mod_64 unat_frame_addr)
  ultimately show ?thesis
    using f False pmm_frames.alloc_zero_iff [OF assms] alloc_post_inv [OF assms(1) f]
      alloc_post_avail [OF assms(1) f]
    by (simp add: alloc_post_def)
qed

theorem pmm_alloc_frame_correct_witness:
  "fst (pmm_alloc_frame demo_pmm) \<in> {0x2000, 0x3000} \<and>
   pmm_mem (snd (pmm_alloc_frame demo_pmm)) (fst (pmm_alloc_frame demo_pmm) + 0xffff800000000000) = 0"
  using pmm_alloc_frame_correct [OF demo_inv, of "fst (pmm_alloc_frame demo_pmm)"
      "snd (pmm_alloc_frame demo_pmm)"]
  by (simp add: demo_avail demo_fields)

text \<open>
  C36: releasing the frame just allocated succeeds and restores the set of free frames, the
  counter and the invariant; releasing it a second time panics.
\<close>

theorem pmm_free_frame_roundtrip:
  assumes "pmm_inv p" and "pmm_avail p \<noteq> {}" and "pmm_alloc_frame p = (phys, p')"
  shows "\<exists>p''. pmm_free_frame p' phys = Inr p'' \<and> pmm_inv p'' \<and> pmm_avail p'' = pmm_avail p \<and>
    pmm_free_frames p'' = pmm_free_frames p \<and>
    pmm_free_frame p'' phys =
      Inl (Panic ''pmm_free_frame: double free or invalid address 0x%lx'' [phys])"
proof -
  obtain f where f: "alloc_post p f phys p'" using pmm_alloc_frame_post [OF assms] .
  then have ff: "f < pmm_frame_count p" "\<not> pmm_used p f" and phys: "phys = f * PAGE_SIZE"
    by (simp_all add: alloc_post_def)
  then have div: "phys div PAGE_SIZE = f"
    using frame_addr_div [OF pmm_frame_bound [OF assms(1)]] by simp
  have fc: "pmm_frame_count p' = pmm_frame_count p" using f by (simp add: alloc_post_def)
  have "pmm_used p' f" using alloc_post_used [OF f ff(1)] by simp
  then obtain p'' where ok: "pmm_free_frame p' phys = Inr p''"
    and p'': "pmm_free_frames p'' = pmm_free_frames p' + 1"
      "pmm_frame_count p'' = pmm_frame_count p" "\<not> pmm_used p'' f"
    using ff fc by (simp add: pmm_free_frame_def div Let_def not_le bitmap_test_clear)
  have home: "bitmap_home p' i \<noteq> phys div PAGE_SIZE"
    if "i < bitmap_byte_count (pmm_frame_count p')" for i
    using assms(1) f ff that unfolding div
    by (simp add: pmm_inv_def alloc_post_def bitmap_home_def)
  have "f \<noteq> 0" using ff assms(1) by (auto simp: pmm_inv_def)
  then have nz: "phys div PAGE_SIZE \<noteq> 0" by (simp add: div)
  note free = pmm_free_frame_ok [OF alloc_post_inv [OF assms(1) f] ok home nz]
  have "phys div PAGE_SIZE * PAGE_SIZE = phys" unfolding div by (simp only: phys)
  then have "pmm_avail p'' = insert phys (pmm_avail p - {phys})"
    using free(2) alloc_post_avail(1) [OF assms(1) f] by simp
  then have "pmm_avail p'' = pmm_avail p"
    using alloc_post_avail(2) [OF assms(1) f] by (simp add: insert_absorb)
  moreover have "pmm_free_frames p'' = pmm_free_frames p"
    using p''(1) f by (simp add: alloc_post_def)
  moreover have "pmm_free_frame p'' phys =
      Inl (Panic ''pmm_free_frame: double free or invalid address 0x%lx'' [phys])"
    using p''(3) by (simp add: pmm_free_frame_def div)
  ultimately show ?thesis using ok free(1) by blast
qed

theorem pmm_free_frame_roundtrip_witness:
  "\<exists>p''. pmm_free_frame (snd (pmm_alloc_frame demo_pmm)) (fst (pmm_alloc_frame demo_pmm)) = Inr p''
     \<and> pmm_avail p'' = {0x2000, 0x3000}"
  using pmm_free_frame_roundtrip [OF demo_inv, of "fst (pmm_alloc_frame demo_pmm)"
      "snd (pmm_alloc_frame demo_pmm)"]
  by (auto simp: demo_avail)

text \<open>
  As long as enough frames are free, any number of allocations in a row return pairwise
  different frames, all of them free before, and leave exactly the other free frames.
\<close>

theorem pmm_allocations_distinct:
  assumes "pmm_inv p" and "k \<le> card (pmm_avail p)" and "alloc_many pmm_alloc_frame k p = (as, p')"
  shows "distinct as \<and> length as = k \<and> set as \<subseteq> pmm_avail p \<and>
    pmm_avail p' = pmm_avail p - set as \<and> pmm_inv p'"
  using assms by (rule pmm_frames.alloc_many_distinct)

theorem pmm_allocations_distinct_witness:
  "distinct (fst (alloc_many pmm_alloc_frame 2 demo_pmm)) \<and>
   pmm_avail (snd (alloc_many pmm_alloc_frame 2 demo_pmm)) =
     {0x2000, 0x3000} - set (fst (alloc_many pmm_alloc_frame 2 demo_pmm))"
  using pmm_allocations_distinct [OF demo_inv, of 2 "fst (alloc_many pmm_alloc_frame 2 demo_pmm)"
      "snd (alloc_many pmm_alloc_frame 2 demo_pmm)"]
  by (simp add: demo_avail)

text \<open>
  The search for the bitmap's region uses 0 both for "not found" and for a region whose
  base is 0: when the first usable entry that is long enough starts at physical address 0,
  initialisation panics, however many usable entries follow.
\<close>

theorem pmm_init_rejects_base_zero:
  assumes "boot_get_hhdm_offset lim = Inr hhdm" and "boot_get_memmap lim = Some (e # es)"
    and "entry_type e = BOOT_MEMMAP_USABLE" and "entry_base e = 0"
    and "align_up (highest_addr_loop (e # es) 0 div PAGE_SIZE) 8 div 8 \<le> entry_length e"
  shows "\<exists>args. pmm_init lim p =
    Inl (Panic ''pmm: no usable region large enough for the frame bitmap (%lu bytes)'' args)"
  using assms by (simp add: pmm_init_def Let_def)

theorem pmm_init_rejects_base_zero_witness:
  "\<exists>args. pmm_init (demo_limine\<lparr>memmap_response := Some
       [\<lparr>entry_base = 0, entry_length = 0x100000, entry_type = 0\<rparr>,
        \<lparr>entry_base = 0x200000, entry_length = 0x100000, entry_type = 0\<rparr>]\<rparr>) demo_pmm0 =
    Inl (Panic ''pmm: no usable region large enough for the frame bitmap (%lu bytes)'' args)"
  by (rule pmm_init_rejects_base_zero [where hhdm = "0xffff800000000000"
        and e = "\<lparr>entry_base = 0, entry_length = 0x100000, entry_type = 0\<rparr>"
        and es = "[\<lparr>entry_base = 0x200000, entry_length = 0x100000, entry_type = 0\<rparr>]"])
    (simp_all add: demo_limine_def boot_get_hhdm_offset_def boot_get_memmap_take
      counts_as_ram_def align_up_def)

end
