(* ===== verification/Arch_Vmm.thy ===== *)
theory Arch_Vmm
  imports Mm_Pmm Arch_Isr
begin

text \<open>
  \<^verbatim>\<open>kernel/arch/x86_64/mm/vmm.c\<close>: the virtual memory manager. Page tables are bytes
  of the memory that the frame allocator manages, read and written through the direct map
  exactly as the code does; \<^verbatim>\<open>CR3\<close> is a field of the state and every
  \<^verbatim>\<open>invlpg\<close> is recorded. What the processor's page walk sees, and the proofs,
  are in \<open>Arch_Mmu\<close> and \<open>Arch_Paging\<close>.
\<close>

section \<open>State and operations\<close>

abbreviation (input) PTE_PRESENT :: u64 where "PTE_PRESENT \<equiv> 1"
abbreviation (input) PTE_WRITABLE :: u64 where "PTE_WRITABLE \<equiv> 2"
abbreviation (input) PTE_USER :: u64 where "PTE_USER \<equiv> 4"
abbreviation (input) PTE_CACHE_DISABLE :: u64 where "PTE_CACHE_DISABLE \<equiv> 16"
abbreviation (input) PTE_NO_EXECUTE :: u64 where "PTE_NO_EXECUTE \<equiv> 0x8000000000000000"
abbreviation (input) PTE_ADDR_MASK :: u64 where "PTE_ADDR_MASK \<equiv> 0x000ffffffffff000"

abbreviation (input) VMM_WRITABLE :: u32 where "VMM_WRITABLE \<equiv> 1"
abbreviation (input) VMM_USER :: u32 where "VMM_USER \<equiv> 2"
abbreviation (input) VMM_NO_CACHE :: u32 where "VMM_NO_CACHE \<equiv> 4"
abbreviation (input) VMM_NO_EXECUTE :: u32 where "VMM_NO_EXECUTE \<equiv> 8"

definition VMM_DYNAMIC_VBASE :: u64 where "VMM_DYNAMIC_VBASE = 0xffffffffb0000000"
definition VMM_MMIO_VBASE :: u64 where "VMM_MMIO_VBASE = 0xffffffffc0000000"

definition MAX_LAZY_REGIONS :: nat where "MAX_LAZY_REGIONS = 8"

record lazy_region =
  lr_start :: u64
  lr_end :: u64
  lr_flags :: u32
  lr_used :: bool

record vmm =
  vmm_pmm :: pmm
  vmm_hhdm_offset :: u64
  dynamic_next_vaddr :: u64
  mmio_next_vaddr :: u64
  lazy_regions :: "lazy_region list"
  vmm_cr3 :: u64
  invlpg_log :: "u64 list"

abbreviation vmm_mem :: "vmm \<Rightarrow> mem" where
  "vmm_mem s \<equiv> pmm_mem (vmm_pmm s)"

definition vmm_alloc :: "vmm \<Rightarrow> u64 \<times> vmm" where
  "vmm_alloc s = (let (phys, p) = pmm_alloc_frame (vmm_pmm s) in (phys, s\<lparr>vmm_pmm := p\<rparr>))"

definition vmm_store64 :: "vmm \<Rightarrow> u64 \<Rightarrow> u64 \<Rightarrow> vmm" where
  "vmm_store64 s a v = s\<lparr>vmm_pmm := (vmm_pmm s)\<lparr>pmm_mem := store64 (vmm_mem s) a v\<rparr>\<rparr>"

definition phys_to_virt_table :: "vmm \<Rightarrow> u64 \<Rightarrow> u64" where
  "phys_to_virt_table s phys = phys + vmm_hhdm_offset s"

definition current_pml4 :: "vmm \<Rightarrow> u64" where
  "current_pml4 s = phys_to_virt_table s (vmm_cr3 s AND PTE_ADDR_MASK)"

definition translate_flags :: "u32 \<Rightarrow> u64" where
  "translate_flags flags =
     (let f0 = PTE_PRESENT;
          f1 = (if flags AND VMM_WRITABLE \<noteq> 0 then f0 OR PTE_WRITABLE else f0);
          f2 = (if flags AND VMM_USER \<noteq> 0 then f1 OR PTE_USER else f1);
          f3 = (if flags AND VMM_NO_CACHE \<noteq> 0 then f2 OR PTE_CACHE_DISABLE else f2)
      in if flags AND VMM_NO_EXECUTE \<noteq> 0 then f3 OR PTE_NO_EXECUTE else f3)"

definition page_table_indices :: "u64 \<Rightarrow> u32 \<times> u32 \<times> u32 \<times> u32" where
  "page_table_indices virt =
     (ucast (drop_bit 39 virt AND 511), ucast (drop_bit 30 virt AND 511),
      ucast (drop_bit 21 virt AND 511), ucast (drop_bit 12 virt AND 511))"

text \<open>\<^verbatim>\<open>&table[index]\<close>.\<close>

definition slot :: "u64 \<Rightarrow> u32 \<Rightarrow> u64" where
  "slot table index = table + 8 * ucast index"

definition ensure_next_level :: "vmm \<Rightarrow> u64 \<Rightarrow> u32 \<Rightarrow> u64 option \<times> vmm" where
  "ensure_next_level s table index =
     (if load64 (vmm_mem s) (slot table index) AND PTE_PRESENT = 0 then
        let (new_table_phys, s1) = vmm_alloc s
        in if new_table_phys = 0 then (None, s1)
           else
             let s2 = vmm_store64 s1 (slot table index)
                   (new_table_phys OR PTE_PRESENT OR PTE_WRITABLE OR PTE_USER)
             in (Some (phys_to_virt_table s2
                   (load64 (vmm_mem s2) (slot table index) AND PTE_ADDR_MASK)), s2)
      else (Some (phys_to_virt_table s
             (load64 (vmm_mem s) (slot table index) AND PTE_ADDR_MASK)), s))"

text \<open>The conditional chain of \<^verbatim>\<open>vmm_map\<close>: a null table stops the descent.\<close>

definition ensure_from :: "u64 option \<times> vmm \<Rightarrow> u32 \<Rightarrow> u64 option \<times> vmm" where
  "ensure_from ts index =
     (case ts of (None, s) \<Rightarrow> (None, s) | (Some table, s) \<Rightarrow> ensure_next_level s table index)"

definition vmm_invlpg :: "vmm \<Rightarrow> u64 \<Rightarrow> vmm" where
  "vmm_invlpg s virt = s\<lparr>invlpg_log := invlpg_log s @ [virt]\<rparr>"

definition vmm_map :: "vmm \<Rightarrow> u64 \<Rightarrow> u64 \<Rightarrow> u32 \<Rightarrow> bool \<times> vmm" where
  "vmm_map s virt phys flags =
     (let (pml4_i, pdpt_i, pd_i, pt_i) = page_table_indices virt;
          pdpt = ensure_next_level s (current_pml4 s) pml4_i;
          pd = ensure_from pdpt pdpt_i;
          pt = ensure_from pd pd_i
      in case pt of
           (None, s1) \<Rightarrow> (False, s1)
         | (Some table, s1) \<Rightarrow>
             (True, vmm_invlpg (vmm_store64 s1 (slot table pt_i)
                      ((phys AND PTE_ADDR_MASK) OR translate_flags flags)) virt))"

definition vmm_unmap :: "vmm \<Rightarrow> u64 \<Rightarrow> vmm" where
  "vmm_unmap s virt =
     (let (pml4_i, pdpt_i, pd_i, pt_i) = page_table_indices virt;
          e4 = load64 (vmm_mem s) (slot (current_pml4 s) pml4_i)
      in if e4 AND PTE_PRESENT = 0 then s
         else let pdpt = phys_to_virt_table s (e4 AND PTE_ADDR_MASK);
                  e3 = load64 (vmm_mem s) (slot pdpt pdpt_i)
         in if e3 AND PTE_PRESENT = 0 then s
         else let pd = phys_to_virt_table s (e3 AND PTE_ADDR_MASK);
                  e2 = load64 (vmm_mem s) (slot pd pd_i)
         in if e2 AND PTE_PRESENT = 0 then s
         else let pt = phys_to_virt_table s (e2 AND PTE_ADDR_MASK)
         in vmm_invlpg (vmm_store64 s (slot pt pt_i) 0) virt)"

text \<open>The first unused slot of the region table, if there is one.\<close>

primrec register_in :: "lazy_region list \<Rightarrow> lazy_region \<Rightarrow> lazy_region list option" where
  "register_in [] r = None"
| "register_in (x # xs) r =
     (if \<not> lr_used x then Some (r # xs) else map_option ((#) x) (register_in xs r))"

definition vmm_register_lazy_region :: "vmm \<Rightarrow> u64 \<Rightarrow> u64 \<Rightarrow> u32 \<Rightarrow> bool \<times> vmm" where
  "vmm_register_lazy_region s start end flags =
     (case register_in (lazy_regions s)
             \<lparr>lr_start = start, lr_end = end, lr_flags = flags, lr_used = True\<rparr> of
        None \<Rightarrow> (False, s)
      | Some rs \<Rightarrow> (True, s\<lparr>lazy_regions := rs\<rparr>))"

definition covers :: "lazy_region \<Rightarrow> u64 \<Rightarrow> bool" where
  "covers r page \<longleftrightarrow> lr_used r \<and> lr_start r \<le> page \<and> page < lr_end r"

definition vmm_handle_page_fault :: "vmm \<Rightarrow> u64 \<Rightarrow> u64 \<Rightarrow> bool \<times> vmm" where
  "vmm_handle_page_fault s fault_addr error_code =
     (if error_code AND 1 \<noteq> 0 then (False, s)
      else
        let page = align_down fault_addr PAGE_SIZE
        in case List.find (\<lambda>r. covers r page) (lazy_regions s) of
             None \<Rightarrow> (False, s)
           | Some r \<Rightarrow>
               let (frame, s1) = vmm_alloc s
               in if frame = 0 then (False, s1) else vmm_map s1 page frame (lr_flags r))"

definition page_fault_isr :: "vmm \<Rightarrow> u64 \<Rightarrow> interrupt_frame \<Rightarrow> vmm kresult" where
  "page_fault_isr s cr2 frame =
     (let (handled, s1) = vmm_handle_page_fault s cr2 (if_error_code frame)
      in if \<not> handled then Inl (PanicException (if_vector frame) (if_error_code frame)) else Inr s1)"

definition vmm_init :: "limine_responses \<Rightarrow> handlers \<Rightarrow> vmm \<Rightarrow> (handlers \<times> vmm) kresult" where
  "vmm_init lim hs s =
     (case boot_get_hhdm_offset lim of Inl e \<Rightarrow> Inl e | Inr off \<Rightarrow>
        Inr (interrupt_register_handler hs 14 Page_fault_isr, s\<lparr>vmm_hhdm_offset := off\<rparr>))"

definition vmm_free :: "vmm \<Rightarrow> u64 \<Rightarrow> vmm kresult" where
  "vmm_free s phys =
     (case pmm_free_frame (vmm_pmm s) phys of Inl e \<Rightarrow> Inl e | Inr p \<Rightarrow> Inr (s\<lparr>vmm_pmm := p\<rparr>))"

function guarded_pages :: "vmm \<Rightarrow> u64 \<Rightarrow> u32 \<Rightarrow> u64 \<Rightarrow> u64 \<Rightarrow> (bool \<times> vmm) kresult" where
  "guarded_pages s region_start flags i page_count =
     (if i < page_count then
        let (frame, s1) = vmm_alloc s
        in if frame = 0 then Inr (False, s1)
           else
             let (ok, s2) = vmm_map s1 (region_start + i * PAGE_SIZE) frame flags
             in if \<not> ok then (case vmm_free s2 frame of Inl e \<Rightarrow> Inl e | Inr s3 \<Rightarrow> Inr (False, s3))
                else guarded_pages s2 region_start flags (i + 1) page_count
      else Inr (True, s))"
  by pat_completeness auto
termination
  by (relation "measure (\<lambda>(s, r, f, i, n). unat n - unat i)")
    (auto simp: unat_plus_one_64 word_less_nat_alt)

declare guarded_pages.simps [simp del]

definition vmm_alloc_guarded :: "vmm \<Rightarrow> u64 \<Rightarrow> u32 \<Rightarrow> (u64 option \<times> vmm) kresult" where
  "vmm_alloc_guarded s page_count flags =
     (let region_start = dynamic_next_vaddr s + PAGE_SIZE;
          region_end = region_start + page_count * PAGE_SIZE;
          s1 = s\<lparr>dynamic_next_vaddr := region_end + PAGE_SIZE\<rparr>
      in case guarded_pages s1 region_start flags 0 page_count of
           Inl e \<Rightarrow> Inl e
         | Inr (ok, s2) \<Rightarrow> Inr (if ok then Some region_start else None, s2))"

definition vmm_map_mmio :: "vmm \<Rightarrow> u64 \<Rightarrow> (u64 \<times> vmm) kresult" where
  "vmm_map_mmio s phys_addr =
     (let virt = mmio_next_vaddr s;
          s1 = s\<lparr>mmio_next_vaddr := mmio_next_vaddr s + PAGE_SIZE\<rparr>;
          (ok, s2) = vmm_map s1 virt phys_addr (VMM_WRITABLE OR VMM_NO_CACHE OR VMM_NO_EXECUTE)
      in if \<not> ok then Inl (Panic ''vmm_map_mmio: failed to map phys 0x%lx'' [phys_addr])
         else Inr (virt, s2))"

end
