(* ===== verification/Mm_Heap.thy ===== *)
theory Mm_Heap
  imports Arch_Vmm
begin

text \<open>
  \<^verbatim>\<open>kernel/mm/heap.c\<close>: the first-fit kernel heap. Its block headers are bytes of
  virtual memory, at the offsets the compiler gives the fields of
  \<^verbatim>\<open>struct block_header\<close> (32 bytes: \<^verbatim>\<open>size\<close> at 0, \<^verbatim>\<open>free\<close> at 8,
  \<^verbatim>\<open>prev\<close> at 16, \<^verbatim>\<open>next\<close> at 24). Every access is taken to be served by the
  demand-paged region that \<^verbatim>\<open>heap_init\<close> registers, which \<open>Mm_Paged\<close> shows; when it cannot be, the
  kernel panics.
\<close>

section \<open>Headers and operations\<close>

abbreviation (input) HEAP_VBASE :: u64 where "HEAP_VBASE \<equiv> 0xffffffff90000000"
abbreviation (input) HEAP_SIZE :: u64 where "HEAP_SIZE \<equiv> 16 * 1024 * 1024"
abbreviation (input) MIN_SPLIT_SIZE :: u64 where "MIN_SPLIT_SIZE \<equiv> 16"
abbreviation (input) HEADER_SIZE :: u64 where "HEADER_SIZE \<equiv> 32"

definition blk_size :: "mem \<Rightarrow> u64 \<Rightarrow> u64" where "blk_size m node = load64 m node"
definition blk_free :: "mem \<Rightarrow> u64 \<Rightarrow> bool" where "blk_free m node \<longleftrightarrow> m (node + 8) \<noteq> 0"
definition blk_prev :: "mem \<Rightarrow> u64 \<Rightarrow> u64" where "blk_prev m node = load64 m (node + 16)"
definition blk_next :: "mem \<Rightarrow> u64 \<Rightarrow> u64" where "blk_next m node = load64 m (node + 24)"

definition set_size :: "mem \<Rightarrow> u64 \<Rightarrow> u64 \<Rightarrow> mem" where "set_size m node v = store64 m node v"
definition set_free :: "mem \<Rightarrow> u64 \<Rightarrow> bool \<Rightarrow> mem" where
  "set_free m node f = m(node + 8 := (if f then 1 else 0))"
definition set_prev :: "mem \<Rightarrow> u64 \<Rightarrow> u64 \<Rightarrow> mem" where "set_prev m node v = store64 m (node + 16) v"
definition set_next :: "mem \<Rightarrow> u64 \<Rightarrow> u64 \<Rightarrow> mem" where "set_next m node v = store64 m (node + 24) v"

record heap =
  heap_mem :: mem
  free_list :: u64

definition heap_init :: "vmm \<Rightarrow> heap \<Rightarrow> (vmm \<times> heap) kresult" where
  "heap_init s h =
     (let (ok, s1) = vmm_register_lazy_region s HEAP_VBASE (HEAP_VBASE + HEAP_SIZE) VMM_WRITABLE
      in if \<not> ok then Inl (Panic ''heap: failed to register lazy region'' [])
         else
           let node = HEAP_VBASE;
               m1 = set_size (heap_mem h) node (HEAP_SIZE - HEADER_SIZE);
               m2 = set_free m1 node True;
               m3 = set_prev m2 node 0;
               m4 = set_next m3 node 0
           in Inr (s1, \<lparr>heap_mem = m4, free_list = node\<rparr>))"

text \<open>The body of the \<^verbatim>\<open>kmalloc\<close> loop for the block it takes.\<close>

definition split_block :: "mem \<Rightarrow> u64 \<Rightarrow> u64 \<Rightarrow> u64 \<Rightarrow> mem" where
  "split_block m node sz remaining =
     (let new_node = node + HEADER_SIZE + sz;
          m1 = set_size m new_node (remaining - HEADER_SIZE);
          m2 = set_free m1 new_node True;
          m3 = set_prev m2 new_node node;
          m4 = set_next m3 new_node (blk_next m3 node);
          m5 = (if blk_next m4 new_node \<noteq> 0 then set_prev m4 (blk_next m4 new_node) new_node else m4);
          m6 = set_size m5 node sz
      in set_next m6 node new_node)"

definition take_block :: "mem \<Rightarrow> u64 \<Rightarrow> u64 \<Rightarrow> mem" where
  "take_block m node sz =
     (let remaining = blk_size m node - sz;
          m1 = (if remaining \<ge> HEADER_SIZE + MIN_SPLIT_SIZE then split_block m node sz remaining else m)
      in set_free m1 node False)"

text \<open>The loop follows \<^verbatim>\<open>next\<close> pointers; on a damaged list it may not end (\<open>None\<close>).\<close>

partial_function (option) kmalloc_loop :: "mem \<Rightarrow> u64 \<Rightarrow> u64 \<Rightarrow> (u64 \<times> mem) option" where
  "kmalloc_loop m node sz =
     (if node = 0 then Some (0, m)
      else if \<not> blk_free m node \<or> blk_size m node < sz
        then kmalloc_loop m (blk_next m node) sz
        else Some (node + HEADER_SIZE, take_block m node sz))"

definition kmalloc :: "heap \<Rightarrow> u64 \<Rightarrow> (u64 \<times> heap) option" where
  "kmalloc h sz =
     (if sz = 0 then Some (0, h)
      else map_option (\<lambda>(p, m). (p, h\<lparr>heap_mem := m\<rparr>))
             (kmalloc_loop (heap_mem h) (free_list h) (align_up sz MIN_SPLIT_SIZE)))"

definition merge_next :: "mem \<Rightarrow> u64 \<Rightarrow> mem" where
  "merge_next m node =
     (if blk_next m node \<noteq> 0 \<and> blk_free m (blk_next m node) then
        let m1 = set_size m node (blk_size m node + (HEADER_SIZE + blk_size m (blk_next m node)));
            m2 = set_next m1 node (blk_next m1 (blk_next m1 node))
        in if blk_next m2 node \<noteq> 0 then set_prev m2 (blk_next m2 node) node else m2
      else m)"

definition merge_prev :: "mem \<Rightarrow> u64 \<Rightarrow> mem" where
  "merge_prev m node =
     (if blk_prev m node \<noteq> 0 \<and> blk_free m (blk_prev m node) then
        let prev = blk_prev m node;
            m1 = set_size m prev (blk_size m prev + (HEADER_SIZE + blk_size m node));
            m2 = set_next m1 (blk_prev m1 node) (blk_next m1 node)
        in if blk_next m2 node \<noteq> 0 then set_prev m2 (blk_next m2 node) (blk_prev m2 node) else m2
      else m)"

definition kfree :: "heap \<Rightarrow> u64 \<Rightarrow> heap" where
  "kfree h ptr =
     (if ptr = 0 then h
      else let node = ptr - HEADER_SIZE;
               m1 = set_free (heap_mem h) node True
           in h\<lparr>heap_mem := merge_prev (merge_next m1 node) node\<rparr>)"

section \<open>Reading headers after writes\<close>

text \<open>Two headers that do not overlap, the distances taken around the address space.\<close>

definition apart :: "u64 \<Rightarrow> u64 \<Rightarrow> bool" where
  "apart a b \<longleftrightarrow> 32 \<le> b - a \<and> 32 \<le> a - b"

lemma apart_sym: "apart a b \<Longrightarrow> apart b a"
  by (simp add: apart_def)

lemma shifted_apart:
  fixes d i j :: u64
  assumes "32 \<le> d" "32 \<le> - d" "i \<le> 24" "j \<le> 24"
  shows "8 \<le> d + i - j"
proof -
  have "32 \<le> unat d" "32 \<le> unat (- d)" and ij: "unat i \<le> 24" "unat j \<le> 24"
    using assms by (simp_all add: word_le_nat_alt)
  moreover have "unat (- d) = 2 ^ 64 - unat d"
    using \<open>32 \<le> unat d\<close> by (subst unat_minus_64) auto
  ultimately have "unat (d + i) = unat d + unat i" by (simp add: unat_add_64)
  then have "unat (d + i - j) = unat d + unat i - unat j"
    using \<open>32 \<le> unat d\<close> ij by (simp add: unat_sub_64 word_le_nat_alt)
  then show ?thesis using \<open>32 \<le> unat d\<close> ij by (simp add: word_le_nat_alt)
qed

lemma fields_apart:
  assumes "apart a b" "i \<le> 24" "j \<le> 24"
  shows "8 \<le> (b + i) - (a + j)" "8 \<le> (a + j) - (b + i)"
  using shifted_apart [of "b - a" i j] shifted_apart [of "a - b" j i] assms
  by (simp_all add: apart_def algebra_simps)

named_theorems hdr_simps "header fields after header writes"

lemma set_same_block [hdr_simps]:
  "blk_size (set_size m a v) a = v" "blk_size (set_prev m a v) a = blk_size m a"
  "blk_size (set_next m a v) a = blk_size m a"
  "blk_prev (set_size m a v) a = blk_prev m a" "blk_prev (set_prev m a v) a = v"
  "blk_prev (set_next m a v) a = blk_prev m a"
  "blk_next (set_size m a v) a = blk_next m a" "blk_next (set_prev m a v) a = blk_next m a"
  "blk_next (set_next m a v) a = v"
  by (simp_all add: blk_size_def blk_prev_def blk_next_def set_size_def set_prev_def set_next_def
      load64_store64_other)

lemma free_byte_same [hdr_simps]:
  "blk_free (set_free m a f) a = f" "blk_free (set_size m a v) a = blk_free m a"
  "blk_free (set_prev m a v) a = blk_free m a" "blk_free (set_next m a v) a = blk_free m a"
  by (simp_all add: blk_free_def set_free_def set_size_def set_prev_def set_next_def store64_outside)

lemma load64_free_byte:
  assumes "\<not> x - b < 8"
  shows "load64 (m(x := v)) b = load64 m b"
proof (rule load64_cong)
  fix i :: u64 assume "i < 8"
  then have "b + i \<noteq> x" using assms by auto
  then show "(m(x := v)) (b + i) = m (b + i)" by simp
qed

lemma set_free_fields [hdr_simps]:
  "blk_size (set_free m a f) a = blk_size m a" "blk_prev (set_free m a f) a = blk_prev m a"
  "blk_next (set_free m a f) a = blk_next m a"
  by (simp_all add: blk_size_def blk_prev_def blk_next_def set_free_def load64_free_byte)

text \<open>Everything a header says.\<close>

definition hdr :: "mem \<Rightarrow> u64 \<Rightarrow> u64 \<times> bool \<times> u64 \<times> u64" where
  "hdr m a = (blk_size m a, blk_free m a, blk_prev m a, blk_next m a)"

lemma store_other_hdr:
  assumes "apart a b" "j \<le> 24"
  shows "hdr (store64 m (a + j) v) b = hdr m b"
proof -
  have "8 \<le> (b + i) - (a + j)" "8 \<le> (a + j) - (b + i)" if "i \<le> 24" for i
    using fields_apart [OF assms(1) that assms(2)] .
  from this [of 0] this [of 8] this [of 16] this [of 24] show ?thesis
    by (simp add: hdr_def blk_size_def blk_prev_def blk_next_def blk_free_def load64_store64_other
        store64_outside)
qed

lemma hdr_other [hdr_simps]:
  assumes "apart a b"
  shows "hdr (set_size m a v) b = hdr m b" "hdr (set_prev m a v) b = hdr m b"
    "hdr (set_next m a v) b = hdr m b" "hdr (set_free m a f) b = hdr m b"
proof -
  show "hdr (set_size m a v) b = hdr m b" "hdr (set_prev m a v) b = hdr m b"
    "hdr (set_next m a v) b = hdr m b"
    using store_other_hdr [OF assms, of 0] store_other_hdr [OF assms, of 16]
      store_other_hdr [OF assms, of 24]
    by (simp_all add: set_size_def set_prev_def set_next_def)
  have "8 \<le> (a + 8) - (b + i)" if "i \<le> 24" for i
    using fields_apart(2) [OF assms that, of 8] by simp
  from this [of 0] this [of 8] this [of 16] this [of 24]
  show "hdr (set_free m a f) b = hdr m b"
    by (auto simp: hdr_def blk_size_def blk_prev_def blk_next_def blk_free_def set_free_def
        load64_free_byte)
qed

lemma hdr_same:
  "hdr m a = (z, f, p, n) \<longleftrightarrow> blk_size m a = z \<and> blk_free m a = f \<and> blk_prev m a = p \<and> blk_next m a = n"
  by (simp add: hdr_def)

section \<open>Runs of blocks\<close>

text \<open>A block as the specification sees it: its usable size and whether it is free.\<close>

type_synonym block = "u64 \<times> bool"

primrec span :: "block list \<Rightarrow> nat" where
  "span [] = 0"
| "span (b # bs) = 32 + unat (fst b) + span bs"

primrec end_of :: "u64 \<Rightarrow> block list \<Rightarrow> u64" where
  "end_of a [] = a"
| "end_of a (b # bs) = end_of (a + HEADER_SIZE + fst b) bs"

primrec addrs :: "u64 \<Rightarrow> block list \<Rightarrow> u64 list" where
  "addrs a [] = []"
| "addrs a (b # bs) = a # addrs (a + HEADER_SIZE + fst b) bs"

definition next_of :: "block list \<Rightarrow> u64 \<Rightarrow> u64 \<Rightarrow> u64" where
  "next_of bs a q = (if bs = [] then q else a)"

definition last_of :: "u64 \<Rightarrow> u64 \<Rightarrow> block list \<Rightarrow> u64" where
  "last_of p a bs = (if bs = [] then p else last (addrs a bs))"

text \<open>
  The blocks \<open>bs\<close> lie head to tail from address \<open>a\<close> on; \<open>p\<close> is the block before them and
  \<open>q\<close> the one the last links to.
\<close>

primrec seg :: "mem \<Rightarrow> u64 \<Rightarrow> u64 \<Rightarrow> block list \<Rightarrow> u64 \<Rightarrow> bool" where
  "seg m p a [] q \<longleftrightarrow> True"
| "seg m p a (b # bs) q \<longleftrightarrow>
     hdr m a = (fst b, snd b, p, next_of bs (a + HEADER_SIZE + fst b) q) \<and>
     seg m a (a + HEADER_SIZE + fst b) bs q"

lemma addrs_Nil_iff [simp]: "addrs a bs = [] \<longleftrightarrow> bs = []"
  by (cases bs) simp_all

lemma append_simps [simp]:
  "span (xs @ ys) = span xs + span ys" "end_of a (xs @ ys) = end_of (end_of a xs) ys"
  "addrs a (xs @ ys) = addrs a xs @ addrs (end_of a xs) ys"
  by (induction xs arbitrary: a) simp_all

lemma seg_append:
  "seg m p a (xs @ ys) q \<longleftrightarrow> seg m p a xs (next_of ys (end_of a xs) q) \<and>
     seg m (last_of p a xs) (end_of a xs) ys q"
  by (induction xs arbitrary: p a) (auto simp: next_of_def last_of_def)

lemma seg_cong:
  assumes "\<And>b. b \<in> set (addrs a bs) \<Longrightarrow> hdr m' b = hdr m b"
  shows "seg m' p a bs q = seg m p a bs q"
  using assms by (induction bs arbitrary: p a) simp_all

text \<open>Blocks of a run shorter than the address space do not overlap.\<close>

lemma addrs_offset:
  "b \<in> set (addrs a bs) \<Longrightarrow> \<exists>n. b = a + of_nat n \<and> n + 32 \<le> span bs"
proof (induction bs arbitrary: a)
  case (Cons x bs)
  show ?case
  proof (cases "b = a")
    case True
    then show ?thesis by (auto intro: exI [of _ 0])
  next
    case False
    then obtain n where n: "b = a + HEADER_SIZE + fst x + of_nat n" "n + 32 \<le> span bs"
      using Cons by auto
    then have "b = a + of_nat (32 + unat (fst x) + n)" by simp
    then show ?thesis using n(2) by (intro exI [of _ "32 + unat (fst x) + n"]) simp
  qed
qed simp

lemma end_of_offset: "end_of a bs = a + of_nat (span bs)"
  by (induction bs arbitrary: a) (simp_all add: add.assoc)

lemma offset_apart:
  assumes "32 \<le> n" "n \<le> 2 ^ 32"
  shows "apart a (a + of_nat n)"
proof -
  have n: "unat (of_nat n :: u64) = n" using assms(2) by (simp add: unat_of_nat_64)
  then have "32 \<le> (of_nat n :: u64)" using assms by (simp add: word_le_nat_alt)
  moreover have "32 \<le> - (of_nat n :: u64)"
  proof -
    have "unat (- (of_nat n :: u64)) = 2 ^ 64 - n"
      using n assms by (simp add: unat_sub_if_size word_size unat_arith_simps flip: diff_0)
    then show ?thesis using assms by (simp add: word_le_nat_alt)
  qed
  ultimately show ?thesis by (simp add: apart_def)
qed

lemma later_apart:
  assumes "b \<in> set (addrs (a + of_nat k) bs)" "32 \<le> k" "k + span bs \<le> 2 ^ 32"
  shows "apart a b"
proof -
  obtain n where "b = a + of_nat k + of_nat n" "n + 32 \<le> span bs"
    using addrs_offset [OF assms(1)] by blast
  then have "b = a + of_nat (k + n)" "k + n \<le> 2 ^ 32" using assms(3) by simp_all
  then show ?thesis using offset_apart [of "k + n" a] assms(2) by simp
qed

text \<open>A block is apart from the blocks before it and the blocks after it.\<close>

lemma block_apart:
  assumes "span (xs @ b # ys) \<le> 2 ^ 32"
  shows "c \<in> set (addrs a xs) \<Longrightarrow> apart (end_of a xs) c"
    and "c \<in> set (addrs (end_of a xs + HEADER_SIZE + fst b) ys) \<Longrightarrow> apart (end_of a xs) c"
proof -
  assume "c \<in> set (addrs a xs)"
  then obtain n where n: "c = a + of_nat n" "n + 32 \<le> span xs" using addrs_offset by blast
  then have "end_of a xs = c + of_nat (span xs - n)" by (simp add: end_of_offset of_nat_diff)
  moreover have "apart c (c + of_nat (span xs - n))"
    using n(2) assms by (intro offset_apart) simp_all
  ultimately show "apart (end_of a xs) c" by (simp add: apart_sym)
next
  assume "c \<in> set (addrs (end_of a xs + HEADER_SIZE + fst b) ys)"
  then have "c \<in> set (addrs (end_of a xs + of_nat (32 + unat (fst b))) ys)" by (simp add: add.assoc)
  then show "apart (end_of a xs) c" by (rule later_apart) (use assms in simp_all)
qed

lemma seg_split:
  "seg m p a (xs @ b # ys) q \<longleftrightarrow> seg m p a xs (end_of a xs) \<and>
     hdr m (end_of a xs) = (fst b, snd b, last_of p a xs,
       next_of ys (end_of a xs + HEADER_SIZE + fst b) q) \<and>
     seg m (end_of a xs) (end_of a xs + HEADER_SIZE + fst b) ys q"
  by (simp add: seg_append) (simp add: next_of_def)

text \<open>Changing the back link of the first block of a run.\<close>

definition relink :: "mem \<Rightarrow> u64 \<Rightarrow> block list \<Rightarrow> u64 \<Rightarrow> mem" where
  "relink m a bs p = (if bs = [] then m else set_prev m a p)"

lemma relink_seg:
  assumes "seg m p a bs q" and "span bs \<le> 2 ^ 32"
  shows "seg (relink m a bs p') p' a bs q"
proof (cases bs)
  case (Cons b ys)
  have "apart a c" if "c \<in> set (addrs (a + HEADER_SIZE + fst b) ys)" for c
    using block_apart(2) [of "[]" b ys c a] that assms(2) Cons by simp
  then have "seg (set_prev m a p') a (a + HEADER_SIZE + fst b) ys q"
    using assms(1) Cons by (subst seg_cong [where m = m]) (simp_all add: hdr_other)
  then show ?thesis using assms(1) Cons by (simp add: relink_def hdr_def hdr_simps)
qed (simp add: relink_def)

lemma relink_hdr:
  "(bs \<noteq> [] \<Longrightarrow> apart a c) \<Longrightarrow> hdr (relink m a bs p) c = hdr m c"
  by (simp add: relink_def hdr_other)

text \<open>The field readers see only the header.\<close>

lemma hdr_fields:
  assumes "hdr m a = hdr m' a"
  shows "blk_size m a = blk_size m' a" "blk_free m a = blk_free m' a"
    "blk_prev m a = blk_prev m' a" "blk_next m a = blk_next m' a"
  using assms by (simp_all add: hdr_def)

section \<open>Finding a block\<close>

definition fits :: "u64 \<Rightarrow> block \<Rightarrow> bool" where
  "fits z b \<longleftrightarrow> snd b \<and> z \<le> fst b"

lemma loop_none:
  assumes "seg m p a bs 0" "0 \<notin> set (addrs a bs)" "\<forall>b \<in> set bs. \<not> fits z b"
  shows "kmalloc_loop m (next_of bs a 0) z = Some (0, m)"
  using assms
proof (induction bs arbitrary: p a)
  case Nil
  then show ?case by (simp add: next_of_def kmalloc_loop.simps)
next
  case (Cons b bs)
  then show ?case
    by (subst kmalloc_loop.simps) (auto simp: next_of_def hdr_def fits_def not_le)
qed

lemma loop_found:
  assumes "seg m p a (xs @ b # ys) 0" "0 \<notin> set (addrs a (xs @ b # ys))"
    and "\<forall>x \<in> set xs. \<not> fits z x" "fits z b"
  shows "kmalloc_loop m a z = Some (end_of a xs + HEADER_SIZE, take_block m (end_of a xs) z)"
  using assms
proof (induction xs arbitrary: p a)
  case Nil
  then show ?case by (subst kmalloc_loop.simps) (auto simp: hdr_def fits_def not_less)
next
  case (Cons x xs)
  then have "kmalloc_loop m a z = kmalloc_loop m (a + HEADER_SIZE + fst x) z"
    by (subst kmalloc_loop.simps) (auto simp: next_of_def hdr_def fits_def not_le)
  then show ?case
    using Cons.IH [of a "a + HEADER_SIZE + fst x"] Cons.prems by simp
qed

section \<open>Taking a block\<close>

definition taken :: "u64 \<Rightarrow> block \<Rightarrow> block list" where
  "taken z b = (if HEADER_SIZE + MIN_SPLIT_SIZE \<le> fst b - z
     then [(z, False), (fst b - z - HEADER_SIZE, True)] else [(fst b, False)])"

lemma split_sizes:
  assumes "z \<le> s" "HEADER_SIZE + MIN_SPLIT_SIZE \<le> s - z"
  shows "unat s = unat z + 32 + unat (s - z - HEADER_SIZE)" "16 \<le> unat (s - z - HEADER_SIZE)"
proof -
  have "48 \<le> unat (s - z)" "unat (s - z) = unat s - unat z" "unat z \<le> unat s"
    using assms by (simp_all add: word_le_nat_alt unat_sub_64)
  moreover have "unat (s - z - HEADER_SIZE) = unat (s - z) - 32"
    using assms(2) by (simp add: unat_sub_64 word_le_nat_alt)
  ultimately show "unat s = unat z + 32 + unat (s - z - HEADER_SIZE)" "16 \<le> unat (s - z - HEADER_SIZE)"
    by linarith+
qed

lemma split_block_seg:
  assumes sg: "seg m p a (b # ys) 0" and sp: "span (b # ys) \<le> 2 ^ 32" and free: "snd b"
    and nz: "0 \<notin> set (addrs a (b # ys))" and z: "z \<le> fst b" "HEADER_SIZE + MIN_SPLIT_SIZE \<le> fst b - z"
  shows "seg (set_free (split_block m a z (fst b - z)) a False) p a (taken z b @ ys) 0"
proof -
  let ?new = "a + HEADER_SIZE + z" and ?e = "a + HEADER_SIZE + fst b" and ?r = "fst b - z - HEADER_SIZE"
  note sz = split_sizes [OF z]
  have e: "?new + HEADER_SIZE + ?r = ?e" by simp
  have sp': "span [(z, False), (?r, True)] + span ys \<le> 2 ^ 32" using sp sz(1) by simp
  have an: "apart a ?new"
    using block_apart(2) [of "[]" "(z, False)" "(?r, True) # ys" ?new a] sp' by simp
  have a_ys: "apart a c" if "c \<in> set (addrs ?e ys)" for c
    using block_apart(2) [of "[]" b ys c a] that sp by simp
  have n_ys: "apart ?new c" if "c \<in> set (addrs ?e ys)" for c
  proof -
    have "c \<in> set (addrs (end_of a [(z, False)] + HEADER_SIZE + fst (?r, True)) ys)"
      using that e by (simp only: end_of.simps fst_conv)
    from block_apart(2) [OF _ this] sp' show ?thesis by simp
  qed
  have ea: "ys \<noteq> [] \<Longrightarrow> apart a ?e \<and> apart ?new ?e \<and> ?e \<noteq> 0"
    using a_ys [of ?e] n_ys [of ?e] nz by (cases ys) auto
  define m1 where "m1 = set_prev (set_free (set_size m ?new ?r) ?new True) ?new a"
  define m2 where "m2 = set_next m1 ?new (next_of ys ?e 0)"
  define m3 where "m3 = relink m2 ?e ys ?new"
  have old: "hdr m a = (fst b, True, p, next_of ys ?e 0)" "seg m a ?e ys 0"
    using sg free by simp_all
  have h1: "hdr m1 a = hdr m a" unfolding m1_def using apart_sym [OF an] by (simp add: hdr_other)
  then have nx: "blk_next m1 a = next_of ys ?e 0" using old(1) by (simp add: hdr_def)
  have m2n: "hdr m2 ?new = (?r, True, a, next_of ys ?e 0)"
    by (simp add: m2_def m1_def hdr_def hdr_simps)
  have "blk_next m2 ?new = next_of ys ?e 0" using m2n by (simp add: hdr_def)
  then have m3: "(if blk_next m2 ?new \<noteq> 0 then set_prev m2 (blk_next m2 ?new) ?new else m2) = m3"
    using ea by (cases "ys = []") (simp_all add: m3_def relink_def next_of_def)
  have sp_eq: "split_block m a z (fst b - z) = set_next (set_size m3 a z) a ?new"
    unfolding split_block_def Let_def m1_def [symmetric] nx m2_def [symmetric] m3 ..
  define m4 where "m4 = set_free (set_next (set_size m3 a z) a ?new) a False"
  have "hdr m3 a = hdr m2 a" using ea apart_sym unfolding m3_def by (intro relink_hdr) blast
  also have "\<dots> = hdr m a" using apart_sym [OF an] h1 by (simp add: m2_def hdr_other)
  finally have ha: "hdr m4 a = (z, False, p, ?new)"
    using old(1) by (simp add: m4_def hdr_def hdr_simps)
  have "hdr m4 ?new = hdr m3 ?new" using an by (simp add: m4_def hdr_other)
  also have "\<dots> = hdr m2 ?new" using ea apart_sym unfolding m3_def by (intro relink_hdr) blast
  finally have hn: "hdr m4 ?new = (?r, True, a, next_of ys ?e 0)" using m2n by simp
  have "seg m2 a ?e ys 0"
    using old(2) n_ys by (subst seg_cong [where m = m]) (simp_all add: m2_def m1_def hdr_other)
  then have "seg m3 ?new ?e ys 0" unfolding m3_def using sp by (intro relink_seg) simp_all
  then have "seg m4 ?new ?e ys 0"
    using a_ys by (subst seg_cong [where m = m3]) (simp_all add: m4_def hdr_other)
  then show ?thesis
    using ha hn z(2) by (simp add: taken_def sp_eq m4_def next_of_def add.assoc)
qed

text \<open>A header change that stays within the part of a run from some block on.\<close>

lemma prefix_cong:
  assumes "span (xs @ ys) \<le> 2 ^ 32" and "c \<in> set (addrs (end_of a xs) ys)" and "d \<in> set (addrs a xs)"
  shows "apart c d"
proof -
  obtain n where n: "c = end_of a xs + of_nat n" "n + 32 \<le> span ys"
    using addrs_offset [OF assms(2)] by blast
  obtain k where k: "d = a + of_nat k" "k + 32 \<le> span xs" using addrs_offset [OF assms(3)] by blast
  then have "c = d + of_nat (span xs - k + n)" by (simp add: n end_of_offset of_nat_diff)
  moreover have "apart d (d + of_nat (span xs - k + n))"
    using n(2) k(2) assms(1) by (intro offset_apart) simp_all
  ultimately show ?thesis by (simp add: apart_sym)
qed

text \<open>What the operations write: headers of the blocks in the list, nothing else.\<close>

definition headers_only :: "mem \<Rightarrow> mem \<Rightarrow> u64 set \<Rightarrow> bool" where
  "headers_only m m' C \<longleftrightarrow> (\<forall>x. (\<forall>c \<in> C. \<not> x - c < 32) \<longrightarrow> m' x = m x)"

lemma headers_only_refl: "headers_only m m C"
  by (simp add: headers_only_def)

lemma headers_only_trans:
  "headers_only m m1 C \<Longrightarrow> headers_only m1 m2 C \<Longrightarrow> headers_only m m2 C"
  by (simp add: headers_only_def)

lemma headers_only_mono: "headers_only m m' C \<Longrightarrow> C \<subseteq> D \<Longrightarrow> headers_only m m' D"
  by (auto simp: headers_only_def)

lemma unat_numeral_32: "unat (32 :: u64) = 32"
  by simp

lemma field_in_header:
  fixes x a j :: u64
  assumes "\<not> x - a < 32" "j \<le> 24"
  shows "\<not> x - (a + j) < 8"
proof
  assume h: "x - (a + j) < 8"
  then have "unat (x - (a + j)) < 8" "unat j \<le> 24"
    using assms(2) by (simp_all add: word_less_nat_alt word_le_nat_alt)
  then have "unat (x - (a + j) + j) < 32" by (subst unat_add_64) linarith+
  moreover have "x - (a + j) + j = x - a" by simp
  ultimately show False using assms(1) by (metis word_less_nat_alt unat_numeral_32)
qed

lemma setters_headers_only:
  assumes "headers_only m0 m C" "a \<in> C"
  shows "headers_only m0 (set_size m a v) C" "headers_only m0 (set_prev m a v) C"
    "headers_only m0 (set_next m a v) C" "headers_only m0 (set_free m a f) C"
proof -
  have out: "\<not> x - (a + j) < 8" if "\<forall>c \<in> C. \<not> x - c < 32" "j \<le> 24" for x j
    using field_in_header [of x a j] that assms(2) by blast
  show "headers_only m0 (set_size m a v) C" "headers_only m0 (set_prev m a v) C"
    "headers_only m0 (set_next m a v) C" "headers_only m0 (set_free m a f) C"
    using assms(1) out [of _ 0] out [of "a + 8" 8] out [of _ 16] out [of _ 24]
    by (auto simp: headers_only_def set_size_def set_prev_def set_next_def set_free_def store64_outside)
qed

lemma relink_headers_only:
  "headers_only m0 m C \<Longrightarrow> (bs \<noteq> [] \<Longrightarrow> a \<in> C) \<Longrightarrow> headers_only m0 (relink m a bs p) C"
  by (simp add: relink_def setters_headers_only)

lemma header_bytes_apart:
  assumes "apart c b" "k < 32"
  shows "\<not> b + k - c < 32"
proof -
  define d where "d = b - c"
  have "32 \<le> d" "32 \<le> - d" using assms(1) by (simp_all add: apart_def d_def)
  then have d: "32 \<le> unat d" "32 \<le> unat (- d)" by (simp_all add: word_le_nat_alt)
  have "unat (- d) = 2 ^ 64 - unat d"
    using d(1) by (subst unat_minus_64) auto
  moreover have "unat k < 32" using assms(2) by (simp add: word_less_nat_alt)
  ultimately have "unat (d + k) = unat d + unat k" using d(2) by (simp add: unat_add_64)
  then have "\<not> d + k < 32" using d(1) by (simp add: word_less_nat_alt)
  moreover have "b + k - c = d + k" by (simp add: d_def)
  ultimately show ?thesis by metis
qed

lemma headers_only_hdr:
  assumes "headers_only m m' C" "\<forall>c \<in> C. apart c b"
  shows "hdr m' b = hdr m b"
proof -
  have same: "m' (b + k) = m (b + k)" if "k < 32" for k
    using assms header_bytes_apart [OF _ that] by (simp add: headers_only_def)
  have "load64 m' (b + j) = load64 m (b + j)" if "j \<le> 24" for j
  proof (rule load64_cong)
    fix i :: u64 assume "i < 8"
    then have "unat (j + i) < 32"
      using that by (subst unat_add_64) (simp_all add: word_less_nat_alt word_le_nat_alt)
    then have "j + i < 32" by (simp add: word_less_nat_alt)
    then show "m' (b + j + i) = m (b + j + i)" using same [of "j + i"] by (simp add: add.assoc)
  qed
  from this [of 0] this [of 16] this [of 24] show ?thesis
    using same [of 8] by (simp add: hdr_def blk_size_def blk_prev_def blk_next_def blk_free_def)
qed

text \<open>Replacing the rest of a run from a block on.\<close>

lemma seg_replace:
  assumes "seg m p a (xs @ ys) q" "ys \<noteq> []" "span (xs @ ys) \<le> 2 ^ 32"
    and "headers_only m m' C" "C \<subseteq> set (addrs (end_of a xs) zs)" "span zs = span ys"
    and "seg m' (last_of p a xs) (end_of a xs) zs' q" "zs' \<noteq> []"
  shows "seg m' p a (xs @ zs') q"
proof -
  have "hdr m' d = hdr m d" if "d \<in> set (addrs a xs)" for d
  proof (rule headers_only_hdr [OF assms(4)])
    show "\<forall>c \<in> C. apart c d"
      using prefix_cong [of xs zs _ a d] assms(3,5,6) that by auto
  qed
  then have "seg m' p a xs (end_of a xs) = seg m p a xs (end_of a xs)" by (intro seg_cong)
  then show ?thesis using assms(1,2,7,8) by (simp add: seg_append next_of_def)
qed

lemma span_taken: "z \<le> fst b \<Longrightarrow> span (taken z b) = span [b]"
  using split_sizes(1) [of z "fst b"] by (simp add: taken_def)

lemma end_taken: "z \<le> fst b \<Longrightarrow> end_of a (taken z b) = a + HEADER_SIZE + fst b"
  using end_of_offset [of a "taken z b"] span_taken [of z b] by simp

lemma split_block_headers:
  assumes "seg m p a (b # ys) 0" "HEADER_SIZE + MIN_SPLIT_SIZE \<le> fst b - z" "z \<le> fst b"
    and "span (b # ys) \<le> 2 ^ 32"
  shows "headers_only m (split_block m a z (fst b - z)) (set (addrs a (taken z b @ ys)))"
proof -
  let ?C = "set (addrs a (taken z b @ ys))" and ?new = "a + HEADER_SIZE + z"
  let ?e = "a + HEADER_SIZE + fst b"
  have C: "a \<in> ?C" "?new \<in> ?C" "ys \<noteq> [] \<Longrightarrow> ?e \<in> ?C"
    using assms(2) end_taken [OF assms(3), of a] by (cases ys; simp add: taken_def)+
  define m3 where "m3 = set_prev (set_free (set_size m ?new (fst b - z - HEADER_SIZE)) ?new True) ?new a"
  have "apart ?new a"
    using block_apart(2) [of "[]" "(z, False)" "(fst b - z - HEADER_SIZE, True) # ys" ?new a]
      split_sizes(1) [OF assms(3,2)] assms(4) by (simp add: apart_sym)
  then have "hdr m3 a = hdr m a" by (simp add: m3_def hdr_other)
  then have nx: "blk_next m3 a = next_of ys ?e 0" using assms(1) by (simp add: hdr_def)
  have "headers_only m m3 ?C"
    unfolding m3_def by (intro setters_headers_only C headers_only_refl)
  then have m4: "headers_only m (set_next m3 ?new (blk_next m3 a)) ?C"
    by (intro setters_headers_only C)
  have n4: "blk_next (set_next m3 ?new (blk_next m3 a)) ?new = next_of ys ?e 0"
    using nx by (simp add: hdr_simps)
  have "headers_only m (if next_of ys ?e 0 \<noteq> 0
      then set_prev (set_next m3 ?new (blk_next m3 a)) (next_of ys ?e 0) ?new
      else set_next m3 ?new (blk_next m3 a)) ?C"
    using m4 setters_headers_only(2) [OF m4 C(3)] by (simp add: next_of_def)
  then show ?thesis
    unfolding split_block_def Let_def m3_def [symmetric] n4
    by (intro setters_headers_only C)
qed

lemma take_block_result:
  assumes sg: "seg m p a (xs @ b # ys) 0" and sp: "span (xs @ b # ys) \<le> 2 ^ 32" and f: "fits z b"
    and nz: "0 \<notin> set (addrs a (xs @ b # ys))"
  shows "seg (take_block m (end_of a xs) z) p a (xs @ taken z b @ ys) 0"
    and "headers_only m (take_block m (end_of a xs) z) (set (addrs (end_of a xs) (taken z b @ ys)))"
proof -
  let ?n = "end_of a xs" and ?m = "take_block m (end_of a xs) z"
  have z: "z \<le> fst b" "snd b" using f by (simp_all add: fits_def)
  have sgb: "seg m (last_of p a xs) ?n (b # ys) 0" using sg by (simp add: seg_append)
  have spb: "span (b # ys) \<le> 2 ^ 32" using sp by simp
  have nzb: "0 \<notin> set (addrs ?n (b # ys))" using nz by simp
  have bs: "blk_size m ?n = fst b" using sgb by (simp add: hdr_def)
  have C: "?n \<in> set (addrs ?n (taken z b @ ys))" by (simp add: taken_def)
  have both: "seg ?m (last_of p a xs) ?n (taken z b @ ys) 0 \<and>
      headers_only m ?m (set (addrs ?n (taken z b @ ys)))"
  proof (cases "HEADER_SIZE + MIN_SPLIT_SIZE \<le> fst b - z")
    case True
    then have m: "?m = set_free (split_block m ?n z (fst b - z)) ?n False"
      by (simp add: take_block_def bs Let_def)
    show ?thesis
      unfolding m using split_block_seg [OF sgb spb z(2) nzb z(1) True]
        setters_headers_only(4) [OF split_block_headers [OF sgb True z(1) spb] C] by simp
  next
    case False
    then have m: "?m = set_free m ?n False" by (simp add: take_block_def bs Let_def)
    have "apart ?n c" if "c \<in> set (addrs (?n + HEADER_SIZE + fst b) ys)" for c
      using block_apart(2) [of "[]" b ys c ?n] spb that by simp
    then have "seg (set_free m ?n False) ?n (?n + HEADER_SIZE + fst b) ys 0 =
        seg m ?n (?n + HEADER_SIZE + fst b) ys 0"
      by (intro seg_cong) (simp add: hdr_other)
    then show ?thesis
      unfolding m using False sgb setters_headers_only(4) [OF headers_only_refl C]
      by (simp add: taken_def hdr_def hdr_simps)
  qed
  then show "headers_only m ?m (set (addrs ?n (taken z b @ ys)))" by blast
  show "seg ?m p a (xs @ taken z b @ ys) 0"
  proof (rule seg_replace [where zs = "taken z b @ ys", OF sg _ sp])
    show "headers_only m ?m (set (addrs ?n (taken z b @ ys)))" using both by blast
    show "seg ?m (last_of p a xs) ?n (taken z b @ ys) 0" using both by blast
  qed (simp_all add: span_taken [OF z(1)], simp add: taken_def)
qed

section \<open>Merging\<close>

text \<open>Freeing \<open>b\<close>: first the block after it is absorbed, then the block before it absorbs it.\<close>

fun with_next :: "block \<Rightarrow> block list \<Rightarrow> block list" where
  "with_next b ((t, True) # ys) = (fst b + (HEADER_SIZE + t), True) # ys"
| "with_next b ys = (fst b, True) # ys"

lemma merge_next_seg:
  assumes sg: "seg m p a (b # ys) 0" and sp: "span (b # ys) \<le> 2 ^ 32" and free: "snd b"
    and nz: "0 \<notin> set (addrs a (b # ys))"
  shows "seg (merge_next m a) p a (with_next b ys) 0"
    and "headers_only m (merge_next m a) (set (addrs a (b # ys)))"
proof -
  have both: "seg (merge_next m a) p a (with_next b ys) 0 \<and>
      headers_only m (merge_next m a) (set (addrs a (b # ys)))"
  proof (cases "\<exists>t zs. ys = (t, True) # zs")
    case False
    then have w: "with_next b ys = b # ys"
      using free by (cases b; cases "(b, ys)" rule: with_next.cases) auto
    have "merge_next m a = m"
      using sg False nz by (cases ys) (auto simp: merge_next_def hdr_def next_of_def)
    then show ?thesis using sg w by (simp add: headers_only_refl)
  next
    case True
    then obtain t zs where ys: "ys = (t, True) # zs" by blast
    let ?e = "a + HEADER_SIZE + fst b" and ?g = "a + HEADER_SIZE + fst b + HEADER_SIZE + t"
    have old: "hdr m a = (fst b, True, p, ?e)" "hdr m ?e = (t, True, a, next_of zs ?g 0)"
      "seg m ?e ?g zs 0"
      using sg free ys by (simp_all add: next_of_def)
    have ae: "apart a ?e" using block_apart(2) [of "[]" b ys ?e a] sp ys by simp
    have a_zs: "apart a c" if "c \<in> set (addrs ?g zs)" for c
      using block_apart(2) [of "[]" b ys c a] sp ys that by simp
    define m1 where "m1 = set_size m a (fst b + (HEADER_SIZE + t))"
    define m2 where "m2 = set_next m1 a (next_of zs ?g 0)"
    have "hdr m1 ?e = hdr m ?e" using ae by (simp add: m1_def hdr_other)
    then have n1: "blk_next m1 ?e = next_of zs ?g 0" "blk_next m1 a = ?e"
      using old by (simp_all add: hdr_def m1_def hdr_simps)
    have h2: "hdr m2 a = (fst b + (HEADER_SIZE + t), True, p, next_of zs ?g 0)"
      using old by (simp add: m2_def m1_def hdr_def hdr_simps)
    have "blk_next m a = ?e" "?e \<noteq> 0" "blk_free m ?e" "blk_size m a = fst b" "blk_size m ?e = t"
      using old(1,2) nz ys by (auto simp: hdr_def)
    then have "merge_next m a = (if blk_next m2 a \<noteq> 0 then set_prev m2 (blk_next m2 a) a else m2)"
      unfolding merge_next_def Let_def
      by (simp only: m1_def [symmetric] n1 m2_def [symmetric] simp_thms if_True)
    also have "\<dots> = relink m2 ?g zs a"
      using h2 nz ys by (cases zs) (auto simp: relink_def hdr_def next_of_def)
    finally have m: "merge_next m a = relink m2 ?g zs a" .
    have "seg m2 ?e ?g zs 0"
      using old(3) a_zs by (subst seg_cong [where m = m]) (simp_all add: m2_def m1_def hdr_other)
    then have "seg (relink m2 ?g zs a) a ?g zs 0" using sp ys by (intro relink_seg) simp_all
    moreover have "hdr (relink m2 ?g zs a) a = hdr m2 a"
      using a_zs [of ?g] apart_sym by (intro relink_hdr) (cases zs, auto)
    ultimately have "seg (merge_next m a) p a (with_next b ys) 0"
      unfolding m ys using h2 by (simp add: algebra_simps)
    moreover have "headers_only m (merge_next m a) (set (addrs a (b # ys)))"
      unfolding m m2_def m1_def
      by (intro relink_headers_only setters_headers_only headers_only_refl)
        (cases zs; simp add: ys)+
    ultimately show ?thesis by blast
  qed
  then show "seg (merge_next m a) p a (with_next b ys) 0"
    and "headers_only m (merge_next m a) (set (addrs a (b # ys)))" by blast+
qed

definition absorb :: "block \<Rightarrow> block list \<Rightarrow> block list" where
  "absorb x bs = (if snd x then (fst x + (HEADER_SIZE + fst (hd bs)), True) # tl bs else x # bs)"

lemma merge_prev_seg:
  assumes sg: "seg m p a (x # b # ys) 0" and sp: "span (x # b # ys) \<le> 2 ^ 32"
    and nz: "0 \<notin> set (addrs a (x # b # ys))"
  shows "seg (merge_prev m (a + HEADER_SIZE + fst x)) p a (absorb x (b # ys)) 0"
    and "headers_only m (merge_prev m (a + HEADER_SIZE + fst x)) (set (addrs a (x # b # ys)))"
proof -
  let ?n = "a + HEADER_SIZE + fst x" and ?e = "a + HEADER_SIZE + fst x + HEADER_SIZE + fst b"
  have old: "hdr m a = (fst x, snd x, p, ?n)" "hdr m ?n = (fst b, snd b, a, next_of ys ?e 0)"
    "seg m ?n ?e ys 0"
    using sg by (simp_all add: next_of_def)
  have both: "seg (merge_prev m ?n) p a (absorb x (b # ys)) 0 \<and>
      headers_only m (merge_prev m ?n) (set (addrs a (x # b # ys)))"
  proof (cases "snd x")
    case False
    then have "merge_prev m ?n = m" using old by (simp add: merge_prev_def hdr_def)
    then show ?thesis using sg False by (simp add: absorb_def headers_only_refl)
  next
    case True
    have an: "apart a ?n" using block_apart(2) [of "[]" x "b # ys" ?n a] sp by simp
    have a_ys: "apart a c" if "c \<in> set (addrs ?e ys)" for c
      using block_apart(2) [of "[]" x "b # ys" c a] sp that by simp
    define m1 where "m1 = set_size m a (fst x + (HEADER_SIZE + fst b))"
    define m2 where "m2 = set_next m1 a (next_of ys ?e 0)"
    have "hdr m1 ?n = hdr m ?n" using an by (simp add: m1_def hdr_other)
    then have n1: "blk_prev m1 ?n = a" "blk_next m1 ?n = next_of ys ?e 0"
      using old(2) by (simp_all add: hdr_def)
    have "hdr m2 ?n = hdr m1 ?n" using an by (simp add: m2_def hdr_other)
    then have n2: "blk_next m2 ?n = next_of ys ?e 0" "blk_prev m2 ?n = a"
      using n1 by (simp_all add: hdr_def)
    have h2: "hdr m2 a = (fst x + (HEADER_SIZE + fst b), True, p, next_of ys ?e 0)"
      using old(1) True by (simp add: m2_def m1_def hdr_def hdr_simps)
    have "blk_prev m ?n = a" "a \<noteq> 0" "blk_free m a" "blk_size m a = fst x" "blk_size m ?n = fst b"
      using old(1,2) nz True by (auto simp: hdr_def)
    then have "merge_prev m ?n =
        (if next_of ys ?e 0 \<noteq> 0 then set_prev m2 (next_of ys ?e 0) a else m2)"
      unfolding merge_prev_def Let_def
      by (simp only: m1_def [symmetric] n1 m2_def [symmetric] n2 simp_thms if_True)
    also have "\<dots> = relink m2 ?e ys a"
      using nz by (cases ys) (auto simp: relink_def next_of_def)
    finally have m: "merge_prev m ?n = relink m2 ?e ys a" .
    have "seg m2 ?n ?e ys 0"
      using old(3) a_ys by (subst seg_cong [where m = m]) (simp_all add: m2_def m1_def hdr_other)
    then have "seg (relink m2 ?e ys a) a ?e ys 0" using sp by (intro relink_seg) simp_all
    moreover have "hdr (relink m2 ?e ys a) a = hdr m2 a"
      using a_ys [of ?e] apart_sym by (intro relink_hdr) (cases ys, auto)
    ultimately have "seg (merge_prev m ?n) p a (absorb x (b # ys)) 0"
      unfolding m using h2 True by (simp add: absorb_def algebra_simps)
    moreover have "headers_only m (merge_prev m ?n) (set (addrs a (x # b # ys)))"
      unfolding m m2_def m1_def
      by (intro relink_headers_only setters_headers_only headers_only_refl) (cases ys; simp)+
    ultimately show ?thesis by blast
  qed
  then show "seg (merge_prev m ?n) p a (absorb x (b # ys)) 0"
    and "headers_only m (merge_prev m ?n) (set (addrs a (x # b # ys)))" by blast+
qed

section \<open>The invariant\<close>

text \<open>
  The blocks tile the heap's address range, each is a positive multiple of 16 bytes, and no
  two free blocks are neighbours.
\<close>

definition block_ok :: "block \<Rightarrow> bool" where
  "block_ok b \<longleftrightarrow> 16 \<le> unat (fst b) \<and> unat (fst b) mod 16 = 0"

definition not_both_free :: "block \<Rightarrow> block \<Rightarrow> bool" where
  "not_both_free b c \<longleftrightarrow> \<not> (snd b \<and> snd c)"

definition heap_inv :: "heap \<Rightarrow> block list \<Rightarrow> bool" where
  "heap_inv h bs \<longleftrightarrow> free_list h = HEAP_VBASE \<and> seg (heap_mem h) 0 HEAP_VBASE bs 0 \<and>
     span bs = 16 * 1024 * 1024 \<and> (\<forall>b \<in> set bs. block_ok b) \<and> successively not_both_free bs"

text \<open>The blocks in use: where the client's bytes start and how many there are.\<close>

primrec in_use :: "u64 \<Rightarrow> block list \<Rightarrow> (u64 \<times> u64) set" where
  "in_use a [] = {}"
| "in_use a (b # bs) = (if snd b then {} else {(a + HEADER_SIZE, fst b)}) \<union>
     in_use (a + HEADER_SIZE + fst b) bs"

lemma in_use_append: "in_use a (xs @ ys) = in_use a xs \<union> in_use (end_of a xs) ys"
  by (induction xs arbitrary: a) auto

lemma block_within:
  assumes "heap_inv h bs"
  shows "0 \<notin> set (addrs HEAP_VBASE bs)" and "span bs \<le> 2 ^ 32" and "bs \<noteq> []"
proof -
  have sp: "span bs = 16 * 1024 * 1024" using assms by (simp add: heap_inv_def)
  show "0 \<notin> set (addrs HEAP_VBASE bs)"
  proof
    assume "0 \<in> set (addrs HEAP_VBASE bs)"
    then obtain n where n: "0 = HEAP_VBASE + of_nat n" "n + 32 \<le> 16 * 1024 * 1024"
      using addrs_offset sp by metis
    then have "unat (HEAP_VBASE + of_nat n) = unat HEAP_VBASE + n"
      by (subst unat_add_of_nat_64) simp_all
    then show False using n(1) by simp
  qed
  show "span bs \<le> 2 ^ 32" "bs \<noteq> []" using sp by auto
qed

lemma in_use_split:
  assumes "(q, w) \<in> in_use a bs"
  obtains xs ys where "bs = xs @ (w, False) # ys" "q = end_of a xs + HEADER_SIZE"
proof -
  have "\<exists>xs ys. bs = xs @ (w, False) # ys \<and> q = end_of a xs + HEADER_SIZE"
    using assms
  proof (induction bs arbitrary: a)
    case (Cons b bs)
    show ?case
    proof (cases "(q, w) = (a + HEADER_SIZE, fst b) \<and> \<not> snd b")
      case True
      then have "b # bs = [] @ (w, False) # bs \<and> q = end_of a [] + HEADER_SIZE"
        by (cases b) simp
      then show ?thesis by blast
    next
      case False
      then have "(q, w) \<in> in_use (a + HEADER_SIZE + fst b) bs"
        using Cons.prems by (auto split: if_splits)
      from Cons.IH [OF this] obtain xs ys
        where "bs = xs @ (w, False) # ys" "q = end_of (a + HEADER_SIZE + fst b) xs + HEADER_SIZE"
        by blast
      then have "b # bs = (b # xs) @ (w, False) # ys \<and> q = end_of a (b # xs) + HEADER_SIZE" by simp
      then show ?thesis by blast
    qed
  qed simp
  then show thesis using that by blast
qed

lemma byte_offset:
  assumes "n \<le> 2 ^ 32" "k \<le> 2 ^ 32" "k < n \<or> n + 32 \<le> k"
  shows "\<not> (a + of_nat k) - (a + of_nat n) < (32 :: u64)"
proof (cases "n \<le> k")
  case True
  then have "(a + of_nat k) - (a + of_nat n) = (of_nat (k - n) :: u64)" by (simp add: of_nat_diff)
  moreover have "unat (of_nat (k - n) :: u64) = k - n" using assms(2) by (simp add: unat_of_nat_64)
  ultimately show ?thesis using True assms(3) by (simp add: word_less_nat_alt)
next
  case False
  then have "(a + of_nat k) - (a + of_nat n) = - (of_nat (n - k) :: u64)" by (simp add: of_nat_diff)
  moreover have "unat (of_nat (n - k) :: u64) = n - k" using assms(1) by (simp add: unat_of_nat_64)
  then have "unat (- (of_nat (n - k) :: u64)) = 2 ^ 64 - (n - k)"
    using False assms(1) by (simp add: unat_sub_if_size word_size unat_arith_simps flip: diff_0)
  ultimately show ?thesis using False assms(1) by (simp add: word_less_nat_alt)
qed

text \<open>No byte of a block in use is part of a header.\<close>

lemma payload_outside:
  assumes "(q, w) \<in> in_use a bs" "span bs \<le> 2 ^ 32" "i < w" "c \<in> set (addrs a bs)"
  shows "\<not> q + i - c < 32"
proof -
  obtain xs ys where bs: "bs = xs @ (w, False) # ys" and q: "q = end_of a xs + HEADER_SIZE"
    using in_use_split [OF assms(1)] .
  have i: "unat i < unat w" using assms(3) by (simp add: word_less_nat_alt)
  have qi: "q + i = a + of_nat (span xs + 32 + unat i)" by (simp add: q end_of_offset)
  have sp: "span xs + 32 + unat w + span ys \<le> 2 ^ 32" using assms(2) bs by simp
  consider "c \<in> set (addrs a xs)" | "c = end_of a xs" | "c \<in> set (addrs (end_of a xs + HEADER_SIZE + w) ys)"
    using assms(4) bs by auto
  then obtain n where "c = a + of_nat n" "n \<le> 2 ^ 32" "n \<le> span xs \<or> span xs + 32 + unat w \<le> n"
  proof cases
    case 1
    then obtain n where "c = a + of_nat n" "n + 32 \<le> span xs" using addrs_offset by blast
    then show thesis using that [of n] sp by simp
  next
    case 2
    then show thesis using that [of "span xs"] sp by (simp add: end_of_offset)
  next
    case 3
    then obtain n where n: "c = end_of a xs + HEADER_SIZE + w + of_nat n" "n + 32 \<le> span ys"
      using addrs_offset by blast
    then have "c = a + of_nat (span xs + 32 + unat w + n)" by (simp add: end_of_offset)
    then show thesis using that [of "span xs + 32 + unat w + n"] n(2) sp by simp
  qed
  then show ?thesis using byte_offset [of _ "span xs + 32 + unat i" a] i sp unfolding qi by auto
qed

text \<open>Two different blocks in use share no byte.\<close>

lemma payloads_disjoint:
  assumes "(q, w) \<in> in_use a bs" "(q', w') \<in> in_use a bs" "(q, w) \<noteq> (q', w')"
    and "span bs \<le> 2 ^ 32" "i < w" "j < w'"
  shows "q + i \<noteq> q' + j"
proof -
  obtain xs ys where bs: "bs = xs @ (w, False) # ys" and q: "q = end_of a xs + HEADER_SIZE"
    using in_use_split [OF assms(1)] .
  have ij: "unat i < unat w" "unat j < unat w'" using assms(5,6) by (simp_all add: word_less_nat_alt)
  have qi: "q + i = a + of_nat (span xs + 32 + unat i)" by (simp add: q end_of_offset)
  have sp: "span xs + 32 + unat w + span ys \<le> 2 ^ 32" using assms(4) bs by simp
  have differ: "a + of_nat n \<noteq> a + of_nat k" if "n \<noteq> k" "n \<le> 2 ^ 32" "k \<le> 2 ^ 32" for n k
  proof
    assume "a + of_nat n = a + of_nat k"
    then have "unat (of_nat n :: u64) = unat (of_nat k :: u64)" by simp
    then show False using that by (simp add: unat_of_nat_64)
  qed
  consider "(q', w') \<in> in_use a xs" | "(q', w') \<in> in_use (end_of a xs + HEADER_SIZE + w) ys"
    using assms(2,3) bs q by (auto simp: in_use_append)
  then show ?thesis
  proof cases
    case 1
    then obtain us vs where xs: "xs = us @ (w', False) # vs" "q' = end_of a us + HEADER_SIZE"
      using in_use_split by blast
    then have "q' + j = a + of_nat (span us + 32 + unat j)" by (simp add: end_of_offset)
    moreover have "a + of_nat (span xs + 32 + unat i) \<noteq> a + of_nat (span us + 32 + unat j)"
      by (rule differ) (use xs(1) ij sp in simp_all)
    ultimately show ?thesis unfolding qi by simp
  next
    case 2
    then obtain us vs where ys: "ys = us @ (w', False) # vs"
      "q' = end_of (end_of a xs + HEADER_SIZE + w) us + HEADER_SIZE"
      using in_use_split by blast
    then have "q' + j = a + of_nat (span xs + 32 + unat w + span us + 32 + unat j)"
      by (simp add: end_of_offset)
    moreover have "a + of_nat (span xs + 32 + unat i) \<noteq>
        a + of_nat (span xs + 32 + unat w + span us + 32 + unat j)"
      by (rule differ) (use ys(1) ij sp in simp_all)
    ultimately show ?thesis unfolding qi by metis
  qed
qed

section \<open>Allocation\<close>

lemma align_up_16:
  assumes "z \<noteq> 0" "unat z \<le> 2 ^ 64 - 16"
  shows "unat (align_up z 16) = (unat z + 15) div 16 * 16" "z \<le> align_up z 16"
    "16 \<le> unat (align_up z 16)" "unat (align_up z 16) mod 16 = 0"
proof -
  have "unat z + (2 ^ 4 - 1) < 2 ^ 64" using assms(2) by simp
  from unat_align_up_pow2 [OF _ this] show u: "unat (align_up z 16) = (unat z + 15) div 16 * 16"
    by simp
  have "0 < unat z" using assms(1) by (simp add: unat_gt_0)
  then show "16 \<le> unat (align_up z 16)" unfolding u by simp
  have "unat z \<le> (unat z + 15) div 16 * 16" by presburger
  then show "z \<le> align_up z 16" by (simp add: word_le_nat_alt u)
  show "unat (align_up z 16) mod 16 = 0" unfolding u by simp
qed

lemma taken_ok:
  assumes "block_ok b" "fits z b" "16 \<le> unat z" "unat z mod 16 = 0"
  shows "\<forall>c \<in> set (taken z b). block_ok c"
proof -
  have "unat (fst b - z - HEADER_SIZE) = unat (fst b) - unat z - 32"
    and "16 \<le> unat (fst b - z - HEADER_SIZE)" if "HEADER_SIZE + MIN_SPLIT_SIZE \<le> fst b - z"
    using split_sizes [OF _ that] assms(2) by (simp_all add: fits_def)
  then show ?thesis
    using assms by (auto simp: taken_def block_ok_def mod_diff_eq dvd_eq_mod_eq_0 [symmetric]
        intro!: dvd_diff_nat)
qed

lemma taken_coalesced:
  assumes "successively not_both_free (xs @ b # ys)" "fits z b"
  shows "successively not_both_free (xs @ taken z b @ ys)"
proof -
  have "snd b" using assms(2) by (simp add: fits_def)
  then show ?thesis
    using assms(1) by (auto simp: taken_def successively_append_iff successively_Cons not_both_free_def)
qed

text \<open>The size a block of a request of \<open>z\<close> bytes ends up with.\<close>

definition taken_size :: "u64 \<Rightarrow> block \<Rightarrow> u64" where
  "taken_size z b = fst (hd (taken z b))"

lemma taken_in_use:
  assumes "z \<le> fst b"
  shows "in_use a (taken z b @ ys) =
    insert (a + HEADER_SIZE, taken_size z b) (in_use (a + HEADER_SIZE + fst b) ys)"
  unfolding in_use_append end_taken [OF assms] by (simp add: taken_def taken_size_def)

lemma kmalloc_found:
  assumes inv: "heap_inv h (xs @ b # ys)" and z0: "z0 \<noteq> 0" "unat z0 \<le> 2 ^ 64 - 16"
    and first: "\<forall>x \<in> set xs. \<not> fits (align_up z0 16) x" "fits (align_up z0 16) b"
  shows "\<exists>h'. kmalloc h z0 = Some (end_of HEAP_VBASE xs + HEADER_SIZE, h') \<and>
    heap_inv h' (xs @ taken (align_up z0 16) b @ ys) \<and>
    headers_only (heap_mem h) (heap_mem h') (set (addrs HEAP_VBASE (xs @ taken (align_up z0 16) b @ ys)))"
proof -
  let ?z = "align_up z0 16"
  have sg: "seg (heap_mem h) 0 HEAP_VBASE (xs @ b # ys) 0" and fl: "free_list h = HEAP_VBASE"
    and sp: "span (xs @ b # ys) = 16 * 1024 * 1024"
    and ok: "\<forall>b \<in> set (xs @ b # ys). block_ok b" "successively not_both_free (xs @ b # ys)"
    using inv unfolding heap_inv_def by blast+
  note w = block_within [OF inv]
  let ?m = "take_block (heap_mem h) (end_of HEAP_VBASE xs) ?z"
  note t = take_block_result [OF sg w(2) first(2) w(1)]
  have "kmalloc_loop (heap_mem h) HEAP_VBASE ?z = Some (end_of HEAP_VBASE xs + HEADER_SIZE, ?m)"
    by (rule loop_found [OF sg w(1) first])
  then have "kmalloc h z0 = Some (end_of HEAP_VBASE xs + HEADER_SIZE, h\<lparr>heap_mem := ?m\<rparr>)"
    using z0 fl by (simp add: kmalloc_def)
  moreover have "span (xs @ taken ?z b @ ys) = 16 * 1024 * 1024"
    using sp span_taken [of ?z b] first(2) by (simp add: fits_def)
  then have "heap_inv (h\<lparr>heap_mem := ?m\<rparr>) (xs @ taken ?z b @ ys)"
    using t(1) fl ok taken_coalesced [OF ok(2) first(2)] taken_ok [OF _ first(2) align_up_16(3,4) [OF z0]]
    by (auto simp: heap_inv_def)
  moreover have "headers_only (heap_mem h) ?m (set (addrs HEAP_VBASE (xs @ taken ?z b @ ys)))"
    using t(2) by (auto simp: headers_only_def)
  ultimately show ?thesis by auto
qed

lemma kmalloc_full:
  assumes inv: "heap_inv h bs" and z0: "z0 \<noteq> 0"
    and none: "\<forall>x \<in> set bs. \<not> fits (align_up z0 16) x"
  shows "kmalloc h z0 = Some (0, h)"
proof -
  have "kmalloc_loop (heap_mem h) HEAP_VBASE (align_up z0 16) = Some (0, heap_mem h)"
    using loop_none [of "heap_mem h" 0 HEAP_VBASE bs] none block_within [OF inv] inv
    by (simp add: heap_inv_def next_of_def)
  then show ?thesis using inv z0 by (simp add: kmalloc_def heap_inv_def)
qed

lemma heap_span_aligned:
  assumes "\<forall>b \<in> set bs. block_ok b" shows "span bs mod 16 = 0"
  using assms by (induction bs) (auto simp: block_ok_def mod_eq_0_iff_dvd)

section \<open>Release\<close>

lemma unat_merged:
  assumes "32 + unat s + (32 + unat t) \<le> 2 ^ 32"
  shows "unat (s + (HEADER_SIZE + t)) = unat s + 32 + unat t"
proof -
  have "unat (HEADER_SIZE + t) = 32 + unat t" using assms by (subst unat_add_64) simp_all
  then show ?thesis using assms by (subst unat_add_64) simp_all
qed

text \<open>The list after the block at its head was freed and joined with a free successor.\<close>

lemma with_next_result:
  assumes "32 + unat w + span ys \<le> 2 ^ 32" "block_ok (w, True)" "\<forall>b \<in> set ys. block_ok b"
    and "successively not_both_free ys"
  shows "\<exists>c zs. with_next (w, True) ys = c # zs \<and> snd c \<and> span (c # zs) = 32 + unat w + span ys \<and>
    (\<forall>a. in_use a (c # zs) = in_use (a + HEADER_SIZE + w) ys) \<and>
    (\<forall>b \<in> set (c # zs). block_ok b) \<and> successively not_both_free (c # zs)"
proof (cases "\<exists>t zs. ys = (t, True) # zs")
  case True
  then obtain t zs where ys: "ys = (t, True) # zs" by blast
  have u: "unat (w + (HEADER_SIZE + t)) = unat w + 32 + unat t"
    using assms(1) ys by (intro unat_merged) simp
  have "block_ok (w + (HEADER_SIZE + t), True)"
    using assms(2,3) ys u by (simp add: block_ok_def mod_add_eq [symmetric] mod_eq_0_iff_dvd)
  then show ?thesis
    using assms(3,4) ys u by (auto simp: successively_Cons not_both_free_def algebra_simps)
next
  case False
  then have "with_next (w, True) ys = (w, True) # ys"
    by (cases "((w, True), ys)" rule: with_next.cases) auto
  then show ?thesis
    using assms False by (cases ys) (auto simp: successively_Cons not_both_free_def)
qed

lemma absorb_result:
  assumes "span (x # c # zs) \<le> 2 ^ 32" "snd c" "\<forall>b \<in> set (x # c # zs). block_ok b"
    and "successively not_both_free (us @ [x])" "successively not_both_free (c # zs)"
  shows "span (absorb x (c # zs)) = span (x # c # zs)"
    "in_use a (absorb x (c # zs)) = in_use a (x # c # zs)"
    "\<forall>b \<in> set (absorb x (c # zs)). block_ok b"
    "successively not_both_free (us @ absorb x (c # zs))"
    "absorb x (c # zs) \<noteq> []"
proof -
  have u: "unat (fst x + (HEADER_SIZE + fst c)) = unat (fst x) + 32 + unat (fst c)"
    using assms(1) by (intro unat_merged) simp
  show "span (absorb x (c # zs)) = span (x # c # zs)"
    using u by (simp add: absorb_def)
  show "in_use a (absorb x (c # zs)) = in_use a (x # c # zs)"
    using assms(2) by (simp add: absorb_def algebra_simps)
  show "\<forall>b \<in> set (absorb x (c # zs)). block_ok b"
    using assms(3) u by (auto simp: absorb_def block_ok_def mod_eq_0_iff_dvd)
  show "successively not_both_free (us @ absorb x (c # zs))"
    using assms(2,4,5)
    by (auto simp: absorb_def successively_append_iff successively_Cons not_both_free_def)
qed (simp add: absorb_def)

lemma freed_seg:
  assumes sg: "seg m 0 a (xs @ (w, False) # ys) 0" and sp: "span (xs @ (w, False) # ys) \<le> 2 ^ 32"
  shows "seg (set_free m (end_of a xs) True) 0 a (xs @ (w, True) # ys) 0"
proof (rule seg_replace [where ys = "(w, False) # ys" and zs = "(w, False) # ys", OF sg _ sp])
  let ?n = "end_of a xs"
  show "headers_only m (set_free m ?n True) {?n}"
    by (rule setters_headers_only(4) [OF headers_only_refl]) simp
  have "apart ?n c" if "c \<in> set (addrs (?n + HEADER_SIZE + w) ys)" for c
    using block_apart(2) [of "[]" "(w, False)" ys c ?n] sp that by simp
  then have "seg (set_free m ?n True) ?n (?n + HEADER_SIZE + w) ys 0 =
      seg m ?n (?n + HEADER_SIZE + w) ys 0"
    by (intro seg_cong) (simp add: hdr_other)
  then show "seg (set_free m ?n True) (last_of 0 a xs) ?n ((w, True) # ys) 0"
    using sg by (simp add: seg_append hdr_def hdr_simps)
qed simp_all

lemma merged_next_seg:
  assumes sg: "seg m 0 a (xs @ (w, True) # ys) 0" and sp: "span (xs @ (w, True) # ys) \<le> 2 ^ 32"
    and nz: "0 \<notin> set (addrs a (xs @ (w, True) # ys))"
  shows "seg (merge_next m (end_of a xs)) 0 a (xs @ with_next (w, True) ys) 0"
    and "headers_only m (merge_next m (end_of a xs)) (set (addrs (end_of a xs) ((w, True) # ys)))"
proof -
  have s1: "seg m (last_of 0 a xs) (end_of a xs) ((w, True) # ys) 0" using sg by (simp add: seg_append)
  note mn = merge_next_seg [OF s1]
  have pre: "span ((w, True) # ys) \<le> 2 ^ 32" "0 \<notin> set (addrs (end_of a xs) ((w, True) # ys))"
    using sp nz by simp_all
  show ho: "headers_only m (merge_next m (end_of a xs)) (set (addrs (end_of a xs) ((w, True) # ys)))"
    using mn(2) pre by simp
  have "with_next (w, True) ys \<noteq> []" by (cases "((w, True), ys)" rule: with_next.cases) auto
  then show "seg (merge_next m (end_of a xs)) 0 a (xs @ with_next (w, True) ys) 0"
    using mn(1) pre
    by (intro seg_replace [where zs = "(w, True) # ys", OF sg _ sp ho]) simp_all
qed

lemma merged_prev_seg:
  assumes sg: "seg m 0 a (us @ x # c # zs) 0" and sp: "span (us @ x # c # zs) \<le> 2 ^ 32"
    and nz: "0 \<notin> set (addrs a (us @ x # c # zs))"
  shows "seg (merge_prev m (end_of a (us @ [x]))) 0 a (us @ absorb x (c # zs)) 0"
    and "headers_only m (merge_prev m (end_of a (us @ [x]))) (set (addrs (end_of a us) (x # c # zs)))"
proof -
  have s1: "seg m (last_of 0 a us) (end_of a us) (x # c # zs) 0" using sg by (simp add: seg_append)
  have pre: "span (x # c # zs) \<le> 2 ^ 32" "0 \<notin> set (addrs (end_of a us) (x # c # zs))"
    using sp nz by simp_all
  note mp = merge_prev_seg [OF s1 pre]
  show ho: "headers_only m (merge_prev m (end_of a (us @ [x]))) (set (addrs (end_of a us) (x # c # zs)))"
    using mp(2) by simp
  show "seg (merge_prev m (end_of a (us @ [x]))) 0 a (us @ absorb x (c # zs)) 0"
    using mp(1)
    by (intro seg_replace [where zs = "x # c # zs", OF sg _ sp ho]) (simp_all add: absorb_def)
qed

lemma heap_addr_nonzero:
  assumes "k \<le> 16 * 1024 * 1024"
  shows "HEAP_VBASE + of_nat k \<noteq> 0"
proof
  assume "HEAP_VBASE + of_nat k = 0"
  moreover have "unat (HEAP_VBASE + of_nat k) = unat HEAP_VBASE + k"
    using assms by (subst unat_add_of_nat_64) simp_all
  ultimately show False by simp
qed

text \<open>The first block has no predecessor.\<close>

lemma merge_prev_first: "seg m 0 a (c # zs) 0 \<Longrightarrow> merge_prev m a = m"
  by (simp add: merge_prev_def hdr_def)

lemma in_use_fresh:
  assumes "span (xs @ b # ys) \<le> 2 ^ 32"
  shows "(end_of a xs + HEADER_SIZE, w) \<notin>
    in_use a xs \<union> in_use (end_of a xs + HEADER_SIZE + fst b) ys"
proof -
  let ?n = "end_of a xs"
  have "apart ?n (q - HEADER_SIZE)"
    if "(q, v) \<in> in_use a xs \<union> in_use (?n + HEADER_SIZE + fst b) ys" for q v
  proof (cases "(q, v) \<in> in_use a xs")
    case True
    then obtain us vs where us: "xs = us @ (v, False) # vs" "q = end_of a us + HEADER_SIZE"
      by (rule in_use_split)
    then have "end_of a us \<in> set (addrs a xs)" by simp
    from block_apart(1) [OF assms this] show ?thesis by (simp add: us(2))
  next
    case False
    then have "(q, v) \<in> in_use (?n + HEADER_SIZE + fst b) ys" using that by blast
    then obtain us vs where us: "ys = us @ (v, False) # vs"
      "q = end_of (?n + HEADER_SIZE + fst b) us + HEADER_SIZE"
      by (rule in_use_split)
    then have "end_of (?n + HEADER_SIZE + fst b) us \<in> set (addrs (?n + HEADER_SIZE + fst b) ys)" by auto
    from block_apart(2) [OF assms this] show ?thesis by (simp add: us(2))
  qed
  moreover have "\<not> apart ?n (?n + HEADER_SIZE - HEADER_SIZE)" by (simp add: apart_def)
  ultimately show ?thesis by blast
qed

lemma kfree_result:
  assumes inv: "heap_inv h bs" and p: "(ptr, w) \<in> in_use HEAP_VBASE bs"
  shows "\<exists>bs'. heap_inv (kfree h ptr) bs' \<and>
    in_use HEAP_VBASE bs' = in_use HEAP_VBASE bs - {(ptr, w)} \<and>
    headers_only (heap_mem h) (heap_mem (kfree h ptr)) (set (addrs HEAP_VBASE bs))"
proof -
  obtain xs ys where bs: "bs = xs @ (w, False) # ys" and ptr: "ptr = end_of HEAP_VBASE xs + HEADER_SIZE"
    using in_use_split [OF p] .
  let ?n = "end_of HEAP_VBASE xs" and ?m = "heap_mem h" and ?C = "set (addrs HEAP_VBASE bs)"
  note bw = block_within [OF inv, unfolded bs]
  have sg: "seg ?m 0 HEAP_VBASE (xs @ (w, False) # ys) 0" and fl: "free_list h = HEAP_VBASE"
    and sp: "span xs + (32 + unat w + span ys) = 16 * 1024 * 1024"
    and ok: "\<forall>b \<in> set bs. block_ok b" and co: "successively not_both_free bs"
    using inv by (simp_all add: heap_inv_def bs)
  define m1 where "m1 = set_free ?m ?n True"
  define m2 where "m2 = merge_next m1 ?n"
  have sg1: "seg m1 0 HEAP_VBASE (xs @ (w, True) # ys) 0"
    unfolding m1_def by (rule freed_seg [OF sg bw(2)])
  have pre: "span (xs @ (w, True) # ys) \<le> 2 ^ 32" "0 \<notin> set (addrs HEAP_VBASE (xs @ (w, True) # ys))"
    using bw by simp_all
  note n2 = merged_next_seg [OF sg1 pre, folded m2_def]
  obtain c zs where c: "with_next (w, True) ys = c # zs" "snd c" "span (c # zs) = 32 + unat w + span ys"
    "\<forall>a. in_use a (c # zs) = in_use (a + HEADER_SIZE + w) ys"
    "\<forall>b \<in> set (c # zs). block_ok b" "successively not_both_free (c # zs)"
    using with_next_result [of w ys] ok co pre(1)
    by (auto simp: bs block_ok_def successively_append_iff successively_Cons)
  have "ptr \<noteq> 0"
    using heap_addr_nonzero [of "span xs + 32"] sp by (simp add: ptr end_of_offset)
  then have kf: "kfree h ptr = h\<lparr>heap_mem := merge_prev m2 ?n\<rparr>"
    by (simp add: kfree_def ptr m1_def m2_def Let_def)
  have ho2: "headers_only ?m m2 ?C"
  proof (rule headers_only_trans)
    show "headers_only ?m m1 ?C"
      unfolding m1_def by (intro setters_headers_only headers_only_refl) (simp add: bs)
    show "headers_only m1 m2 ?C" using n2(2) by (auto simp: headers_only_def bs)
  qed
  have usew: "in_use HEAP_VBASE xs \<union> in_use (?n + HEADER_SIZE + w) ys =
      in_use HEAP_VBASE bs - {(ptr, w)}"
    using in_use_fresh [OF bw(2), of HEAP_VBASE w] by (auto simp: bs ptr in_use_append)
  show ?thesis
  proof (cases xs rule: rev_cases)
    case Nil
    have "merge_prev m2 ?n = m2" using n2(1) c(1) Nil merge_prev_first [of m2 HEAP_VBASE c zs] by simp
    moreover have "heap_inv (h\<lparr>heap_mem := m2\<rparr>) (c # zs)"
      using n2(1) c Nil sp fl by (simp add: heap_inv_def)
    moreover have "in_use HEAP_VBASE (c # zs) = in_use HEAP_VBASE bs - {(ptr, w)}"
      using usew c(4) Nil by (simp del: in_use.simps(2))
    ultimately show ?thesis using ho2 kf by (intro exI [of _ "c # zs"]) simp
  next
    case (snoc us x)
    have sg2: "seg m2 0 HEAP_VBASE (us @ x # c # zs) 0" using n2(1) c(1) snoc by simp
    have sp2: "span (us @ x # c # zs) = 16 * 1024 * 1024" using sp c(3) snoc by simp
    have inner: "set (addrs HEAP_VBASE (us @ x # c # zs)) \<subseteq> ?C"
      using c(1) by (cases "((w, True), ys)" rule: with_next.cases) (auto simp: bs snoc algebra_simps)
    then have nz2: "0 \<notin> set (addrs HEAP_VBASE (us @ x # c # zs))" using bw(1) bs by blast
    have "span (us @ x # c # zs) \<le> 2 ^ 32" using sp2 by simp
    note n3 = merged_prev_seg [OF sg2 this nz2]
    have x: "\<forall>b \<in> set (x # c # zs). block_ok b" "successively not_both_free (us @ [x])"
      "\<forall>b \<in> set us. block_ok b"
      using ok co c(5) by (auto simp: bs snoc successively_append_iff)
    have "span (x # c # zs) \<le> 2 ^ 32" using sp2 by simp
    note ab = absorb_result [OF this c(2) x(1,2) c(6)]
    have "heap_inv (kfree h ptr) (us @ absorb x (c # zs))"
      using n3(1) ab(1,3,4) x(3) sp2 fl kf snoc by (auto simp: heap_inv_def)
    moreover have "in_use HEAP_VBASE (us @ absorb x (c # zs)) = in_use HEAP_VBASE bs - {(ptr, w)}"
    proof -
      have "in_use (end_of HEAP_VBASE us) (x # c # zs) =
          in_use (end_of HEAP_VBASE us) [x] \<union> in_use ?n (c # zs)"
        using in_use_append [of "end_of HEAP_VBASE us" "[x]" "c # zs"] snoc by (simp del: in_use.simps)
      then show ?thesis
        unfolding usew [symmetric] by (simp only: in_use_append ab(2) c(4) snoc Un_assoc)
    qed
    moreover have "headers_only ?m (heap_mem (kfree h ptr)) ?C"
    proof -
      have "set (addrs (end_of HEAP_VBASE us) (x # c # zs)) \<subseteq> ?C" using inner by simp
      from headers_only_trans [OF ho2 headers_only_mono [OF n3(2) this]]
      show ?thesis by (simp add: kf snoc)
    qed
    ultimately show ?thesis by blast
  qed
qed

section \<open>The contract of the heap\<close>

text \<open>The block list is determined by the memory, so clients need not name it.\<close>

lemma seg_unique:
  assumes "seg m p a bs 0" "seg m p a cs 0" "0 \<notin> set (addrs a bs)" "0 \<notin> set (addrs a cs)"
    and "bs = [] \<longleftrightarrow> cs = []"
  shows "bs = cs"
  using assms
proof (induction bs arbitrary: p a cs)
  case (Cons b bs)
  then obtain c ds where cs: "cs = c # ds" by (cases cs) auto
  then have "b = c" "next_of bs (a + HEADER_SIZE + fst b) 0 = next_of ds (a + HEADER_SIZE + fst c) 0"
    using Cons.prems(1,2) by (auto simp: prod_eq_iff)
  then have "bs = [] \<longleftrightarrow> ds = []"
    using Cons.prems(3,4) cs by (cases bs; cases ds) (auto simp: next_of_def)
  then show ?case
    using Cons.IH [of a "a + HEADER_SIZE + fst b" ds] Cons.prems cs \<open>b = c\<close> by auto
qed simp

lemma heap_inv_unique: "heap_inv h bs \<Longrightarrow> heap_inv h cs \<Longrightarrow> bs = cs"
  using seg_unique [of "heap_mem h" 0 HEAP_VBASE bs cs] block_within [of h bs] block_within [of h cs]
  by (simp add: heap_inv_def)

definition heap_ok :: "heap \<Rightarrow> bool" where
  "heap_ok h \<longleftrightarrow> (\<exists>bs. heap_inv h bs)"

text \<open>The blocks handed out: address and usable size.\<close>

definition live :: "heap \<Rightarrow> (u64 \<times> u64) set" where
  "live h = {b. \<exists>bs. heap_inv h bs \<and> b \<in> in_use HEAP_VBASE bs}"

lemma live_eq: "heap_inv h bs \<Longrightarrow> live h = in_use HEAP_VBASE bs"
  unfolding live_def using heap_inv_unique by blast

text \<open>The bytes of the blocks in \<open>L\<close> are the same in both heaps.\<close>

definition bytes_kept :: "heap \<Rightarrow> heap \<Rightarrow> (u64 \<times> u64) set \<Rightarrow> bool" where
  "bytes_kept h h' L \<longleftrightarrow> (\<forall>(q, w) \<in> L. \<forall>i < w. heap_mem h' (q + i) = heap_mem h (q + i))"

lemma headers_only_kept:
  assumes "headers_only (heap_mem h) (heap_mem h') (set (addrs a bs))" "span bs \<le> 2 ^ 32"
    and "L \<subseteq> in_use a bs"
  shows "bytes_kept h h' L"
  unfolding bytes_kept_def
proof (intro ballI, clarify)
  fix q w i assume "(q, w) \<in> L" "i < w"
  then have "\<forall>c \<in> set (addrs a bs). \<not> q + i - c < 32"
    using payload_outside [OF _ assms(2)] assms(3) by blast
  then show "heap_mem h' (q + i) = heap_mem h (q + i)"
    using assms(1) by (simp add: headers_only_def)
qed

locale block_allocator =
  fixes alloc :: "'h \<Rightarrow> u64 \<Rightarrow> (u64 \<times> 'h) option"
    and release :: "'h \<Rightarrow> u64 \<Rightarrow> 'h"
    and blocks :: "'h \<Rightarrow> (u64 \<times> u64) set"
    and kept :: "'h \<Rightarrow> 'h \<Rightarrow> (u64 \<times> u64) set \<Rightarrow> bool"
    and ok :: "'h \<Rightarrow> bool"
  assumes alloc_returns: "ok h \<Longrightarrow> z \<noteq> 0 \<Longrightarrow> unat z \<le> 2 ^ 64 - 16 \<Longrightarrow> \<exists>p h'. alloc h z = Some (p, h')"
    and alloc_law: "ok h \<Longrightarrow> z \<noteq> 0 \<Longrightarrow> unat z \<le> 2 ^ 64 - 16 \<Longrightarrow> alloc h z = Some (p, h') \<Longrightarrow>
      ok h' \<and> kept h h' (blocks h) \<and>
      (p = 0 \<and> blocks h' = blocks h \<or>
       p \<noteq> 0 \<and> (\<exists>w. z \<le> w \<and> (p, w) \<notin> blocks h \<and> blocks h' = insert (p, w) (blocks h)))"
    and release_law: "ok h \<Longrightarrow> (p, w) \<in> blocks h \<Longrightarrow>
      ok (release h p) \<and> blocks (release h p) = blocks h - {(p, w)} \<and>
      kept h (release h p) (blocks h - {(p, w)})"
    and kept_trans: "kept h h1 L \<Longrightarrow> kept h1 h2 L \<Longrightarrow> kept h h2 L"
begin

lemma alloc_release:
  assumes "ok h" "z \<noteq> 0" "unat z \<le> 2 ^ 64 - 16" "alloc h z = Some (p, h')" "p \<noteq> 0"
  shows "ok (release h' p)" and "blocks (release h' p) = blocks h" and "kept h (release h' p) (blocks h)"
proof -
  note a = alloc_law [OF assms(1-4)]
  then obtain w where w: "(p, w) \<notin> blocks h" "blocks h' = insert (p, w) (blocks h)" "ok h'"
    "kept h h' (blocks h)"
    using assms(5) by blast
  have r: "blocks h' - {(p, w)} = blocks h" using w(1,2) by simp
  note f = release_law [OF w(3), of p w, unfolded r]
  show "ok (release h' p)" "blocks (release h' p) = blocks h" using f w(2) by simp_all
  show "kept h (release h' p) (blocks h)" using kept_trans [OF w(4)] f w(2) by simp
qed

end

lemma kmalloc_contract:
  assumes "heap_ok h" "z \<noteq> 0" "unat z \<le> 2 ^ 64 - 16"
  shows "\<exists>p h'. kmalloc h z = Some (p, h') \<and> heap_ok h' \<and> bytes_kept h h' (live h) \<and>
    (p = 0 \<and> h' = h \<and> (\<forall>bs. heap_inv h bs \<longrightarrow> (\<forall>b \<in> set bs. snd b \<longrightarrow> fst b < align_up z 16)) \<or>
     p \<noteq> 0 \<and> unat p mod 16 = 0 \<and>
       (\<exists>w. z \<le> w \<and> (p, w) \<notin> live h \<and> live h' = insert (p, w) (live h)))"
proof -
  obtain bs where inv: "heap_inv h bs" using assms(1) by (auto simp: heap_ok_def)
  show ?thesis
  proof (cases "\<exists>b \<in> set bs. fits (align_up z 16) b")
    case False
    then have "\<forall>cs. heap_inv h cs \<longrightarrow> (\<forall>b \<in> set cs. snd b \<longrightarrow> fst b < align_up z 16)"
      using heap_inv_unique [OF inv] by (auto simp: fits_def not_le)
    then show ?thesis
      using kmalloc_full [OF inv assms(2)] False assms(1) by (auto simp: bytes_kept_def)
  next
    case True
    then obtain xs b ys where bs: "bs = xs @ b # ys" "fits (align_up z 16) b"
      "\<forall>x \<in> set xs. \<not> fits (align_up z 16) x"
      using split_list_first_prop [OF True] by blast
    let ?z = "align_up z 16" and ?n = "end_of HEAP_VBASE xs"
    obtain h' where h': "kmalloc h z = Some (?n + HEADER_SIZE, h')"
      "heap_inv h' (xs @ taken ?z b @ ys)"
      "headers_only (heap_mem h) (heap_mem h') (set (addrs HEAP_VBASE (xs @ taken ?z b @ ys)))"
      using kmalloc_found [OF inv [unfolded bs(1)] assms(2,3) bs(3,2)] by blast
    have fb: "?z \<le> fst b" "snd b" using bs(2) by (simp_all add: fits_def)
    have lh: "live h = in_use HEAP_VBASE xs \<union> in_use (?n + HEADER_SIZE + fst b) ys"
      unfolding live_eq [OF inv] bs(1) using fb(2) by (simp add: in_use_append)
    have lh': "live h' = insert (?n + HEADER_SIZE, taken_size ?z b) (live h)"
      unfolding live_eq [OF h'(2)] lh using taken_in_use [OF fb(1), of ?n ys] by (auto simp: in_use_append)
    have sp: "span xs + (32 + unat (fst b) + span ys) = 16 * 1024 * 1024"
      and ok: "\<forall>c \<in> set xs. block_ok c"
      using inv by (simp_all add: heap_inv_def bs(1))
    have addr: "?n + HEADER_SIZE = HEAP_VBASE + of_nat (span xs + 32)" by (simp add: end_of_offset)
    have "unat (HEAP_VBASE + of_nat (span xs + 32)) = unat HEAP_VBASE + (span xs + 32)"
      using sp by (subst unat_add_of_nat_64) simp_all
    then have al: "unat (?n + HEADER_SIZE) mod 16 = 0"
      unfolding addr using heap_span_aligned [OF ok] by (simp add: mod_eq_0_iff_dvd)
    have big: "z \<le> taken_size ?z b"
      using align_up_16(2) [OF assms(2,3)] fb(1) by (auto simp: taken_size_def taken_def)
    have "(?n + HEADER_SIZE, taken_size ?z b) \<notin> live h"
      unfolding lh by (rule in_use_fresh) (use sp in simp)
    then show ?thesis
      using h' lh' al big heap_addr_nonzero [of "span xs + 32"] sp addr
        headers_only_kept [OF h'(3) block_within(2) [OF h'(2)], of "live h"] live_eq [OF h'(2)]
      by (auto simp: heap_ok_def)
  qed
qed

interpretation hp: block_allocator kmalloc kfree live bytes_kept heap_ok
proof
  fix h :: heap and z :: u64 assume "heap_ok h" "z \<noteq> 0" "unat z \<le> 2 ^ 64 - 16"
  then show "\<exists>p h'. kmalloc h z = Some (p, h')" using kmalloc_contract by blast
next
  fix h :: heap and z :: u64 and p h'
  assume h: "heap_ok h" "z \<noteq> 0" "unat z \<le> 2 ^ 64 - 16" and k: "kmalloc h z = Some (p, h')"
  show "heap_ok h' \<and> bytes_kept h h' (live h) \<and>
      (p = 0 \<and> live h' = live h \<or>
       p \<noteq> 0 \<and> (\<exists>w. z \<le> w \<and> (p, w) \<notin> live h \<and> live h' = insert (p, w) (live h)))"
    using kmalloc_contract [OF h] k by auto
next
  fix h p w assume "heap_ok h" "(p, w) \<in> live h"
  then obtain bs where inv: "heap_inv h bs" and p: "(p, w) \<in> in_use HEAP_VBASE bs"
    by (auto simp: live_def)
  obtain bs' where b: "heap_inv (kfree h p) bs'"
    "in_use HEAP_VBASE bs' = in_use HEAP_VBASE bs - {(p, w)}"
    "headers_only (heap_mem h) (heap_mem (kfree h p)) (set (addrs HEAP_VBASE bs))"
    using kfree_result [OF inv p] by blast
  then show "heap_ok (kfree h p) \<and> live (kfree h p) = live h - {(p, w)} \<and>
      bytes_kept h (kfree h p) (live h - {(p, w)})"
    using headers_only_kept [OF b(3) block_within(2) [OF inv], of "live h - {(p, w)}"]
    by (auto simp: heap_ok_def live_eq [OF inv] live_eq [OF b(1)])
next
  fix h h1 h2 L assume "bytes_kept h h1 L" "bytes_kept h1 h2 L"
  then show "bytes_kept h h2 L" unfolding bytes_kept_def by fastforce
qed

section \<open>Properties\<close>

definition fresh_heap :: "mem \<Rightarrow> heap" where
  "fresh_heap m = \<lparr>heap_mem = set_next (set_prev (set_free (set_size m HEAP_VBASE (HEAP_SIZE - HEADER_SIZE))
     HEAP_VBASE True) HEAP_VBASE 0) HEAP_VBASE 0, free_list = HEAP_VBASE\<rparr>"

lemma fresh_heap_inv: "heap_inv (fresh_heap m) [(HEAP_SIZE - HEADER_SIZE, True)]"
  by (simp add: heap_inv_def fresh_heap_def hdr_def hdr_simps next_of_def block_ok_def)

lemma fresh_heap_ok: "heap_ok (fresh_heap m)" and fresh_heap_live: "live (fresh_heap m) = {}"
  using fresh_heap_inv [of m] live_eq [OF fresh_heap_inv] by (auto simp: heap_ok_def)

lemma register_in_result:
  "case register_in rs r of None \<Rightarrow> \<forall>x \<in> set rs. lr_used x | Some rs' \<Rightarrow> r \<in> set rs'"
  by (induction rs) (auto split: option.splits)

text \<open>
  Heap initialisation. \<^verbatim>\<open>heap_init\<close> panics exactly when every lazy-region slot is
  taken; otherwise the whole 16 MiB range is demand-paged and the heap is one free block that
  covers it, with nothing handed out.
\<close>

theorem heap_init_correct:
  "case heap_init s h of
     Inl e \<Rightarrow> e = Panic ''heap: failed to register lazy region'' [] \<and> (\<forall>r \<in> set (lazy_regions s). lr_used r)
   | Inr (s', h') \<Rightarrow> heap_ok h' \<and> live h' = {} \<and> heap_inv h' [(HEAP_SIZE - HEADER_SIZE, True)] \<and>
       (\<exists>r \<in> set (lazy_regions s'). \<forall>x. HEAP_VBASE \<le> x \<longrightarrow> x < HEAP_VBASE + HEAP_SIZE \<longrightarrow> covers r x)"
proof (cases "register_in (lazy_regions s) \<lparr>lr_start = HEAP_VBASE, lr_end = HEAP_VBASE + HEAP_SIZE,
    lr_flags = VMM_WRITABLE, lr_used = True\<rparr>")
  case None
  then show ?thesis
    using register_in_result [of "lazy_regions s" "\<lparr>lr_start = HEAP_VBASE,
        lr_end = HEAP_VBASE + HEAP_SIZE, lr_flags = VMM_WRITABLE, lr_used = True\<rparr>"]
    by (simp add: heap_init_def vmm_register_lazy_region_def)
next
  case (Some rs)
  then have "\<lparr>lr_start = HEAP_VBASE, lr_end = HEAP_VBASE + HEAP_SIZE, lr_flags = VMM_WRITABLE,
      lr_used = True\<rparr> \<in> set rs"
    using register_in_result [of "lazy_regions s" "\<lparr>lr_start = HEAP_VBASE,
        lr_end = HEAP_VBASE + HEAP_SIZE, lr_flags = VMM_WRITABLE, lr_used = True\<rparr>"] by simp
  then show ?thesis
    using Some fresh_heap_inv [of "heap_mem h"] fresh_heap_ok [of "heap_mem h"]
      fresh_heap_live [of "heap_mem h"]
    by (simp add: heap_init_def vmm_register_lazy_region_def fresh_heap_def Let_def)
      (auto simp: covers_def intro!: bexI)
qed

definition blank_vmm :: vmm where
  "blank_vmm = \<lparr>vmm_pmm = \<lparr>pmm_mem = (\<lambda>_. 0), pmm_bitmap = 0, pmm_frame_count = 0,
       pmm_next_search_index = 0, pmm_hhdm_offset = 0, pmm_free_frames = 0\<rparr>,
     vmm_hhdm_offset = 0, dynamic_next_vaddr = VMM_DYNAMIC_VBASE, mmio_next_vaddr = VMM_MMIO_VBASE,
     lazy_regions = replicate MAX_LAZY_REGIONS \<lparr>lr_start = 0, lr_end = 0, lr_flags = 0, lr_used = False\<rparr>,
     vmm_cr3 = 0, invlpg_log = []\<rparr>"

theorem heap_init_correct_witness:
  "\<exists>s' h'. heap_init blank_vmm \<lparr>heap_mem = (\<lambda>_. 0), free_list = 0\<rparr> = Inr (s', h') \<and> heap_ok h' \<and>
     live h' = {} \<and> (\<exists>r \<in> set (lazy_regions s'). covers r 0xffffffff90000000)"
proof -
  have "\<not> (\<forall>r \<in> set (lazy_regions blank_vmm). lr_used r)"
    by (simp add: blank_vmm_def MAX_LAZY_REGIONS_def)
  then show ?thesis
    using heap_init_correct [of blank_vmm "\<lparr>heap_mem = (\<lambda>_. 0), free_list = 0\<rparr>"]
    by (fastforce split: sum.splits)
qed

text \<open>
  C4: allocation. For every request between 1 and $2^{64} - 16$ bytes on a well-formed heap the
  search ends; it returns NULL and changes nothing only when no free block holds the rounded
  request, and otherwise a 16-byte aligned block that was not handed out before and has at least the
  requested size; no byte of any block in use changes.
\<close>

theorem kmalloc_correct:
  assumes "heap_ok h" and "z \<noteq> 0" and "unat z \<le> 2 ^ 64 - 16"
  shows "\<exists>p h'. kmalloc h z = Some (p, h') \<and> heap_ok h' \<and> bytes_kept h h' (live h) \<and>
    (p = 0 \<and> h' = h \<and> (\<forall>bs. heap_inv h bs \<longrightarrow> (\<forall>b \<in> set bs. snd b \<longrightarrow> fst b < align_up z 16)) \<or>
     p \<noteq> 0 \<and> unat p mod 16 = 0 \<and>
       (\<exists>w. z \<le> w \<and> (p, w) \<notin> live h \<and> live h' = insert (p, w) (live h)))"
  by (rule kmalloc_contract [OF assms])

theorem kmalloc_correct_witness:
  "\<exists>p h' w. kmalloc (fresh_heap (\<lambda>_. 0)) 100 = Some (p, h') \<and> p \<noteq> 0 \<and> 100 \<le> w \<and> live h' = {(p, w)}"
proof -
  have "\<exists>b \<in> set [(HEAP_SIZE - HEADER_SIZE, True)]. snd b \<and> \<not> fst b < align_up 100 16"
    by (simp add: align_up_def)
  then have "\<not> (\<forall>bs. heap_inv (fresh_heap (\<lambda>_. 0)) bs \<longrightarrow> (\<forall>b \<in> set bs. snd b \<longrightarrow> fst b < align_up 100 16))"
    using fresh_heap_inv by blast
  then show ?thesis
    using kmalloc_correct [OF fresh_heap_ok, of 100 "\<lambda>_. 0"] by (auto simp: fresh_heap_live)
qed

text \<open>
  C5: release. Freeing a block that was handed out keeps the heap well-formed (neighbouring
  free blocks are joined again), takes exactly that block out of use and changes no byte of any
  other block in use; allocating and then freeing gives back the same blocks in use.
\<close>

theorem kfree_correct:
  assumes "heap_ok h" and "(p, w) \<in> live h"
  shows "heap_ok (kfree h p) \<and> live (kfree h p) = live h - {(p, w)} \<and>
    bytes_kept h (kfree h p) (live h - {(p, w)})"
  using assms by (rule hp.release_law)

theorem kfree_correct_witness:
  "\<exists>p h'. kmalloc (fresh_heap (\<lambda>_. 0)) 100 = Some (p, h') \<and> live (kfree h' p) = {}"
proof -
  obtain p h' where k: "kmalloc (fresh_heap (\<lambda>_. 0)) 100 = Some (p, h')" "heap_ok h'"
    "p = 0 \<and> live h' = {} \<or> (\<exists>w. live h' = {(p, w)})"
    using kmalloc_contract [OF fresh_heap_ok, of 100 "\<lambda>_. 0"] by (auto simp: fresh_heap_live)
  show ?thesis
  proof (cases "live h' = {}")
    case True
    then show ?thesis using k by (auto simp: kfree_def)
  next
    case False
    then obtain w where "live h' = {(p, w)}" using k by blast
    then show ?thesis using kfree_correct [OF k(2), of p w] k(1) by auto
  qed
qed


text \<open>A heap with two blocks in use.\<close>

lemma two_blocks:
  "\<exists>h. live h = {(0xffffffff90000020, 112), (0xffffffff900000b0, 64)}"
proof -
  let ?b = "(HEAP_SIZE - HEADER_SIZE, True)" and ?c = "(HEAP_SIZE - HEADER_SIZE - 112 - HEADER_SIZE, True)"
  obtain h1 where "heap_inv h1 ([] @ taken (align_up 100 16) ?b @ [])"
    using kmalloc_found [of "fresh_heap (\<lambda>_. 0)" "[]" ?b "[]" 100] fresh_heap_inv
    by (auto simp: fits_def align_up_def)
  then have "heap_inv h1 ([(112, False)] @ ?c # [])" by (simp add: taken_def align_up_def)
  then obtain h2 where "heap_inv h2 ([(112, False)] @ taken (align_up 50 16) ?c @ [])"
    using kmalloc_found [of h1 "[(112, False)]" ?c "[]" 50] by (auto simp: fits_def align_up_def)
  then have "live h2 = in_use HEAP_VBASE ([(112, False)] @ taken (align_up 50 16) ?c @ [])"
    by (rule live_eq)
  then show ?thesis by (intro exI [of _ h2]) (auto simp: taken_def align_up_def)
qed




text \<open>
  A request within 15 bytes of $2^{64}$ is not refused: rounding it up wraps to 0, and the
  first free block is split so that the caller gets a pointer to a block of size 0.
\<close>

theorem kmalloc_wraps:
  assumes "heap_inv h (xs @ (s, True) # ys)" and "\<forall>x \<in> set xs. \<not> snd x" and "48 \<le> s"
    and "2 ^ 64 - 16 < unat z"
  shows "\<exists>p h'. kmalloc h z = Some (p, h') \<and> p \<noteq> 0 \<and> blk_size (heap_mem h') (p - HEADER_SIZE) = 0"
proof -
  let ?n = "end_of HEAP_VBASE xs" and ?b = "(s, True)"
  have "align_up z 16 = 0"
  proof -
    have z: "unat z < 2 ^ 64" using unat_lt_64 [of z] by simp
    have "unat (z + 15) = unat z + 15 - 2 ^ 64"
      using assms(4) z by (simp add: unat_word_ariths) (simp add: mod_if)
    then have "unat (z + 15) < 16" using z by simp
    moreover have "align_up z 16 = align_down (z + 15) (2 ^ 4)" by (simp add: align_up_as_down)
    ultimately show ?thesis
      using unat_align_down_pow2 [of 4 "z + 15"] by (intro word64_eqI) simp
  qed
  moreover have zn: "z \<noteq> 0" using assms(4) by auto
  have sg: "seg (heap_mem h) 0 HEAP_VBASE (xs @ ?b # ys) 0" and fl: "free_list h = HEAP_VBASE"
    and sp: "span xs + (32 + unat s + span ys) = 16 * 1024 * 1024"
    using assms(1) by (simp_all add: heap_inv_def)
  note w = block_within [OF assms(1)]
  have f: "fits 0 ?b" "\<forall>x \<in> set xs. \<not> fits 0 x" using assms(2) by (auto simp: fits_def)
  note t = take_block_result(1) [OF sg w(2) f(1) w(1)]
  have "hdr (take_block (heap_mem h) ?n 0) ?n = (0, False, last_of 0 HEAP_VBASE xs, ?n + 32)"
    using t assms(3) by (simp add: seg_append taken_def next_of_def)
  then have "blk_size (take_block (heap_mem h) ?n 0) ?n = 0" by (simp add: hdr_def)
  moreover have "kmalloc_loop (heap_mem h) HEAP_VBASE 0 = Some (?n + HEADER_SIZE, take_block (heap_mem h) ?n 0)"
    by (rule loop_found [OF sg w(1) f(2,1)])
  moreover have "?n + HEADER_SIZE \<noteq> 0"
    using heap_addr_nonzero [of "span xs + 32"] sp by (simp add: end_of_offset)
  ultimately show ?thesis using zn fl by (simp add: kmalloc_def)
qed

theorem kmalloc_wraps_witness:
  "\<exists>p h'. kmalloc (fresh_heap (\<lambda>_. 0)) 0xfffffffffffffff8 = Some (p, h') \<and> p \<noteq> 0"
  using kmalloc_wraps [of "fresh_heap (\<lambda>_. 0)" "[]" "HEAP_SIZE - HEADER_SIZE" "[]" "0xfffffffffffffff8"]
    fresh_heap_inv by auto

end
