(* ===== verification/Arch_Mmu.thy ===== *)
theory Arch_Mmu
  imports Arch_Vmm
begin

text \<open>
  What the processor's four-level page walk sees, and the invariant under which the
  operations of \<^verbatim>\<open>vmm.c\<close> keep it: the tables reachable from \<^verbatim>\<open>CR3\<close> form a tree
  in frames that the allocator neither hands out nor uses for its bitmap.
\<close>

section \<open>The page walk\<close>

text \<open>
  \<open>follow\<close> descends through present entries that are not large-page leaves (bit 7)
  and gives the physical address of the table it ends in.
\<close>

fun follow :: "mem \<Rightarrow> u64 \<Rightarrow> u64 \<Rightarrow> u32 list \<Rightarrow> u64 option" where
  "follow m h t [] = Some t"
| "follow m h t (i # is) =
     (let e = load64 m (slot (t + h) i)
      in if e AND 1 \<noteq> 0 \<and> e AND 128 = 0 then follow m h (e AND PTE_ADDR_MASK) is else None)"

definition va_path :: "u64 \<Rightarrow> u32 list" where
  "va_path v = (case page_table_indices v of (a, b, c, d) \<Rightarrow> [a, b, c])"

definition va_leaf :: "u64 \<Rightarrow> u32" where
  "va_leaf v = (case page_table_indices v of (a, b, c, d) \<Rightarrow> d)"

text \<open>The 4 KiB page-table entry that governs an address; 0 if the walk reaches no page table.\<close>

definition walk_entry :: "mem \<Rightarrow> u64 \<Rightarrow> u64 \<Rightarrow> u64 \<Rightarrow> u64" where
  "walk_entry m h t v =
     (case follow m h t (va_path v) of None \<Rightarrow> 0 | Some pt \<Rightarrow> load64 m (slot (pt + h) (va_leaf v)))"

definition page_entry :: "vmm \<Rightarrow> u64 \<Rightarrow> u64" where
  "page_entry s v = walk_entry (vmm_mem s) (vmm_hhdm_offset s) (vmm_cr3 s AND PTE_ADDR_MASK) v"

definition reaches :: "mem \<Rightarrow> u64 \<Rightarrow> u64 \<Rightarrow> u32 list \<Rightarrow> u64 \<Rightarrow> bool" where
  "reaches m h t a u \<longleftrightarrow> length a \<le> 3 \<and> (\<forall>i \<in> set a. i < 512) \<and> follow m h t a = Some u"

text \<open>No entry on the way to \<open>b\<close> maps a large page.\<close>

definition small_path :: "mem \<Rightarrow> u64 \<Rightarrow> u64 \<Rightarrow> u32 list \<Rightarrow> bool" where
  "small_path m h t b \<longleftrightarrow>
     (\<forall>a i c u. b = a @ i # c \<longrightarrow> follow m h t a = Some u \<longrightarrow>
        load64 m (slot (u + h) i) AND 1 \<noteq> 0 \<longrightarrow> load64 m (slot (u + h) i) AND 128 = 0)"

definition phys_table :: "u64 \<Rightarrow> bool" where
  "phys_table u \<longleftrightarrow> u AND PTE_ADDR_MASK = u"

definition off_limits :: "pmm \<Rightarrow> u64 \<Rightarrow> bool" where
  "off_limits p u \<longleftrightarrow> u \<notin> pmm_avail p \<and>
     (\<forall>i < bitmap_byte_count (pmm_frame_count p). bitmap_home p i \<noteq> u div PAGE_SIZE)"

definition tables_ok :: "pmm \<Rightarrow> u64 \<Rightarrow> bool" where
  "tables_ok p t \<longleftrightarrow> phys_table t \<and>
     (\<forall>a u. reaches (pmm_mem p) (pmm_hhdm_offset p) t a u \<longrightarrow> off_limits p u) \<and>
     (\<forall>a b u. reaches (pmm_mem p) (pmm_hhdm_offset p) t a u \<longrightarrow>
        reaches (pmm_mem p) (pmm_hhdm_offset p) t b u \<longrightarrow> a = b)"

definition vmm_inv :: "vmm \<Rightarrow> bool" where
  "vmm_inv s \<longleftrightarrow> pmm_inv (vmm_pmm s) \<and> vmm_hhdm_offset s = pmm_hhdm_offset (vmm_pmm s) \<and>
     tables_ok (vmm_pmm s) (vmm_cr3 s AND PTE_ADDR_MASK)"

section \<open>Addresses of table entries\<close>

lemma and_addr_mask: "x AND PTE_ADDR_MASK = push_bit 12 (take_bit 40 (drop_bit 12 x))" for x :: u64
proof -
  have "x AND PTE_ADDR_MASK = x AND push_bit 12 (mask 40)" by (simp add: mask_eq_exp_minus_1)
  also have "\<dots> = push_bit 12 (take_bit 40 (drop_bit 12 x))"
    by (rule bit_word_eqI) (auto simp: bit_simps)
  finally show ?thesis .
qed

lemma phys_table_and [simp]: "phys_table (x AND PTE_ADDR_MASK)"
  by (simp add: phys_table_def and.assoc)

lemma phys_table_unat:
  assumes "phys_table u"
  shows "unat u < 2 ^ 52" and "unat u = 4096 * (unat u div 4096)"
proof -
  define q where "q = take_bit 40 (drop_bit 12 u)"
  have u: "u = push_bit 12 q"
    using assms unfolding phys_table_def and_addr_mask q_def by simp
  have "unat q < 2 ^ 40"
    unfolding q_def unsigned_take_bit_eq by (rule take_bit_nat_less_exp)
  then have "unat u = unat q * 4096"
    by (simp add: u push_bit_eq_mult unat_mult_64)
  with \<open>unat q < 2 ^ 40\<close> show "unat u < 2 ^ 52" and "unat u = 4096 * (unat u div 4096)"
    by simp_all
qed

lemma unat_slot_offset:
  fixes i :: u32
  assumes "phys_table u" and "i < 512"
  shows "unat (u + 8 * ucast i) = unat u + 8 * unat i" and "unat i < 512"
proof -
  show i: "unat i < 512" using assms(2) by (simp add: word_less_nat_alt)
  have "unat (ucast i :: u64) = unat i" by (rule unat_ucast_u32)
  then have "unat (8 * ucast i :: u64) = 8 * unat i"
    using i by (simp add: unat_mult_64)
  then show "unat (u + 8 * ucast i) = unat u + 8 * unat i"
    using i phys_table_unat(1) [OF assms(1)] by (simp add: unat_add_64)
qed

lemma multiples_apart:
  fixes x y :: u64
  assumes "unat x = 8 * a" "unat y = 8 * b" "a \<noteq> b" "b < 2 ^ 50"
  shows "8 \<le> x - y"
proof -
  have "8 \<le> unat (x - y)"
    using assms unat_lt_64 [of x] unat_lt_64 [of y]
    by (simp add: unat_sub_if_size word_size) linarith
  then show ?thesis by (simp add: word_le_nat_alt)
qed

lemma slot_apart:
  fixes i j :: u32
  assumes "phys_table u" "phys_table w" "i < 512" "j < 512" and "u \<noteq> w \<or> i \<noteq> j"
  shows "8 \<le> slot (u + h) i - slot (w + h) j"
proof -
  obtain q where q: "unat u = 4096 * q" and qb: "unat u < 2 ^ 52"
    using phys_table_unat [OF assms(1)] by blast
  obtain r where r: "unat w = 4096 * r" and rb: "unat w < 2 ^ 52"
    using phys_table_unat [OF assms(2)] by blast
  note x = unat_slot_offset [OF assms(1,3)]
  note y = unat_slot_offset [OF assms(2,4)]
  have "512 * q + unat i \<noteq> 512 * r + unat j"
  proof
    assume eq: "512 * q + unat i = 512 * r + unat j"
    then have "q = r" using x(2) y(2) by linarith
    with eq have "u = w \<and> i = j" using q r by (simp add: word_unat_eq_iff)
    with assms(5) show False by simp
  qed
  moreover have "unat (u + 8 * ucast i) = 8 * (512 * q + unat i)"
    unfolding x(1) q by simp
  moreover have "unat (w + 8 * ucast j) = 8 * (512 * r + unat j)"
    unfolding y(1) r by simp
  moreover have "512 * r + unat j < 2 ^ 50" using y(2) r rb by simp
  ultimately have "8 \<le> (u + 8 * ucast i) - (w + 8 * ucast j)"
    by (intro multiples_apart)
  then show ?thesis by (simp add: slot_def algebra_simps)
qed

text \<open>Every byte of an entry lies in the frame of its table.\<close>

lemma entry_byte_frame:
  assumes "phys_table u" "i < 512" "k < 8"
  shows "(slot (u + h) i + k - h) div PAGE_SIZE = u div PAGE_SIZE"
proof -
  note x = unat_slot_offset [OF assms(1,2)] phys_table_unat [OF assms(1)]
  have k: "unat k < 8" using assms(3) by (simp add: word_less_nat_alt)
  have "unat (u + 8 * ucast i + k) = unat u + 8 * unat i + unat k"
    using x k by (simp add: unat_add_64)
  also have "\<dots> div 4096 = unat u div 4096"
    using x k by linarith
  finally have "(u + 8 * ucast i + k) div PAGE_SIZE = u div PAGE_SIZE"
    by (intro word64_eqI) (simp add: unat_div_64)
  then show ?thesis by (simp add: slot_def algebra_simps)
qed

section \<open>Walks after memory changes\<close>

lemma follow_append:
  "follow m h t (a @ b) = (case follow m h t a of None \<Rightarrow> None | Some u \<Rightarrow> follow m h u b)"
  by (induction a arbitrary: t) (auto simp: Let_def)

lemma follow_phys_table: "phys_table t \<Longrightarrow> follow m h t a = Some u \<Longrightarrow> phys_table u"
proof (induction a arbitrary: t)
  case (Cons i a)
  then have "follow m h (load64 m (slot (t + h) i) AND PTE_ADDR_MASK) a = Some u"
    by (simp add: Let_def split: if_splits)
  then show ?case by (rule Cons.IH [rotated]) simp
qed simp

lemma follow_cong:
  assumes "\<And>a i c u. b = a @ i # c \<Longrightarrow> follow m h t a = Some u \<Longrightarrow>
    load64 m' (slot (u + h) i) = load64 m (slot (u + h) i)"
  shows "follow m' h t b = follow m h t b"
  using assms
proof (induction b arbitrary: t)
  case Nil
  then show ?case by simp
next
  case (Cons i b)
  have eq: "load64 m' (slot (t + h) i) = load64 m (slot (t + h) i)"
    using Cons.prems [of "[]" i b t] by simp
  have "follow m' h (load64 m (slot (t + h) i) AND PTE_ADDR_MASK) b =
      follow m h (load64 m (slot (t + h) i) AND PTE_ADDR_MASK) b"
    if "load64 m (slot (t + h) i) AND 1 \<noteq> 0" "load64 m (slot (t + h) i) AND 128 = 0"
  proof (rule Cons.IH)
    fix a j c u
    assume "b = a @ j # c" "follow m h (load64 m (slot (t + h) i) AND PTE_ADDR_MASK) a = Some u"
    then show "load64 m' (slot (u + h) j) = load64 m (slot (u + h) j)"
      using Cons.prems [of "i # a" j c u] that by (simp add: Let_def)
  qed
  with eq show ?case by (simp add: Let_def)
qed

text \<open>Memory changed outside the reachable tables.\<close>

definition same_tables :: "mem \<Rightarrow> mem \<Rightarrow> u64 \<Rightarrow> u64 \<Rightarrow> bool" where
  "same_tables m m' h t \<longleftrightarrow> (\<forall>a u i. reaches m h t a u \<longrightarrow> i < 512 \<longrightarrow>
     load64 m' (slot (u + h) i) = load64 m (slot (u + h) i))"

lemma same_tablesD:
  assumes "same_tables m m' h t" "follow m h t a = Some u" "length a \<le> 3" "\<forall>i \<in> set a. i < 512"
    and "i < 512"
  shows "load64 m' (slot (u + h) i) = load64 m (slot (u + h) i)"
  using assms unfolding same_tables_def reaches_def by blast

lemma same_tables_follow:
  assumes "same_tables m m' h t" and "length b \<le> 4" and "\<forall>i \<in> set b. i < 512"
  shows "follow m' h t b = follow m h t b"
  using assms by (intro follow_cong) (rule same_tablesD, auto)

lemma same_tables_reaches:
  "same_tables m m' h t \<Longrightarrow> reaches m' h t a u = reaches m h t a u"
  using same_tables_follow [of m m' h t a] by (auto simp: reaches_def)

lemma index_mask_less: "ucast (x AND 511 :: u64) < (512 :: u32)"
proof -
  have "x AND 511 = take_bit 9 x" by (simp add: take_bit_eq_mask mask_eq_exp_minus_1)
  then have "unat (x AND 511) < 512"
    using take_bit_nat_less_exp [of 9 "unat x"] by (simp add: unsigned_take_bit_eq)
  then show ?thesis
    by (auto simp: word_less_nat_alt unsigned_ucast_eq
        intro: le_less_trans [OF take_bit_nat_less_eq_self])
qed

lemma va_path_facts [simp]: "length (va_path v) = 3" "i \<in> set (va_path v) \<Longrightarrow> i < 512"
  "va_leaf v < 512"
  by (auto simp: va_path_def va_leaf_def page_table_indices_def index_mask_less)

lemma va_path_reaches: "follow m h t (va_path v) = Some u \<longleftrightarrow> reaches m h t (va_path v) u"
  by (auto simp: reaches_def)

lemma same_tables_walk:
  assumes "same_tables m m' h t"
  shows "walk_entry m' h t v = walk_entry m h t v"
  using same_tables_follow [OF assms, of "va_path v"] same_tablesD [OF assms, of "va_path v"]
  by (simp add: walk_entry_def split: option.split)

lemma same_tables_small:
  assumes "same_tables m m' h t" and "length b \<le> 3" and "\<forall>i \<in> set b. i < 512"
  shows "small_path m' h t b = small_path m h t b"
proof -
  have "follow m' h t a = follow m h t a" and "follow m h t a = Some u \<Longrightarrow>
      load64 m' (slot (u + h) i) = load64 m (slot (u + h) i)" if "b = a @ i # c" for a i c u
    using that assms same_tables_follow [OF assms(1), of a] same_tablesD [OF assms(1), of a u i]
    by simp_all
  then show ?thesis unfolding small_path_def by metis
qed

section \<open>A fresh frame\<close>

lemma phys_table_frame: "phys_table u \<Longrightarrow> u div PAGE_SIZE * PAGE_SIZE = u"
proof -
  assume "phys_table u"
  from phys_table_unat [OF this] have "unat (u div PAGE_SIZE * PAGE_SIZE) = unat u"
    by (simp add: unat_frame_addr unat_div_64)
  then show ?thesis by (rule word64_eqI)
qed

lemma frame_phys_table:
  assumes "unat f < 2 ^ 40"
  shows "phys_table (f * PAGE_SIZE)"
proof -
  have "take_bit 40 f = f"
    using assms by (intro word64_eqI) (simp add: unsigned_take_bit_eq take_bit_nat_eq_self_iff)
  then have "\<And>n. bit f n \<Longrightarrow> n < 40" by (metis bit_take_bit_iff)
  then have "push_bit 12 (take_bit 40 (drop_bit 12 (push_bit 12 f))) = push_bit 12 f"
    by (intro bit_word_eqI) (force simp: bit_simps)
  moreover have "f * PAGE_SIZE = push_bit 12 f" by (simp add: push_bit_eq_mult)
  ultimately show ?thesis by (simp only: phys_table_def and_addr_mask)
qed

text \<open>Allocation writes only the bitmap and the frame it hands out.\<close>

lemma alloc_foreign:
  assumes "pmm_inv p" "alloc_post p f N p'"
    and "(x - pmm_hhdm_offset p) div PAGE_SIZE * PAGE_SIZE \<notin> pmm_avail p"
    and "\<forall>i < bitmap_byte_count (pmm_frame_count p).
      bitmap_home p i \<noteq> (x - pmm_hhdm_offset p) div PAGE_SIZE"
  shows "pmm_mem p' x = pmm_mem p x"
proof -
  have f: "f < pmm_frame_count p" "N = f * PAGE_SIZE" using assms(2) by (simp_all add: alloc_post_def)
  have "(x - pmm_hhdm_offset p) div PAGE_SIZE \<noteq> f"
    using assms(3) alloc_post_avail(2) [OF assms(1,2)] f(2) by auto
  then have "\<not> x - pmm_hhdm_offset p - f * PAGE_SIZE < PAGE_SIZE"
    using in_frame_iff [OF pmm_frame_bound [OF assms(1) f(1)]] by simp
  then have "pmm_mem p' x = bitmap_set (pmm_mem p) (pmm_bitmap p) f x"
    using assms(2) f(2) by (simp add: alloc_post_def algebra_simps)
  moreover have "f div 8 < bitmap_byte_count (pmm_frame_count p)"
    using assms(1) f(1) by (intro bit_byte_in_bitmap) (simp_all add: pmm_inv_def)
  then have "x \<noteq> pmm_bitmap p + f div 8"
    using assms(4) by (auto simp: bitmap_home_def)
  ultimately show ?thesis by (simp add: bitmap_set_frame)
qed

lemma alloc_keeps_entry:
  assumes inv: "pmm_inv p" and post: "alloc_post p f phys p'"
    and u: "off_limits p u" "phys_table u" and i: "i < 512"
  shows "load64 (pmm_mem p') (slot (u + pmm_hhdm_offset p) i) =
    load64 (pmm_mem p) (slot (u + pmm_hhdm_offset p) i)"
proof (rule load64_cong)
  fix k :: u64
  assume "k < 8"
  then have "(slot (u + pmm_hhdm_offset p) i + k - pmm_hhdm_offset p) div PAGE_SIZE = u div PAGE_SIZE"
    by (rule entry_byte_frame [OF u(2) i])
  then show "pmm_mem p' (slot (u + pmm_hhdm_offset p) i + k) =
      pmm_mem p (slot (u + pmm_hhdm_offset p) i + k)"
    using u phys_table_frame [OF u(2)]
    by (intro alloc_foreign [OF inv post]) (simp_all only: off_limits_def, blast+)
qed

text \<open>A frame that no table of the tree occupies, cleared and not available any more.\<close>

definition fresh_table :: "pmm \<Rightarrow> u64 \<Rightarrow> u64 \<Rightarrow> bool" where
  "fresh_table p t N \<longleftrightarrow> phys_table N \<and> off_limits p N \<and>
     (\<forall>a. \<not> reaches (pmm_mem p) (pmm_hhdm_offset p) t a N) \<and>
     (\<forall>i < 512. load64 (pmm_mem p) (slot (N + pmm_hhdm_offset p) i) = 0)"

lemma reaches_phys_table: "phys_table t \<Longrightarrow> reaches m h t a u \<Longrightarrow> phys_table u"
  unfolding reaches_def by (blast intro: follow_phys_table)

lemma alloc_same_tables:
  assumes "pmm_inv p" "tables_ok p t" "alloc_post p f N p'"
  shows "same_tables (pmm_mem p) (pmm_mem p') (pmm_hhdm_offset p) t"
  unfolding same_tables_def
proof (intro allI impI)
  fix a u and i :: u32
  assume r: "reaches (pmm_mem p) (pmm_hhdm_offset p) t a u" and i: "i < 512"
  show "load64 (pmm_mem p') (slot (u + pmm_hhdm_offset p) i) =
      load64 (pmm_mem p) (slot (u + pmm_hhdm_offset p) i)"
    using assms(2) r reaches_phys_table [OF _ r]
    by (intro alloc_keeps_entry [OF assms(1,3) _ _ i]) (auto simp: tables_ok_def)
qed

lemma off_limits_alloc:
  assumes "pmm_inv p" "alloc_post p f N p'" "off_limits p u"
  shows "off_limits p' u"
  using assms alloc_post_avail(1) [OF assms(1,2)]
  by (auto simp: off_limits_def alloc_post_def bitmap_home_def)

lemma alloc_tables_ok:
  assumes "pmm_inv p" "tables_ok p t" "alloc_post p f N p'"
  shows "tables_ok p' t"
proof -
  have h: "pmm_hhdm_offset p' = pmm_hhdm_offset p" using assms(3) by (simp add: alloc_post_def)
  note eq = same_tables_reaches [OF alloc_same_tables [OF assms]]
  show ?thesis
    using assms(2) off_limits_alloc [OF assms(1,3)] unfolding tables_ok_def h eq by blast
qed

lemma alloc_zeroed:
  assumes "pmm_inv p" "alloc_post p f N p'" "i < 512"
  shows "load64 (pmm_mem p') (slot (N + pmm_hhdm_offset p) i) = 0"
proof -
  have f: "f < pmm_frame_count p" "N = f * PAGE_SIZE" using assms(2) by (simp_all add: alloc_post_def)
  then have N: "phys_table N"
    using assms(1) by (auto intro: frame_phys_table simp: pmm_inv_def word_less_nat_alt)
  have div: "N div PAGE_SIZE = f"
    unfolding f(2) by (rule frame_addr_div [OF pmm_frame_bound [OF assms(1) f(1)]])
  have "load64 (pmm_mem p') (slot (N + pmm_hhdm_offset p) i) =
      load64 (\<lambda>_. 0) (slot (N + pmm_hhdm_offset p) i)"
  proof (rule load64_cong)
    fix k :: u64
    assume "k < 8"
    define x where "x = slot (N + pmm_hhdm_offset p) i + k"
    have "(x - pmm_hhdm_offset p) div PAGE_SIZE = f"
      unfolding x_def entry_byte_frame [OF N assms(3) \<open>k < 8\<close>] by (rule div)
    then have "x - pmm_hhdm_offset p - N < PAGE_SIZE"
      using in_frame_iff [OF pmm_frame_bound [OF assms(1) f(1)]] f(2) by simp
    then have "pmm_mem p' x = 0" using assms(2) by (simp add: alloc_post_def algebra_simps)
    then show "pmm_mem p' (slot (N + pmm_hhdm_offset p) i + k) = 0" by (simp add: x_def)
  qed
  then show ?thesis by (simp add: load64_def)
qed

lemma alloc_fresh:
  assumes "pmm_inv p" "tables_ok p t" "alloc_post p f N p'"
  shows "fresh_table p' t N"
proof -
  have f: "f < pmm_frame_count p" "\<not> pmm_used p f" "N = f * PAGE_SIZE"
    and h: "pmm_hhdm_offset p' = pmm_hhdm_offset p"
    using assms(3) by (simp_all add: alloc_post_def)
  have div: "N div PAGE_SIZE = f"
    unfolding f(3) by (rule frame_addr_div [OF pmm_frame_bound [OF assms(1) f(1)]])
  note av = alloc_post_avail [OF assms(1,3)]
  have "phys_table N"
    using f(1) assms(1) unfolding f(3)
    by (auto intro: frame_phys_table simp: pmm_inv_def word_less_nat_alt)
  moreover have "off_limits p' N"
    using av(1) assms(1,3) f(1,2) unfolding off_limits_def div
    by (auto simp: pmm_inv_def alloc_post_def bitmap_home_def)
  moreover have "\<not> reaches (pmm_mem p') (pmm_hhdm_offset p') t a N" for a
    using assms(2) av(2) unfolding h same_tables_reaches [OF alloc_same_tables [OF assms]]
    by (auto simp: tables_ok_def off_limits_def)
  ultimately show ?thesis
    using alloc_zeroed [OF assms(1,3)] unfolding fresh_table_def h by blast
qed

section \<open>Writing an entry\<close>

text \<open>Writes into a table leave the allocator alone.\<close>

lemma table_store_bitmap:
  assumes "phys_table u" "off_limits p u" "i < 512" "pmm_inv p" "g < pmm_frame_count p"
  shows "bitmap_test (store64 (pmm_mem p) (slot (u + pmm_hhdm_offset p) i) e) (pmm_bitmap p) g =
    pmm_used p g"
proof (rule bitmap_test_cong)
  let ?b = "pmm_bitmap p + g div 8" and ?s = "slot (u + pmm_hhdm_offset p) i"
  have "g div 8 < bitmap_byte_count (pmm_frame_count p)"
    using assms(4,5) by (intro bit_byte_in_bitmap) (simp_all add: pmm_inv_def)
  then have "(?b - pmm_hhdm_offset p) div PAGE_SIZE \<noteq> u div PAGE_SIZE"
    using assms(2) by (auto simp: off_limits_def bitmap_home_def)
  then have "\<not> ?b - ?s < 8"
    using entry_byte_frame [OF assms(1,3), of "?b - ?s" "pmm_hhdm_offset p"] by auto
  then show "store64 (pmm_mem p) ?s e ?b = pmm_mem p ?b" by (rule store64_outside)
qed

lemma table_store_pmm:
  assumes "phys_table u" "off_limits p u" "i < 512" "pmm_inv p"
    and p': "p' = p\<lparr>pmm_mem := store64 (pmm_mem p) (slot (u + pmm_hhdm_offset p) i) e\<rparr>"
  shows "pmm_inv p'" and "pmm_avail p' = pmm_avail p" and "off_limits p' = off_limits p"
proof -
  have used: "pmm_used p' g = pmm_used p g" if "g < pmm_frame_count p" for g
    using table_store_bitmap [OF assms(1-4) that] by (simp add: p')
  have fc: "pmm_frame_count p' = pmm_frame_count p" "pmm_free_frames p' = pmm_free_frames p"
    and home: "bitmap_home p' = bitmap_home p"
    by (simp_all add: p' bitmap_home_def fun_eq_iff)
  have "count_clear (pmm_used p') (unat (pmm_frame_count p)) =
      count_clear (pmm_used p) (unat (pmm_frame_count p))"
    using used assms(4) by (intro count_clear_cong) (simp_all add: word_less_nat_alt pmm_inv_def)
  then show "pmm_inv p'"
    using assms(4) used unfolding pmm_inv_def fc home by auto
  show av: "pmm_avail p' = pmm_avail p"
    using used unfolding pmm_avail_def fc by auto
  show "off_limits p' = off_limits p"
    unfolding off_limits_def av fc home ..
qed

text \<open>Distinct entries of tables do not overlap.\<close>

lemma load_other_slot:
  assumes "phys_table u" "phys_table w" "i < 512" "j < 512" "u \<noteq> w \<or> i \<noteq> j"
  shows "load64 (store64 m (slot (u + h) i) e) (slot (w + h) j) = load64 m (slot (w + h) j)"
  using assms by (intro load64_store64_other slot_apart) auto

definition unique_tables :: "mem \<Rightarrow> u64 \<Rightarrow> u64 \<Rightarrow> bool" where
  "unique_tables m h t \<longleftrightarrow> phys_table t \<and>
     (\<forall>a b u. reaches m h t a u \<longrightarrow> reaches m h t b u \<longrightarrow> a = b)"

lemma unique_tablesD:
  "unique_tables m h t \<Longrightarrow> reaches m h t a u \<Longrightarrow> reaches m h t b u \<Longrightarrow> a = b"
  unfolding unique_tables_def by blast

lemma unique_phys: "unique_tables m h t \<Longrightarrow> reaches m h t a u \<Longrightarrow> phys_table u"
  unfolding unique_tables_def by (blast intro: reaches_phys_table)

lemma load_store_reached:
  assumes "unique_tables m h t" "reaches m h t a u" "i < 512" "reaches m h t b w" "j < 512"
    and "(b, j) \<noteq> (a, i)"
  shows "load64 (store64 m (slot (u + h) i) e) (slot (w + h) j) = load64 m (slot (w + h) j)"
  using assms unique_tablesD [OF assms(1,2), of b]
  by (intro load_other_slot) (auto intro: unique_phys)

lemma follow_store:
  assumes "unique_tables m h t" "reaches m h t a u" "i < 512"
    and "length b \<le> 4" "\<forall>j \<in> set b. j < 512" "\<And>c. b \<noteq> a @ i # c"
  shows "follow (store64 m (slot (u + h) i) e) h t b = follow m h t b"
proof (rule follow_cong)
  fix a' j c w
  assume b: "b = a' @ j # c" and w: "follow m h t a' = Some w"
  then have "reaches m h t a' w" "j < 512" using assms(4,5) by (auto simp: reaches_def)
  moreover have "(a', j) \<noteq> (a, i)" using b assms(6) by auto
  ultimately show "load64 (store64 m (slot (u + h) i) e) (slot (w + h) j) = load64 m (slot (w + h) j)"
    by (intro load_store_reached [OF assms(1-3)])
qed

text \<open>A new, empty table linked into an entry that was not present.\<close>

definition links :: "mem \<Rightarrow> u64 \<Rightarrow> u64 \<Rightarrow> u32 list \<Rightarrow> u64 \<Rightarrow> u32 \<Rightarrow> u64 \<Rightarrow> u64 \<Rightarrow> bool" where
  "links m h t a u i N e \<longleftrightarrow> reaches m h t a u \<and> length a \<le> 2 \<and> i < 512 \<and>
     load64 m (slot (u + h) i) AND 1 = 0 \<and>
     phys_table N \<and> (\<forall>b. \<not> reaches m h t b N) \<and> (\<forall>j < 512. load64 m (slot (N + h) j) = 0) \<and>
     e AND 1 \<noteq> 0 \<and> e AND 128 = 0 \<and> e AND PTE_ADDR_MASK = N"

lemma link_before: "links m h t a u i N e \<Longrightarrow> follow m h t (a @ i # c) = None"
  by (simp add: links_def reaches_def follow_append)

lemma link_new:
  assumes "unique_tables m h t" "links m h t a u i N e"
  shows "follow (store64 m (slot (u + h) i) e) h t (a @ [i]) = Some N"
proof -
  have "follow (store64 m (slot (u + h) i) e) h t a = follow m h t a"
    using assms(2) by (intro follow_store [OF assms(1)]) (auto simp: links_def reaches_def)
  then show ?thesis using assms(2) by (simp add: links_def reaches_def follow_append)
qed

lemma link_new_empty:
  assumes "unique_tables m h t" "links m h t a u i N e" "j < 512"
  shows "load64 (store64 m (slot (u + h) i) e) (slot (N + h) j) = 0"
proof -
  have "u \<noteq> N" "phys_table u"
    using assms(1,2) by (auto simp: links_def intro: unique_phys)
  then have "load64 (store64 m (slot (u + h) i) e) (slot (N + h) j) = load64 m (slot (N + h) j)"
    using assms(2,3) by (intro load_other_slot) (auto simp: links_def)
  then show ?thesis using assms(2,3) by (simp add: links_def)
qed

lemma link_deeper:
  assumes "unique_tables m h t" "links m h t a u i N e" "j < 512"
  shows "follow (store64 m (slot (u + h) i) e) h t (a @ i # j # c) = None"
  using link_new [OF assms(1,2)] link_new_empty [OF assms]
    follow_append [of "store64 m (slot (u + h) i) e" h t "a @ [i]" "j # c"] by simp

lemma link_cases:
  obtains "b = a @ [i]" | j c where "b = a @ i # j # c" | "\<And>c. b \<noteq> a @ i # c"
  by (metis list.exhaust)

lemma link_reaches:
  assumes "unique_tables m h t" and l: "links m h t a u i N e"
  shows "reaches (store64 m (slot (u + h) i) e) h t b w \<longleftrightarrow>
    reaches m h t b w \<or> b = a @ [i] \<and> w = N"
proof (cases rule: link_cases [of b a i])
  case 1
  then show ?thesis
    using l link_new [OF assms] link_before [OF l, of "[]"] by (auto simp: reaches_def links_def)
next
  case (2 j c)
  then show ?thesis
    using l link_deeper [OF assms, of j c] link_before [OF l] by (auto simp: reaches_def)
next
  case 3
  then have "b \<noteq> a @ [i]" by blast
  with 3 show ?thesis
    using follow_store [OF assms(1) _ _ _ _ 3, of u e] l by (auto simp: reaches_def links_def)
qed

lemma link_walk:
  assumes "unique_tables m h t" and l: "links m h t a u i N e"
  shows "walk_entry (store64 m (slot (u + h) i) e) h t v = walk_entry m h t v"
proof (cases rule: link_cases [of "va_path v" a i])
  case 1
  then show ?thesis
    using link_new [OF assms] link_before [OF l, of "[]"] link_new_empty [OF assms, of "va_leaf v"]
    by (simp add: walk_entry_def)
next
  case (2 j c)
  then have "j < 512" using va_path_facts(2) [of j v] by simp
  then show ?thesis
    using link_deeper [OF assms, of j c] link_before [OF l] 2 by (simp add: walk_entry_def)
next
  case 3
  have eq: "follow (store64 m (slot (u + h) i) e) h t (va_path v) = follow m h t (va_path v)"
    using follow_store [OF assms(1) _ _ _ _ 3, of u e] l by (simp add: links_def)
  have ne: "va_path v \<noteq> a" using l va_path_facts(1) [of v] by (auto simp: links_def)
  have "load64 (store64 m (slot (u + h) i) e) (slot (w + h) (va_leaf v)) =
      load64 m (slot (w + h) (va_leaf v))" if "follow m h t (va_path v) = Some w" for w
    using that l ne unfolding va_path_reaches
    by (intro load_store_reached [OF assms(1)]) (auto simp: links_def)
  with eq show ?thesis by (simp add: walk_entry_def split: option.split)
qed

lemma link_small:
  assumes "unique_tables m h t" and l: "links m h t a u i N e"
    and b: "length b \<le> 3" "\<forall>j \<in> set b. j < 512" and small: "small_path m h t b"
  shows "small_path (store64 m (slot (u + h) i) e) h t b"
  unfolding small_path_def
proof (intro allI impI)
  fix x j c w
  assume x: "b = x @ j # c" and w: "follow (store64 m (slot (u + h) i) e) h t x = Some w"
    and on: "load64 (store64 m (slot (u + h) i) e) (slot (w + h) j) AND 1 \<noteq> 0"
  have j: "j < 512" "reaches (store64 m (slot (u + h) i) e) h t x w"
    using x w b by (auto simp: reaches_def)
  have "w \<noteq> N" using on link_new_empty [OF assms(1,2) j(1)] by auto
  then have r: "reaches m h t x w" using j(2) link_reaches [OF assms(1,2)] by auto
  show "load64 (store64 m (slot (u + h) i) e) (slot (w + h) j) AND 128 = 0"
  proof (cases "(x, j) = (a, i)")
    case True
    then have "w = u" using r l by (auto simp: reaches_def links_def)
    then show ?thesis using True l by (simp add: links_def)
  next
    case False
    then have "load64 (store64 m (slot (u + h) i) e) (slot (w + h) j) = load64 m (slot (w + h) j)"
      using l r j(1) by (intro load_store_reached [OF assms(1)]) (auto simp: links_def)
    then show ?thesis using small x r on by (auto simp: small_path_def reaches_def)
  qed
qed

text \<open>A write into the last table of a walk.\<close>

lemma leaf_follow:
  assumes "unique_tables m h t" "reaches m h t a u" "length a = 3" "i < 512" "length b \<le> 3"
    "\<forall>j \<in> set b. j < 512"
  shows "follow (store64 m (slot (u + h) i) e) h t b = follow m h t b"
  using assms by (intro follow_store [OF assms(1,2)]) auto

lemma leaf_reaches:
  assumes "unique_tables m h t" "reaches m h t a u" "length a = 3" "i < 512"
  shows "reaches (store64 m (slot (u + h) i) e) h t b w = reaches m h t b w"
  using leaf_follow [OF assms, of b] by (auto simp: reaches_def)

lemma leaf_small:
  assumes "unique_tables m h t" "reaches m h t a u" "length a = 3" "i < 512" "length b \<le> 3"
    "\<forall>j \<in> set b. j < 512" "small_path m h t b"
  shows "small_path (store64 m (slot (u + h) i) e) h t b"
  unfolding small_path_def
proof (intro allI impI)
  let ?m = "store64 m (slot (u + h) i) e"
  fix x j c w
  assume x: "b = x @ j # c" and w: "follow ?m h t x = Some w"
    and on: "load64 ?m (slot (w + h) j) AND 1 \<noteq> 0"
  have "reaches m h t x w"
    using x w assms(5,6) leaf_follow [OF assms(1-4), of x] by (auto simp: reaches_def)
  moreover have "j < 512" "x \<noteq> a" using x assms(3,5,6) by auto
  ultimately have "load64 ?m (slot (w + h) j) = load64 m (slot (w + h) j)"
    by (intro load_store_reached [OF assms(1,2,4)]) auto
  then show "load64 ?m (slot (w + h) j) AND 128 = 0"
    using assms(7) x on \<open>reaches m h t x w\<close> by (auto simp: small_path_def reaches_def)
qed

lemma leaf_walk:
  assumes "unique_tables m h t" "reaches m h t (va_path virt) u"
  shows "walk_entry (store64 m (slot (u + h) (va_leaf virt)) e) h t v =
    (if va_path v = va_path virt \<and> va_leaf v = va_leaf virt then e else walk_entry m h t v)"
proof (cases "va_path v = va_path virt \<and> va_leaf v = va_leaf virt")
  case True
  then show ?thesis
    using assms(2) leaf_follow [OF assms, of "va_leaf virt" "va_path virt" e]
    by (simp add: walk_entry_def reaches_def)
next
  case False
  have "load64 (store64 m (slot (u + h) (va_leaf virt)) e) (slot (w + h) (va_leaf v)) =
      load64 m (slot (w + h) (va_leaf v))" if "follow m h t (va_path v) = Some w" for w
    using that False unfolding va_path_reaches
    by (intro load_store_reached [OF assms]) auto
  then show ?thesis
    using False leaf_follow [OF assms, of "va_leaf virt" "va_path v" e]
    by (auto simp: walk_entry_def split: option.split)
qed

section \<open>The operations keep the invariant\<close>

abbreviation root_table :: "vmm \<Rightarrow> u64" where
  "root_table s \<equiv> vmm_cr3 s AND PTE_ADDR_MASK"

definition table_at :: "vmm \<Rightarrow> u32 list \<Rightarrow> u64 \<Rightarrow> bool" where
  "table_at s a u \<longleftrightarrow> reaches (vmm_mem s) (vmm_hhdm_offset s) (root_table s) a u"

definition small_to :: "vmm \<Rightarrow> u32 list \<Rightarrow> bool" where
  "small_to s b \<longleftrightarrow> small_path (vmm_mem s) (vmm_hhdm_offset s) (root_table s) b"

lemma small_to_prefix: "small_to s (a @ b) \<Longrightarrow> small_to s a"
  unfolding small_to_def small_path_def by (metis append.assoc append_Cons)

text \<open>Fields that no page-table operation changes.\<close>

definition same_config :: "vmm \<Rightarrow> vmm \<Rightarrow> bool" where
  "same_config s s' \<longleftrightarrow> vmm_hhdm_offset s' = vmm_hhdm_offset s \<and> vmm_cr3 s' = vmm_cr3 s \<and>
     dynamic_next_vaddr s' = dynamic_next_vaddr s \<and> mmio_next_vaddr s' = mmio_next_vaddr s \<and>
     lazy_regions s' = lazy_regions s \<and>
     pmm_bitmap (vmm_pmm s') = pmm_bitmap (vmm_pmm s) \<and>
     pmm_frame_count (vmm_pmm s') = pmm_frame_count (vmm_pmm s) \<and>
     pmm_hhdm_offset (vmm_pmm s') = pmm_hhdm_offset (vmm_pmm s)"

text \<open>
  A byte of memory in nobody's hands but the kernel's: its frame is not free, holds no
  byte of the frame bitmap and no page table.
\<close>

definition frame_no :: "vmm \<Rightarrow> u64 \<Rightarrow> u64" where
  "frame_no s x = (x - vmm_hhdm_offset s) div PAGE_SIZE"

definition foreign_byte :: "vmm \<Rightarrow> vmm \<Rightarrow> u64 \<Rightarrow> bool" where
  "foreign_byte s s' x \<longleftrightarrow> frame_no s x * PAGE_SIZE \<notin> pmm_avail (vmm_pmm s) \<and>
     (\<forall>i < bitmap_byte_count (pmm_frame_count (vmm_pmm s)). bitmap_home (vmm_pmm s) i \<noteq> frame_no s x) \<and>
     (\<forall>a u. table_at s' a u \<longrightarrow> u div PAGE_SIZE \<noteq> frame_no s x)"

text \<open>
  What every page-table operation respects: the invariant and the configuration stay, frames
  only leave the allocator, tables stay where they are and new ones come from free frames,
  and no other byte of memory changes.
\<close>

definition extends :: "u64 set \<Rightarrow> vmm \<Rightarrow> vmm \<Rightarrow> bool" where
  "extends X s s' \<longleftrightarrow> vmm_inv s' \<and> same_config s s' \<and>
     (\<forall>b. length b \<le> 3 \<longrightarrow> (\<forall>i \<in> set b. i < 512) \<longrightarrow> small_to s b \<longrightarrow> small_to s' b) \<and>
     pmm_avail (vmm_pmm s') \<subseteq> pmm_avail (vmm_pmm s) \<and>
     (\<forall>a u. table_at s a u \<longrightarrow> table_at s' a u) \<and>
     (\<forall>a u. table_at s' a u \<longrightarrow> table_at s a u \<or> u \<in> X) \<and>
     (\<forall>x. foreign_byte s s' x \<longrightarrow> vmm_mem s' x = vmm_mem s x)"

text \<open>Tables were built, but no translation changed.\<close>

definition grows :: "u64 set \<Rightarrow> vmm \<Rightarrow> vmm \<Rightarrow> bool" where
  "grows X s s' \<longleftrightarrow> extends X s s' \<and> (\<forall>v. page_entry s' v = page_entry s v) \<and>
     invlpg_log s' = invlpg_log s"

lemma extends_refl: "vmm_inv s \<Longrightarrow> extends X s s"
  unfolding extends_def same_config_def by simp

lemma foreign_byte_step:
  assumes "extends X s s1" "extends Y s1 s2" "foreign_byte s s2 x"
  shows "foreign_byte s s1 x" and "foreign_byte s1 s2 x"
proof -
  have "frame_no s1 x = frame_no s x" "bitmap_home (vmm_pmm s1) = bitmap_home (vmm_pmm s)"
    "pmm_frame_count (vmm_pmm s1) = pmm_frame_count (vmm_pmm s)"
    using assms(1) by (simp_all add: extends_def same_config_def frame_no_def bitmap_home_def fun_eq_iff)
  then show "foreign_byte s s1 x" and "foreign_byte s1 s2 x"
    using assms unfolding foreign_byte_def extends_def by (auto simp only:) blast+
qed

lemma extends_trans:
  assumes "extends X s s1" "extends Y s1 s2" "X \<union> Y \<subseteq> Z"
  shows "extends Z s s2"
  using assms foreign_byte_step [OF assms(1,2)]
  by (simp add: extends_def same_config_def) (blast dest: subsetD)

lemma grows_refl: "vmm_inv s \<Longrightarrow> grows X s s"
  unfolding grows_def by (simp add: extends_refl)

lemma grows_trans: "grows X s s1 \<Longrightarrow> grows Y s1 s2 \<Longrightarrow> X \<union> Y \<subseteq> Z \<Longrightarrow> grows Z s s2"
  unfolding grows_def by (auto intro: extends_trans)

lemma extends_facts:
  assumes "extends X s s'"
  shows "vmm_inv s'" "vmm_hhdm_offset s' = vmm_hhdm_offset s" "vmm_cr3 s' = vmm_cr3 s"
    "pmm_avail (vmm_pmm s') \<subseteq> pmm_avail (vmm_pmm s)"
  using assms by (simp_all add: extends_def same_config_def)

lemma grows_facts:
  assumes "grows X s s'"
  shows "extends X s s'" "vmm_inv s'" "vmm_hhdm_offset s' = vmm_hhdm_offset s"
    "vmm_cr3 s' = vmm_cr3 s" "pmm_avail (vmm_pmm s') \<subseteq> pmm_avail (vmm_pmm s)"
  using assms by (simp_all add: grows_def extends_def same_config_def)

lemma vmm_inv_unique:
  "vmm_inv s \<Longrightarrow> unique_tables (vmm_mem s) (vmm_hhdm_offset s) (root_table s)"
  unfolding vmm_inv_def tables_ok_def unique_tables_def by auto

lemma table_at_unique: "vmm_inv s \<Longrightarrow> table_at s a u \<Longrightarrow> table_at s b u \<Longrightarrow> a = b"
  unfolding table_at_def by (rule unique_tablesD [OF vmm_inv_unique])

lemma vmm_inv_off_limits: "vmm_inv s \<Longrightarrow> table_at s a u \<Longrightarrow> off_limits (vmm_pmm s) u"
  unfolding vmm_inv_def tables_ok_def table_at_def by auto

lemma vmm_alloc_grows:
  assumes "vmm_inv s" and "vmm_alloc s = (N, s')" and "pmm_avail (vmm_pmm s) \<noteq> {}"
  shows "grows {} s s'" and "fresh_table (vmm_pmm s') (root_table s) N"
    and "table_at s' = table_at s" and "N \<in> pmm_avail (vmm_pmm s)"
    and "pmm_avail (vmm_pmm s') = pmm_avail (vmm_pmm s) - {N}"
    and "same_tables (vmm_mem s) (vmm_mem s') (vmm_hhdm_offset s) (root_table s)"
proof -
  have inv: "pmm_inv (vmm_pmm s)" "tables_ok (vmm_pmm s) (root_table s)"
    "vmm_hhdm_offset s = pmm_hhdm_offset (vmm_pmm s)"
    using assms(1) by (simp_all add: vmm_inv_def)
  obtain p where p: "pmm_alloc_frame (vmm_pmm s) = (N, p)" "s' = s\<lparr>vmm_pmm := p\<rparr>"
    using assms(2) by (auto simp: vmm_alloc_def split: prod.splits)
  obtain f where post: "alloc_post (vmm_pmm s) f N p"
    using pmm_alloc_frame_post [OF inv(1) assms(3) p(1)] .
  note st = alloc_same_tables [OF inv(1,2) post]
  note av = alloc_post_avail [OF inv(1) post]
  show tab: "table_at s' = table_at s"
    using same_tables_reaches [OF st] inv(3) p(2) by (auto simp: table_at_def fun_eq_iff)
  show "fresh_table (vmm_pmm s') (root_table s) N"
    using alloc_fresh [OF inv(1,2) post] p(2) by simp
  have "vmm_inv s'"
    using alloc_post_inv [OF inv(1) post] alloc_tables_ok [OF inv(1,2) post] inv(3) post p(2)
    by (simp add: vmm_inv_def alloc_post_def)
  moreover have "vmm_mem s' x = vmm_mem s x" if "foreign_byte s s' x" for x
    using alloc_foreign [OF inv(1) post] that inv(3) p(2)
    by (auto simp: foreign_byte_def frame_no_def)
  ultimately show "grows {} s s'"
    using same_tables_walk [OF st] same_tables_small [OF st] av(1) inv(3) p(2) tab post
    by (auto simp: grows_def extends_def same_config_def page_entry_def small_to_def alloc_post_def)
  show "N \<in> pmm_avail (vmm_pmm s)" and "pmm_avail (vmm_pmm s') = pmm_avail (vmm_pmm s) - {N}"
    using av p(2) by auto
  show "same_tables (vmm_mem s) (vmm_mem s') (vmm_hhdm_offset s) (root_table s)"
    using st inv(3) p(2) by simp
qed

lemma vmm_store_inv:
  assumes inv: "vmm_inv s" and u: "table_at s a u" and "i < 512"
    and s': "s' = vmm_store64 s (slot (u + vmm_hhdm_offset s) i) e"
  shows "(\<And>b w. table_at s' b w \<Longrightarrow> off_limits (vmm_pmm s) w) \<Longrightarrow>
      (\<And>b c w. table_at s' b w \<Longrightarrow> table_at s' c w \<Longrightarrow> b = c) \<Longrightarrow> vmm_inv s'"
    and "pmm_avail (vmm_pmm s') = pmm_avail (vmm_pmm s)"
    and "u div PAGE_SIZE \<noteq> frame_no s x \<Longrightarrow> vmm_mem s' x = vmm_mem s x"
proof -
  have h: "vmm_hhdm_offset s = pmm_hhdm_offset (vmm_pmm s)" "pmm_inv (vmm_pmm s)"
    using inv by (simp_all add: vmm_inv_def)
  have pu: "phys_table u" using u unique_phys [OF vmm_inv_unique [OF inv]] by (simp add: table_at_def)
  note st = table_store_pmm [OF pu vmm_inv_off_limits [OF inv u] assms(3) h(2), of "vmm_pmm s'" e]
  have p': "vmm_pmm s' = (vmm_pmm s)\<lparr>pmm_mem :=
      store64 (vmm_mem s) (slot (u + pmm_hhdm_offset (vmm_pmm s)) i) e\<rparr>"
    by (simp add: s' vmm_store64_def h(1))
  show "vmm_inv s'"
    if lim: "\<And>b w. table_at s' b w \<Longrightarrow> off_limits (vmm_pmm s) w"
    and inj: "\<And>b c w. table_at s' b w \<Longrightarrow> table_at s' c w \<Longrightarrow> b = c"
  proof -
    have "tables_ok (vmm_pmm s') (root_table s)"
      using lim inj st(3) [OF p'] unfolding tables_ok_def table_at_def
      by (simp add: s' vmm_store64_def h(1))
    then show ?thesis
      using st(1) [OF p'] h(1) by (simp add: vmm_inv_def s' vmm_store64_def)
  qed
  show "pmm_avail (vmm_pmm s') = pmm_avail (vmm_pmm s)" by (rule st(2) [OF p'])
  assume "u div PAGE_SIZE \<noteq> frame_no s x"
  then have "\<not> x - slot (u + vmm_hhdm_offset s) i < 8"
    using entry_byte_frame [OF pu assms(3), of "x - slot (u + vmm_hhdm_offset s) i" "vmm_hhdm_offset s"]
    by (auto simp: frame_no_def)
  then show "vmm_mem s' x = vmm_mem s x" by (simp add: s' vmm_store64_def store64_outside)
qed

lemma table_entry_bits:
  assumes "phys_table N"
  shows "(N OR PTE_PRESENT OR PTE_WRITABLE OR PTE_USER) AND 1 \<noteq> 0"
    "(N OR PTE_PRESENT OR PTE_WRITABLE OR PTE_USER) AND 128 = 0"
    "(N OR PTE_PRESENT OR PTE_WRITABLE OR PTE_USER) AND PTE_ADDR_MASK = N"
proof -
  have N: "N = N AND PTE_ADDR_MASK" using assms by (simp add: phys_table_def)
  have low: "N AND 1 = 0" "N AND 128 = 0"
    by (subst N, simp add: and.assoc)+
  show "(N OR PTE_PRESENT OR PTE_WRITABLE OR PTE_USER) AND 1 \<noteq> 0"
    "(N OR PTE_PRESENT OR PTE_WRITABLE OR PTE_USER) AND 128 = 0"
    "(N OR PTE_PRESENT OR PTE_WRITABLE OR PTE_USER) AND PTE_ADDR_MASK = N"
    using low N by (simp_all add: bit.conj_disj_distrib2)
qed

lemma table_at_store:
  "table_at (vmm_store64 s x e) b w =
     reaches (store64 (vmm_mem s) x e) (vmm_hhdm_offset s) (root_table s) b w"
  by (simp add: table_at_def vmm_store64_def)

lemma install_next_level:
  assumes inv: "vmm_inv s" and u: "table_at s a u" "length a \<le> 2" "i < 512"
    and off: "load64 (vmm_mem s) (slot (u + vmm_hhdm_offset s) i) AND PTE_PRESENT = 0"
    and N: "fresh_table (vmm_pmm s) (root_table s) N"
    and s': "s' = vmm_store64 s (slot (u + vmm_hhdm_offset s) i)
        (N OR PTE_PRESENT OR PTE_WRITABLE OR PTE_USER)"
  shows "grows {N} s s'" and "table_at s' (a @ [i]) N"
    and "pmm_avail (vmm_pmm s') = pmm_avail (vmm_pmm s)"
proof -
  let ?e = "N OR PTE_PRESENT OR PTE_WRITABLE OR PTE_USER"
  have h: "pmm_hhdm_offset (vmm_pmm s) = vmm_hhdm_offset s" using inv by (simp add: vmm_inv_def)
  note uniq = vmm_inv_unique [OF inv]
  have l: "links (vmm_mem s) (vmm_hhdm_offset s) (root_table s) a u i N ?e"
    using u off N table_entry_bits [of N]
    by (simp only: links_def table_at_def fresh_table_def h) blast
  have r: "table_at s' b w \<longleftrightarrow> table_at s b w \<or> b = a @ [i] \<and> w = N" for b w
    using link_reaches [OF uniq l] unfolding s' table_at_store by (simp add: table_at_def)
  have "\<not> table_at s b N" for b using N by (simp add: fresh_table_def table_at_def h)
  then have inj: "table_at s' b w \<Longrightarrow> table_at s' c w \<Longrightarrow> b = c" for b c w
    using table_at_unique [OF inv] unfolding r by blast
  have lim: "table_at s' b w \<Longrightarrow> off_limits (vmm_pmm s) w" for b w
    using vmm_inv_off_limits [OF inv] N unfolding r by (auto simp: fresh_table_def)
  note st = vmm_store_inv [OF inv u(1,3) s']
  have inv': "vmm_inv s'" and av: "pmm_avail (vmm_pmm s') = pmm_avail (vmm_pmm s)"
    using st(1,2) lim inj by blast+
  have keep: "foreign_byte s s' x \<Longrightarrow> vmm_mem s' x = vmm_mem s x" for x
    using st(3) [of x] u(1) r by (auto simp: foreign_byte_def)
  show "table_at s' (a @ [i]) N" by (simp add: r)
  show "pmm_avail (vmm_pmm s') = pmm_avail (vmm_pmm s)" by (rule av)
  have "page_entry s' v = page_entry s v" for v
    using link_walk [OF uniq l] by (simp add: page_entry_def s' vmm_store64_def)
  moreover have "small_to s b \<Longrightarrow> small_to s' b" if "length b \<le> 3" "\<forall>j \<in> set b. j < 512" for b
    using link_small [OF uniq l that] by (simp add: small_to_def s' vmm_store64_def)
  moreover have "same_config s s'" "invlpg_log s' = invlpg_log s"
    by (simp_all add: same_config_def s' vmm_store64_def)
  ultimately show "grows {N} s s'"
    using inv' av keep r by (auto simp: grows_def extends_def)
qed

text \<open>
  \<^verbatim>\<open>ensure_next_level\<close>: it fails only when no frame is left, and otherwise returns the
  table behind the entry, using at most one frame.
\<close>

definition ensured :: "vmm \<Rightarrow> u32 list \<Rightarrow> u64 option \<times> vmm \<Rightarrow> nat \<Rightarrow> bool" where
  "ensured s b rs k \<longleftrightarrow> grows (pmm_avail (vmm_pmm s)) s (snd rs) \<and>
     card (pmm_avail (vmm_pmm s)) \<le> card (pmm_avail (vmm_pmm (snd rs))) + k \<and>
     (case fst rs of
        None \<Rightarrow> pmm_avail (vmm_pmm (snd rs)) = {}
      | Some table \<Rightarrow> \<exists>w. table = w + vmm_hhdm_offset s \<and> table_at (snd rs) b w)"

lemma finite_avail [simp]: "finite (pmm_avail p)"
  by (simp add: pmm_avail_def)

lemma ensure_next_level_present:
  assumes inv: "vmm_inv s" and u: "table_at s a u" "length a \<le> 2" "i < 512"
    and small: "small_to s (a @ [i])"
    and on: "load64 (vmm_mem s) (slot (u + vmm_hhdm_offset s) i) AND PTE_PRESENT \<noteq> 0"
  shows "ensured s (a @ [i]) (ensure_next_level s (u + vmm_hhdm_offset s) i) 1"
proof -
  let ?e = "load64 (vmm_mem s) (slot (u + vmm_hhdm_offset s) i)"
  have "?e AND 128 = 0"
    using small u on unfolding small_to_def small_path_def table_at_def reaches_def by blast
  then have "table_at s (a @ [i]) (?e AND PTE_ADDR_MASK)"
    using u on by (auto simp: table_at_def reaches_def follow_append Let_def)
  then show ?thesis
    using on grows_refl [OF inv]
    by (auto simp: ensured_def ensure_next_level_def phys_to_virt_table_def)
qed

lemma ensure_next_level_absent:
  assumes inv: "vmm_inv s" and u: "table_at s a u" "length a \<le> 2" "i < 512"
    and off: "load64 (vmm_mem s) (slot (u + vmm_hhdm_offset s) i) AND PTE_PRESENT = 0"
  shows "ensured s (a @ [i]) (ensure_next_level s (u + vmm_hhdm_offset s) i) 1"
proof (cases "pmm_avail (vmm_pmm s) = {}")
  case True
  have "vmm_alloc s = (0, s)"
    using pmm_frames.exhausted [OF _ True] inv by (simp add: vmm_inv_def vmm_alloc_def)
  then show ?thesis
    using True off grows_refl [OF inv] by (simp add: ensured_def ensure_next_level_def)
next
  case False
  obtain N s1 where al: "vmm_alloc s = (N, s1)" by (cases "vmm_alloc s")
  note g = vmm_alloc_grows [OF inv al False]
  have nz: "N \<noteq> 0" using g(4) inv pmm_frames.sentinel by (auto simp: vmm_inv_def)
  have s1: "vmm_inv s1" "vmm_hhdm_offset s1 = vmm_hhdm_offset s" "root_table s1 = root_table s"
    using grows_facts [OF g(1)] by simp_all
  have "load64 (vmm_mem s1) (slot (u + vmm_hhdm_offset s) i) =
      load64 (vmm_mem s) (slot (u + vmm_hhdm_offset s) i)"
    using g(6) u by (auto simp: same_tables_def table_at_def)
  then have off1: "load64 (vmm_mem s1) (slot (u + vmm_hhdm_offset s1) i) AND PTE_PRESENT = 0"
    using off s1(2) by simp
  define s2 where "s2 = vmm_store64 s1 (slot (u + vmm_hhdm_offset s1) i)
    (N OR PTE_PRESENT OR PTE_WRITABLE OR PTE_USER)"
  note ins = install_next_level [OF s1(1) u(1) [folded g(3)] u(2,3) off1 _ s2_def, unfolded s1(3),
      OF g(2)]
  have phys: "phys_table N" using g(2) by (simp add: fresh_table_def)
  have "ensure_next_level s (u + vmm_hhdm_offset s) i = (Some (N + vmm_hhdm_offset s), s2)"
    using off al nz s1(2) table_entry_bits(3) [OF phys]
    by (simp add: ensure_next_level_def phys_to_virt_table_def s2_def vmm_store64_def)
  moreover have "card (pmm_avail (vmm_pmm s)) = card (pmm_avail (vmm_pmm s2)) + 1"
    unfolding ins(3) g(5) using card.remove [OF finite_avail g(4)] by linarith
  ultimately show ?thesis
    using grows_trans [OF g(1) ins(1), of "pmm_avail (vmm_pmm s)"] ins(2) g(4) by (simp add: ensured_def)
qed

lemmas ensure_next_level_ok = ensure_next_level_present ensure_next_level_absent

lemma ensure_from_ok:
  assumes "ensured s a rs k" and "length a \<le> 2" "\<forall>j \<in> set a. j < 512" "i < 512"
    and "small_to s (a @ [i])"
  shows "ensured s (a @ [i]) (ensure_from rs i) (k + 1)"
proof (cases "fst rs")
  case None
  then show ?thesis using assms(1) by (cases rs) (auto simp: ensured_def ensure_from_def)
next
  case (Some table)
  obtain s1 where rs: "rs = (Some table, s1)" using Some by (cases rs) simp
  have g: "grows (pmm_avail (vmm_pmm s)) s s1" using assms(1) rs by (simp add: ensured_def)
  note s1 = grows_facts [OF g]
  obtain w where w: "table = w + vmm_hhdm_offset s1" "table_at s1 a w"
    using assms(1) rs s1(3) by (auto simp: ensured_def)
  have "small_to s1 (a @ [i])" using s1(1) assms(2-5) by (auto simp: extends_def)
  then have e: "ensured s1 (a @ [i]) (ensure_from rs i) 1"
    using ensure_next_level_ok [OF s1(2) w(2) assms(2,4)]
    by (auto simp: rs ensure_from_def w(1))
  then have "grows (pmm_avail (vmm_pmm s)) s (snd (ensure_from rs i))"
    using grows_trans [OF g] s1(5) by (auto simp: ensured_def)
  with e show ?thesis
    using assms(1) s1(3) rs by (auto simp: ensured_def split: option.splits)
qed

section \<open>Pages\<close>

text \<open>Two addresses are in the same page when bits 12 to 47 agree.\<close>

definition same_page :: "u64 \<Rightarrow> u64 \<Rightarrow> bool" where
  "same_page v w \<longleftrightarrow> drop_bit 12 (take_bit 48 v) = drop_bit 12 (take_bit 48 w)"

lemma bounded_bits_eq:
  "k \<le> m \<Longrightarrow> (\<forall>n < m. (n < k \<and> P n) = (n < k \<and> Q n)) \<longleftrightarrow> (\<forall>n < k. P n = Q (n :: nat))"
  by (metis order.strict_trans2)

lemma index_eq_iff:
  fixes v w :: u64
  assumes "k \<le> 39"
  shows "ucast (drop_bit k v AND 511) = (ucast (drop_bit k w AND 511) :: u32) \<longleftrightarrow>
    (\<forall>n < 9. bit v (k + n) = bit w (k + n))"
proof -
  have bits: "bit (ucast (drop_bit k x AND 511) :: u32) n \<longleftrightarrow> n < 9 \<and> bit x (k + n)" for x :: u64 and n
  proof -
    have "drop_bit k x AND 511 = take_bit 9 (drop_bit k x)"
      by (simp add: take_bit_eq_mask mask_eq_exp_minus_1)
    then show ?thesis by (auto simp: bit_simps)
  qed
  show ?thesis by (simp only: bit_eq_iff bits possible_bit_word) (simp add: bounded_bits_eq)
qed

lemma interval_36: "(\<forall>n < 36. P (12 + n)) \<longleftrightarrow> (\<forall>n < 9. P (39 + n)) \<and> (\<forall>n < 9. P (30 + n)) \<and>
    (\<forall>n < 9. P (21 + n)) \<and> (\<forall>n < 9. P (12 + (n :: nat)))"
proof (intro iffI conjI allI impI)
  fix n :: nat
  assume A: "\<forall>n < 36. P (12 + n)" and n: "n < 9"
  show "P (39 + n)" using A [rule_format, of "27 + n"] n by simp
  show "P (30 + n)" using A [rule_format, of "18 + n"] n by simp
  show "P (21 + n)" using A [rule_format, of "9 + n"] n by simp
  show "P (12 + n)" using A n by simp
next
  fix n :: nat
  assume A: "(\<forall>n < 9. P (39 + n)) \<and> (\<forall>n < 9. P (30 + n)) \<and> (\<forall>n < 9. P (21 + n)) \<and>
      (\<forall>n < 9. P (12 + n))" and n: "n < 36"
  consider "27 \<le> n" | "18 \<le> n" "n < 27" | "9 \<le> n" "n < 18" | "n < 9" by linarith
  then show "P (12 + n)"
  proof cases
    case 1
    then show ?thesis using A n spec [of "\<lambda>k. k < 9 \<longrightarrow> P (39 + k)" "n - 27"] by simp
  next
    case 2
    then show ?thesis using A spec [of "\<lambda>k. k < 9 \<longrightarrow> P (30 + k)" "n - 18"] by simp
  next
    case 3
    then show ?thesis using A spec [of "\<lambda>k. k < 9 \<longrightarrow> P (21 + k)" "n - 9"] by simp
  next
    case 4
    then show ?thesis using A by simp
  qed
qed

lemma same_page_iff: "same_page v w \<longleftrightarrow> va_path v = va_path w \<and> va_leaf v = va_leaf w"
proof -
  have "same_page v w \<longleftrightarrow> (\<forall>n < 36. bit v (12 + n) = bit w (12 + n))"
    unfolding same_page_def bit_eq_iff possible_bit_word by (simp add: bit_simps bounded_bits_eq)
  also have "\<dots> \<longleftrightarrow> va_path v = va_path w \<and> va_leaf v = va_leaf w"
    unfolding interval_36 [of "\<lambda>n. bit v n = bit w n"]
    by (simp add: va_path_def va_leaf_def page_table_indices_def index_eq_iff)
  finally show ?thesis .
qed

text \<open>The entry of one page was written; every other page translates as before.\<close>

definition page_written :: "u64 set \<Rightarrow> vmm \<Rightarrow> u64 \<Rightarrow> u64 \<Rightarrow> vmm \<Rightarrow> bool" where
  "page_written X s virt e s' \<longleftrightarrow> extends X s s' \<and>
     (\<forall>v. page_entry s' v = (if same_page v virt then e else page_entry s v)) \<and>
     invlpg_log s' = invlpg_log s @ [virt]"

lemma page_written_after_grows:
  "grows X s s1 \<Longrightarrow> page_written {} s1 virt e s2 \<Longrightarrow> page_written X s virt e s2"
  unfolding grows_def page_written_def by (auto intro: extends_trans)

lemma invlpg_simps [simp]:
  "vmm_inv (vmm_invlpg s v) = vmm_inv s" "page_entry (vmm_invlpg s v) = page_entry s"
  "small_to (vmm_invlpg s v) = small_to s" "vmm_pmm (vmm_invlpg s v) = vmm_pmm s"
  "table_at (vmm_invlpg s v) = table_at s" "same_config s0 (vmm_invlpg s v) = same_config s0 s"
  "invlpg_log (vmm_invlpg s v) = invlpg_log s @ [v]"
  by (simp_all add: vmm_invlpg_def vmm_inv_def page_entry_def small_to_def table_at_def
      same_config_def fun_eq_iff)

lemma leaf_written:
  assumes inv: "vmm_inv s" and u: "table_at s (va_path virt) u"
    and s': "s' = vmm_invlpg (vmm_store64 s (slot (u + vmm_hhdm_offset s) (va_leaf virt)) e) virt"
  shows "page_written {} s virt e s'" and "pmm_avail (vmm_pmm s') = pmm_avail (vmm_pmm s)"
proof -
  define s1 where "s1 = vmm_store64 s (slot (u + vmm_hhdm_offset s) (va_leaf virt)) e"
  note uniq = vmm_inv_unique [OF inv]
  note r = leaf_reaches [OF uniq u [unfolded table_at_def], of "va_leaf virt" e, simplified]
  have t: "table_at s1 b w = table_at s b w" for b w
    using r [of b w] by (simp add: s1_def table_at_store) (simp add: table_at_def)
  note st = vmm_store_inv [OF inv u va_path_facts(3) s1_def]
  have inv1: "vmm_inv s1" and av: "pmm_avail (vmm_pmm s1) = pmm_avail (vmm_pmm s)"
    using st(1,2) vmm_inv_off_limits [OF inv] table_at_unique [OF inv] unfolding t by blast+
  have keep: "vmm_mem s1 x = vmm_mem s x" if "foreign_byte s s' x" for x
    using st(3) [of x] that u t by (auto simp: foreign_byte_def s' s1_def [symmetric])
  have pages: "page_entry s1 v = (if same_page v virt then e else page_entry s v)" for v
    using leaf_walk [OF uniq u [unfolded table_at_def], of e v]
    by (simp add: s1_def page_entry_def vmm_store64_def same_page_iff)
  have small: "small_to s1 b" if "length b \<le> 3" "\<forall>i \<in> set b. i < 512" "small_to s b" for b
    using leaf_small [OF uniq u [unfolded table_at_def], of "va_leaf virt" b e] that
    by (simp add: s1_def small_to_def vmm_store64_def)
  have "same_config s s1" "invlpg_log s1 = invlpg_log s"
    by (simp_all add: same_config_def s1_def vmm_store64_def)
  then show "page_written {} s virt e s'"
    using inv1 av keep pages small t
    by (simp add: page_written_def extends_def s' s1_def [symmetric])
  show "pmm_avail (vmm_pmm s') = pmm_avail (vmm_pmm s)"
    using av by (simp add: s' s1_def [symmetric])
qed

section \<open>Mapping and unmapping\<close>

lemma root_at: "vmm_inv s \<Longrightarrow> table_at s [] (root_table s)"
  by (simp add: table_at_def reaches_def)

lemma map_tables:
  assumes "vmm_inv s" and "small_to s (va_path virt)"
    and "page_table_indices virt = (a, b, c, d)"
  shows "ensured s (va_path virt)
    (ensure_from (ensure_from (ensure_next_level s (current_pml4 s) a) b) c) 3"
proof -
  have vp: "va_path virt = [a, b, c]" using assms(3) by (simp add: va_path_def)
  then have i: "a < 512" "b < 512" "c < 512" using va_path_facts(2) [of _ virt] by simp_all
  have small: "small_to s [a]" "small_to s [a, b]" "small_to s [a, b, c]"
    using assms(2) small_to_prefix [of s "[a]" "[b, c]"] small_to_prefix [of s "[a, b]" "[c]"] vp
    by simp_all
  have "ensured s [a] (ensure_next_level s (current_pml4 s) a) 1"
    using ensure_next_level_ok [OF assms(1) root_at [OF assms(1)], of a] i(1) small(1)
    by (auto simp: current_pml4_def phys_to_virt_table_def)
  from ensure_from_ok [OF this, of b] have
    "ensured s [a, b] (ensure_from (ensure_next_level s (current_pml4 s) a) b) 2"
    using i small(2) by (simp add: numeral_2_eq_2)
  from ensure_from_ok [OF this, of c] show ?thesis
    using i small(3) by (simp add: vp numeral_3_eq_3)
qed

lemma vmm_map_result:
  assumes "vmm_inv s" and "small_to s (va_path virt)" and "vmm_map s virt phys flags = (ok, s')"
  shows "ok \<Longrightarrow> page_written (pmm_avail (vmm_pmm s)) s virt ((phys AND PTE_ADDR_MASK) OR translate_flags flags) s'"
    and "\<not> ok \<Longrightarrow> grows (pmm_avail (vmm_pmm s)) s s' \<and> pmm_avail (vmm_pmm s') = {}"
    and "card (pmm_avail (vmm_pmm s)) \<le> card (pmm_avail (vmm_pmm s')) + 3"
proof -
  obtain a b c d where ix: "page_table_indices virt = (a, b, c, d)"
    by (cases "page_table_indices virt")
  then have d: "d = va_leaf virt" by (simp add: va_leaf_def)
  obtain r s1 where rs: "ensure_from (ensure_from (ensure_next_level s (current_pml4 s) a) b) c = (r, s1)"
    by fastforce
  note e = map_tables [OF assms(1,2) ix, unfolded rs ensured_def fst_conv snd_conv]
  have m: "vmm_map s virt phys flags = (case r of None \<Rightarrow> (False, s1) | Some table \<Rightarrow>
      (True, vmm_invlpg (vmm_store64 s1 (slot table d)
        ((phys AND PTE_ADDR_MASK) OR translate_flags flags)) virt))"
    by (simp add: vmm_map_def ix rs split: option.split)
  have g: "grows (pmm_avail (vmm_pmm s)) s s1" using e by blast
  note h = grows_facts(3,2) [OF g]
  show "\<not> ok \<Longrightarrow> grows (pmm_avail (vmm_pmm s)) s s' \<and> pmm_avail (vmm_pmm s') = {}"
    using m assms(3) e by (auto split: option.splits)
  have w: "page_written {} s1 virt ((phys AND PTE_ADDR_MASK) OR translate_flags flags) s' \<and>
      pmm_avail (vmm_pmm s') = pmm_avail (vmm_pmm s1)" if success: ok
  proof -
    obtain w where w: "r = Some (w + vmm_hhdm_offset s1)" "table_at s1 (va_path virt) w"
      using success m assms(3) e h(1) by (auto split: option.splits)
    show ?thesis
      using leaf_written [OF h(2) w(2)] m assms(3) w(1) d by simp
  qed
  show "ok \<Longrightarrow> page_written (pmm_avail (vmm_pmm s)) s virt ((phys AND PTE_ADDR_MASK) OR translate_flags flags) s'"
    using w page_written_after_grows [OF g] by blast
  show "card (pmm_avail (vmm_pmm s)) \<le> card (pmm_avail (vmm_pmm s')) + 3"
    using e w m assms(3) by (cases ok) (auto split: option.splits)
qed

end
