(* ===== verification/Arch_Paging.thy ===== *)
theory Arch_Paging
  imports Arch_Mmu
begin

text \<open>
  The promises of the virtual memory manager, over the page walk of \<open>Arch_Mmu\<close>:
  mapping, unmapping, demand paging, guarded regions and device mappings.
\<close>

section \<open>Unmapping\<close>

lemma descend:
  assumes "table_at s a u" "length a \<le> 2" "i < 512" "small_to s (a @ i # c)"
    and "load64 (vmm_mem s) (slot (u + vmm_hhdm_offset s) i) AND PTE_PRESENT \<noteq> 0"
  shows "table_at s (a @ [i])
    (load64 (vmm_mem s) (slot (u + vmm_hhdm_offset s) i) AND PTE_ADDR_MASK)"
proof -
  have "load64 (vmm_mem s) (slot (u + vmm_hhdm_offset s) i) AND 128 = 0"
    using assms unfolding small_to_def small_path_def table_at_def reaches_def by blast
  then show ?thesis
    using assms by (auto simp: table_at_def reaches_def follow_append Let_def)
qed

lemma no_descent:
  assumes "table_at s a u" "va_path v = a @ i # c"
    and "load64 (vmm_mem s) (slot (u + vmm_hhdm_offset s) i) AND PTE_PRESENT = 0"
  shows "page_entry s v = 0"
  using assms by (simp add: page_entry_def walk_entry_def table_at_def reaches_def follow_append)

lemma unmap_absent:
  assumes "vmm_inv s" "table_at s a u" "va_path virt = a @ i # c"
    and "load64 (vmm_mem s) (slot (u + vmm_hhdm_offset s) i) AND PTE_PRESENT = 0"
  shows "page_entry s v = (if same_page v virt then 0 else page_entry s v)"
  using assms no_descent [OF assms(2) _ assms(4), of v c] by (simp add: same_page_iff)

text \<open>Unmapping writes 0 into the entry, or finds that there is no page table.\<close>

lemma vmm_unmap_result:
  assumes inv: "vmm_inv s" and small: "small_to s (va_path virt)"
  shows "extends {} s (vmm_unmap s virt) \<and>
    page_entry (vmm_unmap s virt) v = (if same_page v virt then 0 else page_entry s v) \<and>
    pmm_avail (vmm_pmm (vmm_unmap s virt)) = pmm_avail (vmm_pmm s)"
proof -
  obtain a b c d where ix: "page_table_indices virt = (a, b, c, d)"
    by (cases "page_table_indices virt")
  then have vp: "va_path virt = [a, b, c]" and d: "d = va_leaf virt"
    by (simp_all add: va_path_def va_leaf_def)
  then have i: "a < 512" "b < 512" "c < 512" using va_path_facts(2) [of _ virt] by simp_all
  let ?h = "vmm_hhdm_offset s"
  let ?e4 = "load64 (vmm_mem s) (slot (root_table s + ?h) a)"
  let ?e3 = "load64 (vmm_mem s) (slot ((?e4 AND PTE_ADDR_MASK) + ?h) b)"
  let ?e2 = "load64 (vmm_mem s) (slot ((?e3 AND PTE_ADDR_MASK) + ?h) c)"
  note t4 = root_at [OF inv]
  have t3: "table_at s [a] (?e4 AND PTE_ADDR_MASK)" if "?e4 AND PTE_PRESENT \<noteq> 0"
    using descend [OF t4 _ i(1), of "[b, c]"] small that vp by simp
  have t2: "table_at s [a, b] (?e3 AND PTE_ADDR_MASK)"
    if "?e4 AND PTE_PRESENT \<noteq> 0" "?e3 AND PTE_PRESENT \<noteq> 0"
    using descend [OF t3 _ i(2), of "[c]"] small that vp by simp
  have t1: "table_at s [a, b, c] (?e2 AND PTE_ADDR_MASK)"
    if "?e4 AND PTE_PRESENT \<noteq> 0" "?e3 AND PTE_PRESENT \<noteq> 0" "?e2 AND PTE_PRESENT \<noteq> 0"
    using descend [OF t2 _ i(3), of "[]"] small that vp by simp
  have un: "vmm_unmap s virt =
      (if ?e4 AND PTE_PRESENT = 0 \<or> ?e3 AND PTE_PRESENT = 0 \<or> ?e2 AND PTE_PRESENT = 0 then s
       else vmm_invlpg (vmm_store64 s (slot ((?e2 AND PTE_ADDR_MASK) + ?h) d) 0) virt)"
    by (simp add: vmm_unmap_def ix current_pml4_def phys_to_virt_table_def Let_def)
  consider (off) "?e4 AND PTE_PRESENT = 0 \<or> ?e3 AND PTE_PRESENT = 0 \<or> ?e2 AND PTE_PRESENT = 0"
    | (on) "?e4 AND PTE_PRESENT \<noteq> 0" "?e3 AND PTE_PRESENT \<noteq> 0" "?e2 AND PTE_PRESENT \<noteq> 0"
    by blast
  then show ?thesis
  proof cases
    case off
    then have "page_entry s v = (if same_page v virt then 0 else page_entry s v)"
      using unmap_absent [OF inv t4, of virt a "[b, c]" v]
        unmap_absent [OF inv t3, of virt b "[c]" v] unmap_absent [OF inv t2, of virt c "[]" v] vp
      by fastforce
    then show ?thesis using off un extends_refl [OF inv] by simp
  next
    case on
    have "table_at s (va_path virt) (?e2 AND PTE_ADDR_MASK)" using t1 [OF on] vp by simp
    from leaf_written [OF inv this, of _ 0] show ?thesis
      using on un d by (simp add: page_written_def)
  qed
qed

section \<open>A frame of one's own\<close>

text \<open>
  A frame that its holder may write: no free frame, no part of the frame bitmap, no page
  table. The page-table operations keep it that way and leave its bytes alone.
\<close>

definition own_frame :: "vmm \<Rightarrow> u64 \<Rightarrow> bool" where
  "own_frame s N \<longleftrightarrow> phys_table N \<and> off_limits (vmm_pmm s) N \<and> (\<forall>a. \<not> table_at s a N)"

definition frame_zero :: "vmm \<Rightarrow> u64 \<Rightarrow> bool" where
  "frame_zero s N \<longleftrightarrow> (\<forall>x. frame_no s x * PAGE_SIZE = N \<longrightarrow> vmm_mem s x = 0)"

lemma frame_no_bound: "unat (y div PAGE_SIZE :: u64) < 2 ^ 52"
  using unat_lt_64 [of y] by (simp add: unat_div_64)

lemma own_frame_foreign:
  assumes "own_frame s' N" "own_frame s N" "vmm_inv s'" "frame_no s x * PAGE_SIZE = N"
  shows "foreign_byte s s' x"
proof -
  have F: "N div PAGE_SIZE = frame_no s x"
    using frame_addr_div [of "frame_no s x"] assms(4) frame_no_bound by (simp add: frame_no_def)
  have "u div PAGE_SIZE \<noteq> frame_no s x" if "table_at s' a u" for a u
  proof
    assume "u div PAGE_SIZE = frame_no s x"
    moreover have "phys_table u"
      using that unique_phys [OF vmm_inv_unique [OF assms(3)]] by (simp add: table_at_def)
    ultimately have "u = N" using phys_table_frame assms(4) by metis
    then show False using that assms(1) by (simp add: own_frame_def)
  qed
  then show ?thesis
    using assms(2,4) F by (simp add: foreign_byte_def own_frame_def off_limits_def)
qed

lemma extends_own:
  assumes "extends X s s'" "own_frame s N" "N \<notin> X"
  shows "own_frame s' N" and "frame_zero s N \<Longrightarrow> frame_zero s' N"
proof -
  have cfg: "bitmap_home (vmm_pmm s') = bitmap_home (vmm_pmm s)" "frame_no s' = frame_no s"
    "pmm_frame_count (vmm_pmm s') = pmm_frame_count (vmm_pmm s)"
    using assms(1) by (simp_all add: extends_def same_config_def bitmap_home_def frame_no_def fun_eq_iff)
  have "\<not> table_at s' a N" for a
    using assms unfolding own_frame_def extends_def by blast
  then show own: "own_frame s' N"
    using assms cfg by (auto simp: own_frame_def off_limits_def extends_def)
  show "frame_zero s' N" if "frame_zero s N"
    using that own_frame_foreign [OF own assms(2) extends_facts(1) [OF assms(1)]] assms(1) cfg
    by (auto simp: frame_zero_def extends_def)
qed

lemma vmm_alloc_own:
  assumes "vmm_inv s" and "vmm_alloc s = (N, s')" and "pmm_avail (vmm_pmm s) \<noteq> {}"
  shows "own_frame s' N" and "frame_zero s' N" and "N \<noteq> 0"
proof -
  note g = vmm_alloc_grows [OF assms]
  note f = grows_facts [OF g(1)]
  have h: "vmm_hhdm_offset s' = pmm_hhdm_offset (vmm_pmm s')" using f(2) by (simp add: vmm_inv_def)
  then show "own_frame s' N"
    using g(2) f(4) by (auto simp: own_frame_def fresh_table_def table_at_def)
  show "N \<noteq> 0" using g(4) pmm_frames.sentinel assms(1) by (auto simp: vmm_inv_def)
  obtain p where p: "pmm_alloc_frame (vmm_pmm s) = (N, p)" "s' = s\<lparr>vmm_pmm := p\<rparr>"
    using assms(2) by (auto simp: vmm_alloc_def split: prod.splits)
  have inv: "pmm_inv (vmm_pmm s)" using assms(1) by (simp add: vmm_inv_def)
  obtain n where post: "alloc_post (vmm_pmm s) n N p"
    using pmm_alloc_frame_post [OF inv assms(3) p(1)] .
  have h0: "vmm_hhdm_offset s = pmm_hhdm_offset (vmm_pmm s)" using assms(1) by (simp add: vmm_inv_def)
  have "vmm_mem s' x = 0" if "frame_no s' x * PAGE_SIZE = N" for x
  proof -
    have "x - vmm_hhdm_offset s - N < PAGE_SIZE"
      using in_frame_iff [of "frame_no s' x" "x - vmm_hhdm_offset s"] frame_no_bound that p(2)
      by (simp add: frame_no_def)
    then show ?thesis
      using post p(2) h0 by (simp add: alloc_post_def algebra_simps)
  qed
  then show "frame_zero s' N" by (simp add: frame_zero_def)
qed

text \<open>Taking a frame and mapping it, as the fault handler and the region allocator do.\<close>

definition granted :: "vmm \<Rightarrow> u64 \<Rightarrow> u64 \<Rightarrow> u32 \<Rightarrow> vmm \<Rightarrow> bool" where
  "granted s virt N flags s' \<longleftrightarrow> N \<in> pmm_avail (vmm_pmm s) \<and>
     page_written (pmm_avail (vmm_pmm s)) s virt (N OR translate_flags flags) s' \<and>
     own_frame s' N \<and> frame_zero s' N"

lemma alloc_then_map:
  assumes inv: "vmm_inv s" and small: "small_to s (va_path virt)"
    and al: "vmm_alloc s = (N, s1)" and ne: "pmm_avail (vmm_pmm s) \<noteq> {}"
    and mp: "vmm_map s1 virt N flags = (ok, s')"
  shows "N \<in> pmm_avail (vmm_pmm s)"
    and "ok \<Longrightarrow> granted s virt N flags s'"
    and "\<not> ok \<Longrightarrow> grows (pmm_avail (vmm_pmm s)) s s' \<and> pmm_avail (vmm_pmm s') = {} \<and> own_frame s' N"
    and "card (pmm_avail (vmm_pmm s)) \<le> card (pmm_avail (vmm_pmm s')) + 4"
proof -
  note g = vmm_alloc_grows [OF inv al ne]
  note own = vmm_alloc_own [OF inv al ne]
  note f = grows_facts [OF g(1)]
  have small1: "small_to s1 (va_path virt)" using f(1) small by (simp add: extends_def)
  note m = vmm_map_result [OF f(2) small1 mp]
  have N: "N \<notin> pmm_avail (vmm_pmm s1)" and mask: "N AND PTE_ADDR_MASK = N"
    using g(5) own(1) by (simp_all add: own_frame_def phys_table_def)
  have sub: "{} \<union> pmm_avail (vmm_pmm s1) \<subseteq> pmm_avail (vmm_pmm s)" using f(5) by simp
  show Ns: "N \<in> pmm_avail (vmm_pmm s)" by (rule g(4))
  show "granted s virt N flags s'" if ok
  proof -
    note w = m(1) [OF that, unfolded mask page_written_def]
    have "extends (pmm_avail (vmm_pmm s)) s s'"
      using extends_trans [OF f(1) _ sub] w by blast
    then show ?thesis
      using w g(1) extends_own [OF _ own(1) N, of s'] own(2) Ns
      by (auto simp: granted_def page_written_def grows_def)
  qed
  show "grows (pmm_avail (vmm_pmm s)) s s' \<and> pmm_avail (vmm_pmm s') = {} \<and> own_frame s' N" if "\<not> ok"
    using m(2) [OF that] grows_trans [OF g(1) _ sub] extends_own(1) [OF _ own(1) N, of s']
    by (auto simp: grows_def)
  have "card (pmm_avail (vmm_pmm s)) = card (pmm_avail (vmm_pmm s1)) + 1"
    unfolding g(5) using card.remove [OF finite_avail g(4)] by linarith
  then show "card (pmm_avail (vmm_pmm s)) \<le> card (pmm_avail (vmm_pmm s')) + 4"
    using m(3) by linarith
qed

text \<open>Giving a frame of one's own back.\<close>

lemma same_tables_vmm:
  assumes "vmm_inv s" "same_tables (vmm_mem s) m (vmm_hhdm_offset s) (root_table s)"
    and s': "s' = s\<lparr>vmm_pmm := p\<rparr>" "pmm_mem p = m"
  shows "table_at s' = table_at s" "page_entry s' = page_entry s"
    "length b \<le> 3 \<Longrightarrow> \<forall>i \<in> set b. i < 512 \<Longrightarrow> small_to s' b = small_to s b"
  using same_tables_reaches [OF assms(2)] same_tables_walk [OF assms(2)]
    same_tables_small [OF assms(2), of b]
  by (simp_all add: table_at_def page_entry_def small_to_def s' fun_eq_iff)

lemma vmm_invI:
  assumes "pmm_inv (vmm_pmm s)" "vmm_hhdm_offset s = pmm_hhdm_offset (vmm_pmm s)"
    and "\<And>a u. table_at s a u \<Longrightarrow> off_limits (vmm_pmm s) u"
    and "\<And>a b u. table_at s a u \<Longrightarrow> table_at s b u \<Longrightarrow> a = b"
  shows "vmm_inv s"
  using assms unfolding vmm_inv_def tables_ok_def table_at_def by simp

lemma clear_keeps_entry:
  assumes "off_limits p u" "phys_table u" "i < 512" "pmm_inv p" "f < pmm_frame_count p"
  shows "load64 (bitmap_clear (pmm_mem p) (pmm_bitmap p) f) (slot (u + pmm_hhdm_offset p) i) =
    load64 (pmm_mem p) (slot (u + pmm_hhdm_offset p) i)"
proof (rule load64_cong)
  fix k :: u64
  assume "k < 8"
  have "f div 8 < bitmap_byte_count (pmm_frame_count p)"
    using assms(4,5) by (intro bit_byte_in_bitmap) (simp_all add: pmm_inv_def)
  then have "bitmap_home p (f div 8) \<noteq> u div PAGE_SIZE" using assms(1) by (simp add: off_limits_def)
  then have "slot (u + pmm_hhdm_offset p) i + k \<noteq> pmm_bitmap p + f div 8"
    using entry_byte_frame [OF assms(2,3) \<open>k < 8\<close>, of "pmm_hhdm_offset p"]
    by (auto simp: bitmap_home_def)
  then show "bitmap_clear (pmm_mem p) (pmm_bitmap p) f (slot (u + pmm_hhdm_offset p) i + k) =
      pmm_mem p (slot (u + pmm_hhdm_offset p) i + k)"
    by (rule bitmap_clear_frame)
qed

lemma vmm_free_own:
  assumes inv: "vmm_inv s" and own: "own_frame s N" and N: "N \<noteq> 0"
    and used: "N div PAGE_SIZE < pmm_frame_count (vmm_pmm s)"
  obtains s' where "vmm_free s N = Inr s'" and "vmm_inv s'"
    and "pmm_avail (vmm_pmm s') = insert N (pmm_avail (vmm_pmm s))"
    and "table_at s' = table_at s" and "page_entry s' = page_entry s" and "same_config s s'"
    and "\<And>b. length b \<le> 3 \<Longrightarrow> \<forall>i \<in> set b. i < 512 \<Longrightarrow> small_to s' b = small_to s b"
    and "\<And>x. foreign_byte s s' x \<Longrightarrow> vmm_mem s' x = vmm_mem s x"
    and "invlpg_log s' = invlpg_log s"
proof -
  let ?p = "vmm_pmm s" and ?f = "N div PAGE_SIZE"
  have pinv: "pmm_inv ?p" "tables_ok ?p (root_table s)" "vmm_hhdm_offset s = pmm_hhdm_offset ?p"
    using inv by (simp_all add: vmm_inv_def)
  have Nf: "?f * PAGE_SIZE = N" using own phys_table_frame by (simp add: own_frame_def)
  have "pmm_used ?p ?f"
    using own pmm_avail_mem_iff [OF pinv(1) used] Nf by (simp add: own_frame_def off_limits_def)
  then obtain p where p: "pmm_free_frame ?p N = Inr p"
    "pmm_mem p = bitmap_clear (pmm_mem ?p) (pmm_bitmap ?p) ?f" "pmm_bitmap p = pmm_bitmap ?p"
    "pmm_frame_count p = pmm_frame_count ?p" "pmm_hhdm_offset p = pmm_hhdm_offset ?p"
    using used by (simp add: pmm_free_frame_def Let_def not_le)
  define s' where "s' = s\<lparr>vmm_pmm := p\<rparr>"
  have "?f \<noteq> 0" using Nf N by auto
  note free = pmm_free_frame_ok [OF pinv(1) p(1) _ this]
  have home: "\<And>i. i < bitmap_byte_count (pmm_frame_count ?p) \<Longrightarrow> bitmap_home ?p i \<noteq> ?f"
    using own by (simp add: own_frame_def off_limits_def)
  have av: "pmm_avail p = insert N (pmm_avail ?p)" and pi: "pmm_inv p"
    using free home Nf by simp_all
  have st: "same_tables (vmm_mem s) (pmm_mem p) (vmm_hhdm_offset s) (root_table s)"
    using vmm_inv_off_limits [OF inv] unique_phys [OF vmm_inv_unique [OF inv]]
      clear_keeps_entry [OF _ _ _ pinv(1) used]
    by (simp add: same_tables_def table_at_def p(2) pinv(3))
  note sv = same_tables_vmm [OF inv st s'_def refl]
  have "off_limits p u" if "table_at s a u" for a u
    using vmm_inv_off_limits [OF inv that] that own av p(3-5)
    by (auto simp: off_limits_def own_frame_def bitmap_home_def)
  then have "vmm_inv s'"
    using pi pinv(3) p(5) sv(1) table_at_unique [OF inv]
    by (intro vmm_invI) (simp_all add: s'_def)
  moreover have "vmm_mem s' x = vmm_mem s x" if "foreign_byte s s' x" for x
  proof -
    have "?f div 8 < bitmap_byte_count (pmm_frame_count ?p)"
      using pinv(1) used by (intro bit_byte_in_bitmap) (simp_all add: pmm_inv_def)
    then have "x \<noteq> pmm_bitmap ?p + ?f div 8"
      using that pinv(3) by (auto simp: foreign_byte_def bitmap_home_def frame_no_def)
    then show ?thesis by (simp add: s'_def p(2) bitmap_clear_frame)
  qed
  ultimately show thesis
    using p av sv by (intro that [of s']) (simp_all add: s'_def vmm_free_def same_config_def)
qed

section \<open>Guarded regions\<close>

text \<open>Page \<open>k\<close> of a region.\<close>

definition region_page :: "u64 \<Rightarrow> nat \<Rightarrow> u64" where
  "region_page start k = start + of_nat k * PAGE_SIZE"

lemma same_page_low_bits:
  assumes "same_page v w" "take_bit 12 v = take_bit 12 w"
  shows "take_bit 48 v = take_bit 48 w"
proof (rule bit_word_eqI)
  fix n assume "n < LENGTH(64)"
  have hi: "bit v (12 + k) = bit w (12 + k)" if "k < 36" for k
    using arg_cong [OF assms(1) [unfolded same_page_def], of "\<lambda>x. bit x k"] that
    by (simp add: bit_simps)
  have lo: "bit v k = bit w k" if "k < 12" for k
    using arg_cong [OF assms(2), of "\<lambda>x. bit x k"] that by (simp add: bit_simps)
  show "bit (take_bit 48 v) n = bit (take_bit 48 w) n"
    using lo [of n] hi [of "n - 12"] by (cases "n < 12") (auto simp: bit_simps)
qed

lemma take_bit_add_word:
  fixes a b :: u64
  assumes "n \<le> 64"
  shows "take_bit n (a + b) = take_bit n (take_bit n a + take_bit n b)"
proof -
  have d: "(2 :: nat) ^ n dvd 2 ^ 64" using assms by (rule le_imp_power_dvd)
  have t: "unat (take_bit n x) = unat x mod 2 ^ n" for x :: u64
    unfolding unsigned_take_bit_eq by (rule take_bit_eq_mod)
  have "unat (x + y) mod 2 ^ n = (unat x + unat y) mod 2 ^ n" for x y :: u64
    using mod_mod_cancel [OF d, of "unat x + unat y"] by (simp add: unat_word_ariths)
  then show ?thesis by (intro word64_eqI) (simp add: t mod_simps)
qed

lemma region_page_low_bits: "take_bit 12 (region_page start k) = take_bit 12 start"
proof -
  have "take_bit 12 (of_nat k * PAGE_SIZE :: u64) = 0"
    by (rule bit_word_eqI) (simp add: bit_simps flip: push_bit_eq_mult [of 12 "of_nat k :: u64", simplified])
  moreover have "take_bit 12 (region_page start k) =
      take_bit 12 (take_bit 12 start + take_bit 12 (of_nat k * PAGE_SIZE))"
    unfolding region_page_def by (rule take_bit_add_word) simp
  ultimately show ?thesis by simp
qed

lemma region_page_inj:
  assumes "same_page (region_page start j) (region_page start k)" "j < 2 ^ 36" "k < 2 ^ 36"
  shows "j = k"
proof -
  have "take_bit 48 (region_page start j) = take_bit 48 (region_page start k)"
    using assms(1) region_page_low_bits by (intro same_page_low_bits) simp_all
  then have "take_bit 48 (region_page start j + - start) = take_bit 48 (region_page start k + - start)"
    using take_bit_add_word [of 48 "region_page start j" "- start"]
      take_bit_add_word [of 48 "region_page start k" "- start"] by simp
  then have "take_bit 48 (of_nat (j * 4096) :: u64) = take_bit 48 (of_nat (k * 4096))"
    by (simp add: region_page_def)
  then have "unat (take_bit 48 (of_nat (j * 4096) :: u64)) = unat (take_bit 48 (of_nat (k * 4096) :: u64))"
    by simp
  then have "take_bit 48 (unat (of_nat (j * 4096) :: u64)) = take_bit 48 (unat (of_nat (k * 4096) :: u64))"
    by (simp only: unsigned_take_bit_eq)
  moreover have "unat (of_nat (j * 4096) :: u64) = j * 4096" "unat (of_nat (k * 4096) :: u64) = k * 4096"
    using assms(2,3) by (simp_all add: unat_of_nat_64 del: of_nat_mult)
  ultimately have "(j * 4096) mod 2 ^ 48 = (k * 4096) mod 2 ^ 48"
    by (simp only: take_bit_eq_mod)
  then show ?thesis using assms(2,3) by simp
qed

definition others_kept :: "vmm \<Rightarrow> u64 \<Rightarrow> nat \<Rightarrow> nat \<Rightarrow> vmm \<Rightarrow> bool" where
  "others_kept s start i n s' \<longleftrightarrow>
     (\<forall>v. (\<forall>k \<in> {i..<n}. \<not> same_page v (region_page start k)) \<longrightarrow> page_entry s' v = page_entry s v)"

definition region_mapped :: "vmm \<Rightarrow> u64 \<Rightarrow> u32 \<Rightarrow> nat \<Rightarrow> nat \<Rightarrow> vmm \<Rightarrow> bool" where
  "region_mapped s start flags i n s' \<longleftrightarrow>
     (\<exists>F. inj_on F {i..<n} \<and> F ` {i..<n} \<subseteq> pmm_avail (vmm_pmm s) - pmm_avail (vmm_pmm s') \<and>
        (\<forall>k \<in> {i..<n}. page_entry s' (region_page start k) = F k OR translate_flags flags \<and>
           frame_zero s' (F k)))"

lemma region_mapped_step:
  assumes g: "granted s (region_page start i) N flags s1" and e: "extends (pmm_avail (vmm_pmm s1)) s1 s'"
    and m: "region_mapped s1 start flags (Suc i) n s'" and o: "others_kept s1 start (Suc i) n s'"
    and n: "i < n" "n \<le> 2 ^ 36"
  shows "region_mapped s start flags i n s'" and "others_kept s start i n s'"
proof -
  obtain F where F: "inj_on F {Suc i..<n}"
    "F ` {Suc i..<n} \<subseteq> pmm_avail (vmm_pmm s1) - pmm_avail (vmm_pmm s')"
    "\<forall>k \<in> {Suc i..<n}. page_entry s' (region_page start k) = F k OR translate_flags flags \<and>
       frame_zero s' (F k)"
    using m by (auto simp: region_mapped_def)
  have w: "page_written (pmm_avail (vmm_pmm s)) s (region_page start i) (N OR translate_flags flags) s1"
    and N: "N \<in> pmm_avail (vmm_pmm s)" "own_frame s1 N" "frame_zero s1 N"
    using g by (simp_all add: granted_def)
  have N1: "N \<notin> pmm_avail (vmm_pmm s1)" using N(2) by (simp add: own_frame_def off_limits_def)
  have sub: "pmm_avail (vmm_pmm s1) \<subseteq> pmm_avail (vmm_pmm s)"
    "pmm_avail (vmm_pmm s') \<subseteq> pmm_avail (vmm_pmm s1)"
    using w e by (auto simp: page_written_def extends_def)
  have apart: "\<not> same_page (region_page start i) (region_page start k)" if "k \<in> {Suc i..<n}" for k
    using region_page_inj [of start i k] that n by auto
  have "page_entry s' (region_page start i) = N OR translate_flags flags"
    using o apart w by (simp add: others_kept_def page_written_def same_page_def)
  moreover have "frame_zero s' N" using extends_own(2) [OF e N(2) N1 N(3)] .
  moreover have split: "{i..<n} = insert i {Suc i..<n}" using n(1) by auto
  ultimately have "\<forall>k \<in> {i..<n}. page_entry s' (region_page start k) =
      (F(i := N)) k OR translate_flags flags \<and> frame_zero s' ((F(i := N)) k)"
    using F(3) by auto
  moreover have "inj_on (F(i := N)) {i..<n}" using F(1,2) N1 by (auto simp: split inj_on_def)
  moreover have "(F(i := N)) ` {i..<n} \<subseteq> pmm_avail (vmm_pmm s) - pmm_avail (vmm_pmm s')"
    using F(2) N(1) N1 sub by (auto simp: split)
  ultimately show "region_mapped s start flags i n s'" unfolding region_mapped_def by blast
  show "others_kept s start i n s'"
    using o w unfolding others_kept_def page_written_def split by auto
qed

lemma region_page_word: "start + i * PAGE_SIZE = region_page start (unat i)"
  by (simp add: region_page_def)

lemma exhausted_alloc:
  "vmm_inv s \<Longrightarrow> pmm_avail (vmm_pmm s) = {} \<Longrightarrow> vmm_alloc s = (0, s)"
  using pmm_frames.exhausted [of "vmm_pmm s"] by (simp add: vmm_inv_def vmm_alloc_def)

lemma avail_frame_bound:
  assumes "vmm_inv s" "N \<in> pmm_avail (vmm_pmm s)" "same_config s s'"
  shows "N div PAGE_SIZE < pmm_frame_count (vmm_pmm s')"
proof -
  obtain f where "f < pmm_frame_count (vmm_pmm s)" "N = f * PAGE_SIZE"
    using assms(2) by (auto simp: pmm_avail_def)
  then show ?thesis
    using assms(1,3) frame_addr_div [OF pmm_frame_bound [of "vmm_pmm s" f]]
    by (simp add: vmm_inv_def same_config_def)
qed

text \<open>What the loop of \<^verbatim>\<open>vmm_alloc_guarded\<close> has done when it ends.\<close>

definition loop_done :: "vmm \<Rightarrow> u64 \<Rightarrow> u32 \<Rightarrow> nat \<Rightarrow> nat \<Rightarrow> bool \<times> vmm \<Rightarrow> bool" where
  "loop_done s start flags i n r \<longleftrightarrow> extends (pmm_avail (vmm_pmm s)) s (snd r) \<and>
     others_kept s start i n (snd r) \<and>
     card (pmm_avail (vmm_pmm s)) \<le> card (pmm_avail (vmm_pmm (snd r))) + 4 * (n - i) \<and>
     (fst r \<longrightarrow> region_mapped s start flags i n (snd r)) \<and>
     (\<not> fst r \<longrightarrow> card (pmm_avail (vmm_pmm s)) \<le> 4 * (n - i))"

lemma loop_out_of_tables:
  assumes inv: "vmm_inv s" and grow: "grows (pmm_avail (vmm_pmm s)) s s2"
    and own: "own_frame s2 N" "N \<in> pmm_avail (vmm_pmm s)" "N \<noteq> 0"
    and none: "pmm_avail (vmm_pmm s2) = {}"
    and few: "card (pmm_avail (vmm_pmm s)) \<le> 4 * (n - i)"
  obtains s3 where "vmm_free s2 N = Inr s3" "loop_done s start flags i n (False, s3)"
proof -
  note g = grows_facts [OF grow]
  have cfg: "same_config s s2" using g(1) by (simp add: extends_def)
  obtain s3 where s3: "vmm_free s2 N = Inr s3" "vmm_inv s3"
      "pmm_avail (vmm_pmm s3) = insert N (pmm_avail (vmm_pmm s2))"
      "table_at s3 = table_at s2" "page_entry s3 = page_entry s2" "same_config s2 s3"
      "\<And>b. length b \<le> 3 \<Longrightarrow> \<forall>i \<in> set b. i < 512 \<Longrightarrow> small_to s3 b = small_to s2 b"
      "\<And>x. foreign_byte s2 s3 x \<Longrightarrow> vmm_mem s3 x = vmm_mem s2 x"
    using vmm_free_own [OF g(2) own(1,3) avail_frame_bound [OF inv own(2) cfg]] by metis
  have foreign: "foreign_byte s s2 x" "foreign_byte s2 s3 x" if "foreign_byte s s3 x" for x
    using that cfg s3(4) none
    by (simp_all add: foreign_byte_def same_config_def frame_no_def bitmap_home_def)
  have "extends (pmm_avail (vmm_pmm s)) s s3"
    using g(1) s3(2-7) own(2) none foreign s3(8) cfg
    by (auto simp: extends_def same_config_def)
  moreover have "others_kept s start i n s3"
    using grow s3(5) by (simp add: others_kept_def grows_def)
  ultimately show thesis
    using s3(1) few by (intro that [of s3]) (simp_all add: loop_done_def)
qed

lemma loop_done_step:
  assumes g: "granted s (region_page start i) N flags s1"
    and r: "loop_done s1 start flags (Suc i) n r"
    and n: "i < n" "n \<le> 2 ^ 36"
    and c: "card (pmm_avail (vmm_pmm s)) \<le> card (pmm_avail (vmm_pmm s1)) + 4"
  shows "loop_done s start flags i n r"
proof -
  have w: "page_written (pmm_avail (vmm_pmm s)) s (region_page start i) (N OR translate_flags flags) s1"
    using g by (simp add: granted_def)
  then have e: "extends (pmm_avail (vmm_pmm s)) s s1"
    and sub: "pmm_avail (vmm_pmm s1) \<subseteq> pmm_avail (vmm_pmm s)"
    by (simp_all add: page_written_def extends_def)
  have e1: "extends (pmm_avail (vmm_pmm s1)) s1 (snd r)" and o: "others_kept s1 start (Suc i) n (snd r)"
    using r by (simp_all add: loop_done_def)
  have "extends (pmm_avail (vmm_pmm s)) s (snd r)"
    using extends_trans [OF e e1, of "pmm_avail (vmm_pmm s)"] sub by simp
  moreover have "others_kept s start i n (snd r)"
    using o w n(1) unfolding others_kept_def page_written_def by (auto simp: Suc_le_eq)
  moreover have "region_mapped s start flags i n (snd r)" if "fst r"
    using region_mapped_step(1) [OF g e1 _ o n] r that by (simp add: loop_done_def)
  moreover have "card (pmm_avail (vmm_pmm s)) \<le> card (pmm_avail (vmm_pmm (snd r))) + 4 * (n - i)"
    using r c by (simp add: loop_done_def flip: Suc_diff_Suc [OF n(1)])
  moreover have "card (pmm_avail (vmm_pmm s)) \<le> 4 * (n - i)" if "\<not> fst r"
    using r that c Suc_diff_Suc [OF n(1)] by (simp add: loop_done_def flip: Suc_diff_Suc [OF n(1)])
  ultimately show ?thesis by (simp add: loop_done_def)
qed

lemma guarded_pages_done:
  assumes "vmm_inv s" "unat n \<le> 2 ^ 36"
    and "\<forall>k \<in> {unat i..<unat n}. small_to s (va_path (region_page start k))"
  shows "\<exists>r. guarded_pages s start flags i n = Inr r \<and> loop_done s start flags (unat i) (unat n) r"
  using assms
proof (induction s start flags i n rule: guarded_pages.induct)
  case (1 s start flags i n)
  show ?case
  proof (cases "i < n")
    case False
    then have "loop_done s start flags (unat i) (unat n) (True, s)"
      using 1(2) by (auto simp: loop_done_def extends_refl others_kept_def region_mapped_def
          word_less_nat_alt)
    then show ?thesis using False by (subst guarded_pages.simps) simp
  next
    case True
    then have lt: "unat i < unat n" and suc: "unat (i + 1) = Suc (unat i)"
      by (simp_all add: word_less_nat_alt unat_plus_one_64)
    have small: "small_to s (va_path (start + i * PAGE_SIZE))"
      using 1(4) lt by (simp add: region_page_word)
    obtain N s1 where al: "vmm_alloc s = (N, s1)" by (cases "vmm_alloc s")
    obtain ok s2 where mp: "vmm_map s1 (start + i * PAGE_SIZE) N flags = (ok, s2)"
      by (cases "vmm_map s1 (start + i * PAGE_SIZE) N flags")
    show ?thesis
    proof (cases "pmm_avail (vmm_pmm s) = {}")
      case empty: True
      then have "loop_done s start flags (unat i) (unat n) (False, s)"
        using 1(2) lt by (simp add: loop_done_def extends_refl others_kept_def)
      then show ?thesis
        using True exhausted_alloc [OF 1(2) empty] by (subst guarded_pages.simps) simp
    next
      case False
      note m = alloc_then_map [OF 1(2) small al False mp]
      have nz: "N \<noteq> 0" by (rule vmm_alloc_own(3) [OF 1(2) al False])
      show ?thesis
      proof (cases ok)
        case fine: True
        note gr = m(2) [OF fine, unfolded region_page_word]
        have s2: "vmm_inv s2" "\<forall>k \<in> {unat (i + 1)..<unat n}. small_to s2 (va_path (region_page start k))"
          using gr 1(4) suc by (simp_all add: granted_def page_written_def extends_def)
        obtain r where r: "guarded_pages s2 start flags (i + 1) n = Inr r"
          "loop_done s2 start flags (Suc (unat i)) (unat n) r"
          using 1(1) [OF True al [symmetric] refl nz mp [symmetric] refl _ s2(1) 1(3) s2(2)] fine suc
          by auto
        then show ?thesis
          using True al nz mp fine loop_done_step [OF gr r(2) lt 1(3) m(4)]
          by (subst guarded_pages.simps) simp
      next
        case bad: False
        note b = m(3) [OF bad]
        have "card (pmm_avail (vmm_pmm s)) \<le> 4 * (unat n - unat i)" using m(4) b lt by simp
        then obtain s3 where "vmm_free s2 N = Inr s3"
          "loop_done s start flags (unat i) (unat n) (False, s3)"
          using loop_out_of_tables [OF 1(2) _ _ m(1) nz] b by blast
        then show ?thesis
          using True al nz mp bad by (subst guarded_pages.simps) simp
      qed
    qed
  qed
qed

section \<open>A small machine\<close>

text \<open>
  Thirty-two frames of RAM and a page-table root in frame 32: frame 1 holds the frame bitmap,
  frames 2 to 31 are free, the root table is empty. One demand-paged region is registered.
\<close>

definition demo_mem :: mem where
  "demo_mem x = (if x = 0xffff800000001000 then 3 else if x = 0xffff800000001004 then 255 else 0)"

definition demo_vmm :: vmm where
  "demo_vmm = \<lparr>vmm_pmm = \<lparr>pmm_mem = demo_mem, pmm_bitmap = 0xffff800000001000, pmm_frame_count = 33,
       pmm_next_search_index = 0, pmm_hhdm_offset = 0xffff800000000000, pmm_free_frames = 30\<rparr>,
     vmm_hhdm_offset = 0xffff800000000000, dynamic_next_vaddr = VMM_DYNAMIC_VBASE,
     mmio_next_vaddr = VMM_MMIO_VBASE,
     lazy_regions = [\<lparr>lr_start = 0xffffffff90000000, lr_end = 0xffffffff91000000,
        lr_flags = VMM_WRITABLE, lr_used = True\<rparr>],
     vmm_cr3 = 0x20000, invlpg_log = []\<rparr>"

lemma demo_vmm_fields [simp]:
  "pmm_mem (vmm_pmm demo_vmm) = demo_mem" "pmm_bitmap (vmm_pmm demo_vmm) = 0xffff800000001000"
  "pmm_frame_count (vmm_pmm demo_vmm) = 33" "pmm_hhdm_offset (vmm_pmm demo_vmm) = 0xffff800000000000"
  "pmm_free_frames (vmm_pmm demo_vmm) = 30" "vmm_hhdm_offset demo_vmm = 0xffff800000000000"
  "dynamic_next_vaddr demo_vmm = VMM_DYNAMIC_VBASE" "mmio_next_vaddr demo_vmm = VMM_MMIO_VBASE"
  "vmm_cr3 demo_vmm = 0x20000" "invlpg_log demo_vmm = []"
  by (simp_all add: demo_vmm_def)

lemma small_frame_cases:
  fixes f :: u64
  assumes "f < 33"
  shows "f \<in> {0, 1, 2, 3, 4, 5, 6, 7, 8, 9, 10, 11, 12, 13, 14, 15, 16, 17, 18, 19, 20, 21, 22, 23, 24, 25, 26, 27, 28, 29, 30, 31, 32}"
proof -
  have "f = of_nat (unat f)" "unat f \<in> set [0..<33]" using assms by (simp_all add: word_less_nat_alt)
  then have "f \<in> set (map of_nat [0..<33])" by (metis image_eqI list.set_map)
  then show ?thesis by (simp add: upt_rec)
qed

lemma demo_vmm_used: "f < 33 \<Longrightarrow> pmm_used (vmm_pmm demo_vmm) f \<longleftrightarrow> f = 0 \<or> f = 1 \<or> f = 32"
  using small_frame_cases [of f]
  by (simp add: bitmap_test_iff demo_mem_def) (elim disjE; simp)

lemma demo_home: "i < bitmap_byte_count 33 \<Longrightarrow> bitmap_home (vmm_pmm demo_vmm) i = 1"
proof -
  assume "i < bitmap_byte_count 33"
  then have "i < 5" by (simp add: bitmap_byte_count_def align_up_def)
  then have "unat i < 5" by (simp add: word_less_nat_alt)
  then have "unat (4096 + i) = 4096 + unat i" by (simp add: unat_add_64)
  then have "unat ((4096 + i) div PAGE_SIZE) = 1" using \<open>unat i < 5\<close> by (simp add: unat_div_64)
  then have "(4096 + i) div PAGE_SIZE = 1" by (intro word64_eqI) simp
  then show "bitmap_home (vmm_pmm demo_vmm) i = 1" by (simp add: bitmap_home_def algebra_simps)
qed

lemma demo_vmm_pmm_inv: "pmm_inv (vmm_pmm demo_vmm)"
proof -
  have "count_clear (pmm_used (vmm_pmm demo_vmm)) 33 =
      count_clear (\<lambda>f. f = 0 \<or> f = 1 \<or> f = (32 :: u64)) 33"
    by (rule count_clear_cong) (use demo_vmm_used in \<open>simp_all add: word_less_nat_alt\<close>)
  also have "\<dots> = 30" by (simp add: count_clear_def upt_rec)
  finally have c: "count_clear (pmm_used (vmm_pmm demo_vmm)) 33 = 30" .
  show ?thesis
    unfolding pmm_inv_def using c by (auto simp: demo_vmm_used [simplified] demo_home)
qed

lemma demo_vmm_avail: "pmm_avail (vmm_pmm demo_vmm) = (\<lambda>f. f * PAGE_SIZE) ` {f. 2 \<le> f \<and> f < 32}"
proof -
  have "{f. f < 33 \<and> \<not> pmm_used (vmm_pmm demo_vmm) f} = {f. 2 \<le> f \<and> f < 32}"
  proof (intro set_eqI iffI)
    fix f assume f: "f \<in> {f. f < 33 \<and> \<not> pmm_used (vmm_pmm demo_vmm) f}"
    then have "f \<noteq> 0" "f \<noteq> 1" "f \<noteq> 32" using demo_vmm_used [of f] by auto
    then show "f \<in> {f. 2 \<le> f \<and> f < 32}"
      using f by (simp add: word_less_nat_alt word_le_nat_alt word_unat_eq_iff)
  next
    fix f :: u64 assume "f \<in> {f. 2 \<le> f \<and> f < 32}"
    then have "f < 33 \<and> f \<noteq> 0 \<and> f \<noteq> 1 \<and> f \<noteq> 32"
      by (simp add: word_less_nat_alt word_le_nat_alt word_unat_eq_iff)
    then show "f \<in> {f. f < 33 \<and> \<not> pmm_used (vmm_pmm demo_vmm) f}" using demo_vmm_used [of f] by simp
  qed
  then show ?thesis by (simp add: pmm_avail_def)
qed

lemma demo_table_entry:
  assumes "i < 512"
  shows "load64 demo_mem (slot (0x20000 + 0xffff800000000000) i) = 0"
proof -
  have "load64 demo_mem (slot (0x20000 + 0xffff800000000000) i) =
      load64 (\<lambda>_. 0) (slot (0x20000 + 0xffff800000000000) i)"
  proof (rule load64_cong)
    fix k :: u64 assume k: "k < 8"
    let ?x = "slot (0x20000 + 0xffff800000000000) i + k"
    have "phys_table (0x20000 :: u64)" by (simp add: phys_table_def)
    from entry_byte_frame [OF this assms k, of "0xffff800000000000"]
    have "(?x - 0xffff800000000000) div PAGE_SIZE = 32" by simp
    then have "?x \<noteq> 0xffff800000001000" "?x \<noteq> 0xffff800000001004" by auto
    then show "demo_mem ?x = 0" by (simp add: demo_mem_def)
  qed
  then show ?thesis by (simp add: load64_def)
qed

lemma demo_tables: "table_at demo_vmm a u \<longleftrightarrow> a = [] \<and> u = 0x20000"
proof (cases a)
  case Nil
  then show ?thesis by (auto simp: table_at_def reaches_def)
next
  case (Cons i b)
  then show ?thesis
    using demo_table_entry [of i] by (auto simp: table_at_def reaches_def)
qed

lemma demo_vmm_inv: "vmm_inv demo_vmm"
proof (rule vmm_invI [OF demo_vmm_pmm_inv])
  fix a u assume "table_at demo_vmm a u"
  then have u: "u = 0x20000" by (simp add: demo_tables)
  have "u \<notin> pmm_avail (vmm_pmm demo_vmm)"
    using pmm_avail_mem_iff [OF demo_vmm_pmm_inv, of 32] demo_vmm_used [of 32] u by simp
  then show "off_limits (vmm_pmm demo_vmm) u" by (simp add: off_limits_def u demo_home)
qed (auto simp: demo_tables)

lemma demo_small: "(\<forall>i \<in> set b. i < 512) \<Longrightarrow> small_to demo_vmm b"
  unfolding small_to_def small_path_def
proof (intro allI impI)
  fix a i c u
  assume b: "\<forall>i \<in> set b. i < 512" "b = a @ i # c"
    and u: "follow (vmm_mem demo_vmm) (vmm_hhdm_offset demo_vmm) (root_table demo_vmm) a = Some u"
    and on: "load64 (vmm_mem demo_vmm) (slot (u + vmm_hhdm_offset demo_vmm) i) AND 1 \<noteq> 0"
  have "a = []"
    using u b demo_table_entry by (cases a) (auto simp: Let_def split: if_splits)
  then show "load64 (vmm_mem demo_vmm) (slot (u + vmm_hhdm_offset demo_vmm) i) AND 128 = 0"
    using u on b demo_table_entry [of i] by simp
qed

lemma demo_paths: "small_to demo_vmm (va_path v)"
  by (rule demo_small) simp

lemma demo_page_entry: "page_entry demo_vmm v = 0"
proof -
  have "va_path v \<noteq> []" using va_path_facts(1) [of v] by (metis list.size(3) zero_neq_numeral)
  then obtain i c where p: "va_path v = [] @ i # c" by (cases "va_path v") simp_all
  then have i: "i \<in> set (va_path v)" by simp
  have "i < 512" using i by (rule va_path_facts(2))
  then show ?thesis using no_descent [of demo_vmm "[]" "0x20000" v, OF _ p] demo_table_entry [of i] by (simp add: demo_tables)
qed

section \<open>Properties\<close>

text \<open>
  What an entry means to the processor: the frame, present, writable, user, cache-disable and
  no-execute, and no other bit set.
\<close>

definition grants :: "u64 \<Rightarrow> u64 \<Rightarrow> u32 \<Rightarrow> bool" where
  "grants e phys flags \<longleftrightarrow> e AND 0x000ffffffffff000 = phys AND 0x000ffffffffff000 \<and> bit e 0 \<and>
     (bit e 1 \<longleftrightarrow> bit flags 0) \<and> (bit e 2 \<longleftrightarrow> bit flags 1) \<and> (bit e 4 \<longleftrightarrow> bit flags 2) \<and>
     (bit e 63 \<longleftrightarrow> bit flags 3) \<and> e AND 0x7ff0000000000fe8 = 0"

lemma flag_tests:
  "flags AND 1 \<noteq> 0 \<longleftrightarrow> bit flags 0" "flags AND 2 \<noteq> 0 \<longleftrightarrow> bit flags 1"
  "flags AND 4 \<noteq> 0 \<longleftrightarrow> bit flags 2" "flags AND 8 \<noteq> 0 \<longleftrightarrow> bit flags 3" for flags :: u32
proof -
  note p = bit_iff_and_push_bit_not_eq_0 [of flags, symmetric]
  show "flags AND 1 \<noteq> 0 \<longleftrightarrow> bit flags 0" "flags AND 2 \<noteq> 0 \<longleftrightarrow> bit flags 1"
    "flags AND 4 \<noteq> 0 \<longleftrightarrow> bit flags 2" "flags AND 8 \<noteq> 0 \<longleftrightarrow> bit flags 3"
    using p [of 0] p [of 1] p [of 2] p [of 3] by simp_all
qed

lemma leaf_entry_grants: "grants ((phys AND PTE_ADDR_MASK) OR translate_flags flags) phys flags"
proof -
  have z: "(phys AND PTE_ADDR_MASK) AND PTE_ADDR_MASK = phys AND PTE_ADDR_MASK"
    "(phys AND PTE_ADDR_MASK) AND 0x7ff0000000000fe8 = 0" by (simp_all add: and.assoc)
  have b: "\<not> bit (phys AND PTE_ADDR_MASK) n" if "n \<in> {0, 1, 2, 4, 63}" for n
    using that by (auto simp: bit_and_iff)
  show ?thesis
    unfolding grants_def translate_flags_def Let_def flag_tests bit_or_iff bit.conj_disj_distrib2
    by (simp add: z b)
qed


lemma demo_range: "1 < unat (x :: u64) \<Longrightarrow> unat x < 32 \<Longrightarrow> x * PAGE_SIZE \<in> pmm_avail (vmm_pmm demo_vmm)"
  unfolding demo_vmm_avail by (intro imageI) (simp add: word_less_nat_alt word_le_nat_alt)

lemma demo_card_exact: "30 \<le> card (pmm_avail (vmm_pmm demo_vmm))"
proof -
  have sub: "(\<lambda>n. of_nat n * PAGE_SIZE) ` {2..<32} \<subseteq> pmm_avail (vmm_pmm demo_vmm)"
    using demo_range by (auto simp: unat_of_nat_64)
  moreover have "inj_on (\<lambda>n. of_nat n * PAGE_SIZE :: u64) {2..<32}"
    by (rule inj_onI, drule frame_addr_inj [rotated 2]) (auto simp: unat_of_nat_64 dest: arg_cong [of _ _ unat])
  ultimately show ?thesis
    using card_mono [OF finite_avail sub] by (simp add: card_image)
qed

lemma demo_card: "16 < card (pmm_avail (vmm_pmm demo_vmm))"
  using demo_card_exact by linarith


text \<open>
  Unmapping. \<^verbatim>\<open>vmm_unmap\<close> clears the translation of exactly one page, keeps every
  other translation and every byte outside the page tables, and neither frees nor takes a frame.
\<close>

theorem vmm_unmap_correct:
  assumes "vmm_inv s" and "small_to s (va_path virt)"
  shows "vmm_inv (vmm_unmap s virt) \<and>
    (\<forall>v. page_entry (vmm_unmap s virt) v = (if same_page v virt then 0 else page_entry s v)) \<and>
    pmm_avail (vmm_pmm (vmm_unmap s virt)) = pmm_avail (vmm_pmm s) \<and>
    (\<forall>x. foreign_byte s (vmm_unmap s virt) x \<longrightarrow> vmm_mem (vmm_unmap s virt) x = vmm_mem s x)"
  using vmm_unmap_result [OF assms] by (simp add: extends_def)

theorem vmm_unmap_correct_witness:
  "page_entry (vmm_unmap demo_vmm 0xffffffff90000123) 0xffffffff90000fff = 0"
  using vmm_unmap_correct [OF demo_vmm_inv demo_small, of "0xffffffff90000123"]
  by (simp add: same_page_def)



text \<open>
  The next region of \<open>n\<close> pages can be mapped: no large page is on the way to one of them. Every
  operation keeps such paths.
\<close>

definition mappable :: "vmm \<Rightarrow> nat \<Rightarrow> bool" where
  "mappable s n \<longleftrightarrow> (\<forall>k \<in> {1..n}. small_to s (va_path (region_page (dynamic_next_vaddr s) k)))"

definition keeps_paths :: "vmm \<Rightarrow> vmm \<Rightarrow> bool" where
  "keeps_paths s s' \<longleftrightarrow> (\<forall>v. small_to s (va_path v) \<longrightarrow> small_to s' (va_path v))"

lemma extends_paths: "extends X s s' \<Longrightarrow> keeps_paths s s'"
  by (simp add: extends_def keeps_paths_def)

lemma vmm_alloc_guarded_result:
  assumes "vmm_inv s" and "unat n + 2 \<le> 2 ^ 36" and "mappable s (unat n)"
  shows "\<exists>r s'. vmm_alloc_guarded s n flags = Inr (r, s') \<and> vmm_inv s' \<and> keeps_paths s s' \<and>
    mmio_next_vaddr s' = mmio_next_vaddr s \<and>
    dynamic_next_vaddr s' = dynamic_next_vaddr s + (n + 2) * PAGE_SIZE \<and>
    others_kept s (dynamic_next_vaddr s + PAGE_SIZE) 0 (unat n) s' \<and>
    (\<forall>k \<in> {0, unat n + 1}. page_entry s' (region_page (dynamic_next_vaddr s) k) =
       page_entry s (region_page (dynamic_next_vaddr s) k)) \<and>
    card (pmm_avail (vmm_pmm s)) \<le> card (pmm_avail (vmm_pmm s')) + 4 * unat n \<and>
    (case r of None \<Rightarrow> card (pmm_avail (vmm_pmm s)) \<le> 4 * unat n
     | Some start \<Rightarrow> start = dynamic_next_vaddr s + PAGE_SIZE \<and>
         region_mapped s start flags 0 (unat n) s')"
proof -
  define s1 where "s1 = s\<lparr>dynamic_next_vaddr := dynamic_next_vaddr s + PAGE_SIZE + n * PAGE_SIZE + PAGE_SIZE\<rparr>"
  let ?base = "dynamic_next_vaddr s" and ?start = "dynamic_next_vaddr s + PAGE_SIZE"
  have same: "vmm_inv s1" "small_to s1 = small_to s" "page_entry s1 = page_entry s"
    "pmm_avail (vmm_pmm s1) = pmm_avail (vmm_pmm s)"
    using assms(1) by (simp_all add: s1_def vmm_inv_def small_to_def page_entry_def fun_eq_iff)
  have pg: "region_page ?start k = region_page ?base (Suc k)" for k
    by (simp add: region_page_def algebra_simps)
  obtain ok s' where g: "guarded_pages s1 ?start flags 0 n = Inr (ok, s')"
    and d: "loop_done s1 ?start flags 0 (unat n) (ok, s')"
    using guarded_pages_done [OF same(1), of n 0 ?start flags] assms(2,3) by (auto simp: same(2) pg mappable_def)
  have kept: "others_kept s ?start 0 (unat n) s'"
    using d same(3) by (simp add: loop_done_def others_kept_def)
  have guard: "page_entry s' (region_page ?base k) = page_entry s (region_page ?base k)"
    if "k = 0 \<or> k = unat n + 1" for k
  proof -
    have "\<not> same_page (region_page ?base k) (region_page ?start j)" if "j \<in> {0..<unat n}" for j
      using region_page_inj [of ?base k "Suc j"] that \<open>k = 0 \<or> k = unat n + 1\<close> assms(2)
      by (auto simp: pg)
    then show ?thesis using kept by (simp add: others_kept_def)
  qed
  have "extends (pmm_avail (vmm_pmm s1)) s1 s'" using d by (simp add: loop_done_def)
  then have "vmm_inv s'" "dynamic_next_vaddr s' = ?base + (n + 2) * PAGE_SIZE" "keeps_paths s s'"
      "mmio_next_vaddr s' = mmio_next_vaddr s"
    using same(2) extends_paths [of "pmm_avail (vmm_pmm s1)" s1 s']
    by (simp_all add: extends_def same_config_def keeps_paths_def)
      (simp_all add: s1_def algebra_simps)
  moreover have "vmm_alloc_guarded s n flags = Inr (if ok then Some ?start else None, s')"
    using g by (simp add: vmm_alloc_guarded_def s1_def Let_def)
  moreover have "if ok then region_mapped s ?start flags 0 (unat n) s'
      else card (pmm_avail (vmm_pmm s)) \<le> 4 * unat n"
    using d same by (simp add: loop_done_def region_mapped_def)
  moreover have "card (pmm_avail (vmm_pmm s)) \<le> card (pmm_avail (vmm_pmm s')) + 4 * unat n"
    using d same(4) by (simp add: loop_done_def)
  ultimately show ?thesis using kept guard by (cases ok) auto
qed

text \<open>
  C9: guarded regions. When no large page is on the way to the region, \<^verbatim>\<open>vmm_alloc_guarded\<close> never panics. It advances the bump pointer
  past the region and both guard pages; only translations of the region's own pages change, so
  the guard pages on either side stay as they were; a region it returns has every page mapped, to
  pairwise different frames that were free, zeroed, with the given flags; it takes at most
  four frames per page, and with more than that many free it does return one.
\<close>

theorem vmm_alloc_guarded_correct:
  assumes "vmm_inv s" and "unat n + 2 \<le> 2 ^ 36" and "mappable s (unat n)"
  shows "\<exists>r s'. vmm_alloc_guarded s n flags = Inr (r, s') \<and> vmm_inv s' \<and> keeps_paths s s' \<and>
    mmio_next_vaddr s' = mmio_next_vaddr s \<and>
    dynamic_next_vaddr s' = dynamic_next_vaddr s + (n + 2) * PAGE_SIZE \<and>
    others_kept s (dynamic_next_vaddr s + PAGE_SIZE) 0 (unat n) s' \<and>
    (\<forall>k \<in> {0, unat n + 1}. page_entry s' (region_page (dynamic_next_vaddr s) k) =
       page_entry s (region_page (dynamic_next_vaddr s) k)) \<and>
    card (pmm_avail (vmm_pmm s)) \<le> card (pmm_avail (vmm_pmm s')) + 4 * unat n \<and>
    (case r of None \<Rightarrow> card (pmm_avail (vmm_pmm s)) \<le> 4 * unat n
     | Some start \<Rightarrow> start = dynamic_next_vaddr s + PAGE_SIZE \<and>
         region_mapped s start flags 0 (unat n) s')"
  using assms by (rule vmm_alloc_guarded_result)

lemma demo_mappable: "mappable demo_vmm n"
  by (simp add: mappable_def demo_paths)

theorem vmm_alloc_guarded_correct_witness:
  "\<exists>s' N. vmm_alloc_guarded demo_vmm 2 1 = Inr (Some 0xffffffffb0001000, s') \<and>
     page_entry s' 0xffffffffb0002000 = N OR 3 \<and> page_entry s' 0xffffffffb0000000 = 0"
proof -
  show ?thesis
    using vmm_alloc_guarded_correct [OF demo_vmm_inv _ demo_mappable, of 2 1] demo_card demo_page_entry [of "0xffffffffb0000000"]
    by (auto simp: VMM_DYNAMIC_VBASE_def region_page_def region_mapped_def translate_flags_def
        split: option.splits dest!: bspec [where x = "1 :: nat" and A = "{0..<2}"]) (rule exI, rule refl)
qed

lemma vmm_map_mmio_result:
  assumes "vmm_inv s" and "small_to s (va_path (mmio_next_vaddr s))"
  shows "case vmm_map_mmio s phys of
      Inl e \<Rightarrow> e = Panic ''vmm_map_mmio: failed to map phys 0x%lx'' [phys] \<and>
        card (pmm_avail (vmm_pmm s)) \<le> 3
    | Inr (virt, s') \<Rightarrow> virt = mmio_next_vaddr s \<and> mmio_next_vaddr s' = mmio_next_vaddr s + PAGE_SIZE \<and>
        dynamic_next_vaddr s' = dynamic_next_vaddr s \<and> keeps_paths s s' \<and>
        vmm_inv s' \<and> (\<forall>v. page_entry s' v = (if same_page v virt
          then (phys AND 0x000ffffffffff000) OR 0x8000000000000013 else page_entry s v))"
proof -
  define s1 where "s1 = s\<lparr>mmio_next_vaddr := mmio_next_vaddr s + PAGE_SIZE\<rparr>"
  have same: "vmm_inv s1" "small_to s1 = small_to s" "page_entry s1 = page_entry s"
    "pmm_avail (vmm_pmm s1) = pmm_avail (vmm_pmm s)"
    using assms(1) by (simp_all add: s1_def vmm_inv_def small_to_def page_entry_def fun_eq_iff)
  obtain ok s' where mp: "vmm_map s1 (mmio_next_vaddr s) phys 13 = (ok, s')"
    by (cases "vmm_map s1 (mmio_next_vaddr s) phys 13")
  note m = vmm_map_result [OF same(1) _ mp, unfolded same(2), OF assms(2)]
  have k: "keeps_paths s s'" if ok
    using m(1) [OF that] extends_paths [of "pmm_avail (vmm_pmm s1)" s1 s'] by (simp add: page_written_def keeps_paths_def same(2))
  show ?thesis
    using m mp same(3,4) k
    by (cases ok) (simp_all add: vmm_map_mmio_def s1_def [symmetric] page_written_def extends_def
        same_config_def translate_flags_def, simp_all add: s1_def)
qed

text \<open>What a device mapping does to memory, the tables and the free frames.\<close>

lemma vmm_map_mmio_extends:
  assumes "vmm_inv s" and "small_to s (va_path (mmio_next_vaddr s))" and "vmm_map_mmio s phys = Inr (virt, s')"
  shows "extends (pmm_avail (vmm_pmm s)) (s\<lparr>mmio_next_vaddr := mmio_next_vaddr s + PAGE_SIZE\<rparr>) s'"
    and "card (pmm_avail (vmm_pmm s)) \<le> card (pmm_avail (vmm_pmm s')) + 3"
proof -
  define s1 where "s1 = s\<lparr>mmio_next_vaddr := mmio_next_vaddr s + PAGE_SIZE\<rparr>"
  have same: "vmm_inv s1" "small_to s1 = small_to s" "pmm_avail (vmm_pmm s1) = pmm_avail (vmm_pmm s)"
    using assms(1) by (simp_all add: s1_def vmm_inv_def small_to_def fun_eq_iff)
  obtain ok t where mp: "vmm_map s1 (mmio_next_vaddr s) phys 13 = (ok, t)"
    by (cases "vmm_map s1 (mmio_next_vaddr s) phys 13")
  have ok: ok "t = s'"
    using assms(3) mp by (auto simp: vmm_map_mmio_def s1_def split: if_splits)
  note m = vmm_map_result [OF same(1) _ mp, unfolded same(2,3) ok(2), OF assms(2)]
  show "extends (pmm_avail (vmm_pmm s)) (s\<lparr>mmio_next_vaddr := mmio_next_vaddr s + PAGE_SIZE\<rparr>) s'"
    using m(1) [OF ok(1)] by (simp add: page_written_def s1_def)
  show "card (pmm_avail (vmm_pmm s)) \<le> card (pmm_avail (vmm_pmm s')) + 3" by (rule m(3))
qed

text \<open>
  Device mappings. \<^verbatim>\<open>vmm_map_mmio\<close> maps the next page of its window writable,
  uncached and not executable to the page frame of the device, and advances the window by one
  page; it panics only when at most three frames are free.
\<close>

theorem vmm_map_mmio_correct:
  assumes "vmm_inv s" and "small_to s (va_path (mmio_next_vaddr s))"
  shows "case vmm_map_mmio s phys of
      Inl e \<Rightarrow> e = Panic ''vmm_map_mmio: failed to map phys 0x%lx'' [phys] \<and>
        card (pmm_avail (vmm_pmm s)) \<le> 3
    | Inr (virt, s') \<Rightarrow> virt = mmio_next_vaddr s \<and> mmio_next_vaddr s' = mmio_next_vaddr s + PAGE_SIZE \<and>
        dynamic_next_vaddr s' = dynamic_next_vaddr s \<and> keeps_paths s s' \<and>
        vmm_inv s' \<and> (\<forall>v. page_entry s' v = (if same_page v virt
          then (phys AND 0x000ffffffffff000) OR 0x8000000000000013 else page_entry s v))"
  using assms by (rule vmm_map_mmio_result)

theorem vmm_map_mmio_correct_witness:
  "\<exists>s'. vmm_map_mmio demo_vmm 0xfec00000 = Inr (0xffffffffc0000000, s') \<and>
     page_entry s' 0xffffffffc0000010 = 0x80000000fec00013"
  using vmm_map_mmio_correct [OF demo_vmm_inv demo_small, of "0xfec00000"] demo_card
  by (auto simp: VMM_MMIO_VBASE_def same_page_def split: sum.splits)

end
