(* ===== verification/Arch_Access.thy ===== *)
theory Arch_Access
  imports Arch_Paging
begin

text \<open>
  What the processor does with a virtual address under the page tables of \<^verbatim>\<open>vmm.c\<close>: the
  kernel's loads and stores, ring 3's instruction fetches, and pages whose frame nobody else holds. Accesses
  go by the leaf entry; a large page has none.
\<close>

section \<open>Accesses\<close>

definition phys_addr :: "vmm \<Rightarrow> u64 \<Rightarrow> u64 option" where
  "phys_addr s virt =
     (let e = page_entry s virt
      in if e AND PTE_PRESENT = 0 then None else Some ((e AND PTE_ADDR_MASK) + (virt AND 0xfff)))"

text \<open>A byte store by the kernel; \<open>None\<close> is the page fault.\<close>

definition store_byte :: "u64 \<Rightarrow> u8 \<Rightarrow> vmm \<Rightarrow> vmm option" where
  "store_byte virt b s =
     (case phys_addr s virt of
        None \<Rightarrow> None
      | Some p \<Rightarrow>
          if page_entry s virt AND PTE_WRITABLE = 0 then None
          else Some (s\<lparr>vmm_pmm := (vmm_pmm s)\<lparr>pmm_mem := (vmm_mem s)(p + vmm_hhdm_offset s := b)\<rparr>\<rparr>))"

text \<open>A byte load by the kernel.\<close>

definition load_byte :: "u64 \<Rightarrow> vmm \<Rightarrow> u8 option" where
  "load_byte virt s = map_option (\<lambda>p. vmm_mem s (p + vmm_hhdm_offset s)) (phys_addr s virt)"

text \<open>What an instruction fetch of ring 3 reads.\<close>

definition user_fetch :: "vmm \<Rightarrow> u64 \<Rightarrow> u8 option" where
  "user_fetch s virt =
     (case phys_addr s virt of
        None \<Rightarrow> None
      | Some p \<Rightarrow>
          if page_entry s virt AND PTE_USER = 0 \<or> page_entry s virt AND PTE_NO_EXECUTE \<noteq> 0 then None
          else Some (vmm_mem s (p + vmm_hhdm_offset s)))"

section \<open>A page of one's own\<close>

lemma own_byte_frames:
  fixes s :: vmm and x :: u64 and b :: u8
  defines "p' \<equiv> (vmm_pmm s)\<lparr>pmm_mem := (vmm_mem s)(x := b)\<rparr>"
  assumes inv: "vmm_inv s" and own: "own_frame s N" and x: "frame_no s x * PAGE_SIZE = N"
  shows "pmm_inv p'" and "off_limits p' = off_limits (vmm_pmm s)" and "pmm_avail p' = pmm_avail (vmm_pmm s)"
proof -
  let ?p = "vmm_pmm s"
  have h: "vmm_hhdm_offset s = pmm_hhdm_offset ?p" "pmm_inv ?p" using inv by (simp_all add: vmm_inv_def)
  have "N div PAGE_SIZE = frame_no s x"
    using frame_addr_div [of "frame_no s x"] frame_no_bound x by (simp add: frame_no_def)
  then have home: "bitmap_home ?p i \<noteq> frame_no s x" if "i < bitmap_byte_count (pmm_frame_count ?p)" for i
    using own that by (auto simp: own_frame_def off_limits_def)
  have used: "pmm_used p' g = pmm_used ?p g" if "g < pmm_frame_count ?p" for g
  proof -
    have "g div 8 < bitmap_byte_count (pmm_frame_count ?p)"
      using h(2) that by (intro bit_byte_in_bitmap) (simp_all add: pmm_inv_def)
    then have "pmm_bitmap ?p + g div 8 \<noteq> x" using home [of "g div 8"] h(1) by (auto simp: bitmap_home_def frame_no_def)
    then have "bitmap_test ((vmm_mem s)(x := b)) (pmm_bitmap ?p) g = bitmap_test (vmm_mem s) (pmm_bitmap ?p) g"
      by (intro bitmap_test_cong) simp
    then show ?thesis by (simp add: p'_def)
  qed
  have f: "pmm_frame_count p' = pmm_frame_count ?p" "bitmap_home p' = bitmap_home ?p"
    "pmm_free_frames p' = pmm_free_frames ?p" by (simp_all add: p'_def bitmap_home_def fun_eq_iff)
  show av: "pmm_avail p' = pmm_avail ?p" using used by (auto simp: pmm_avail_def f)
  then show "off_limits p' = off_limits ?p" by (simp add: off_limits_def f fun_eq_iff)
  have "count_clear (pmm_used p') (unat (pmm_frame_count ?p)) = count_clear (pmm_used ?p) (unat (pmm_frame_count ?p))"
    using used h(2) by (intro count_clear_cong) (simp_all add: word_less_nat_alt pmm_inv_def)
  then show "pmm_inv p'" using h(2) used unfolding pmm_inv_def f by auto
qed

text \<open>Writing into a frame that is neither free nor a table leaves every translation alone.\<close>

lemma own_byte_store:
  fixes s :: vmm and x :: u64 and b :: u8
  defines "s' \<equiv> s\<lparr>vmm_pmm := (vmm_pmm s)\<lparr>pmm_mem := (vmm_mem s)(x := b)\<rparr>\<rparr>"
  assumes inv: "vmm_inv s" and own: "own_frame s N" and x: "frame_no s x * PAGE_SIZE = N"
  shows "page_entry s' = page_entry s" and "vmm_inv s'" and "own_frame s' = own_frame s"
    and "pmm_avail (vmm_pmm s') = pmm_avail (vmm_pmm s)" and "small_to s' (va_path v) = small_to s (va_path v)"
proof -
  have same: "same_tables (vmm_mem s) (vmm_mem s') (vmm_hhdm_offset s) (vmm_cr3 s AND PTE_ADDR_MASK)"
    unfolding same_tables_def
  proof (intro allI impI)
    fix a u and i :: u32 assume u: "reaches (vmm_mem s) (vmm_hhdm_offset s) (vmm_cr3 s AND PTE_ADDR_MASK) a u" and i: "i < 512"
    have at: "table_at s a u" using u by (simp add: table_at_def)
    then have pu: "phys_table u" using unique_phys [OF vmm_inv_unique [OF inv]] by (simp add: table_at_def)
    have "u div PAGE_SIZE \<noteq> frame_no s x"
      using at own x phys_table_frame [OF pu] by (metis own_frame_def)
    then have "slot (u + vmm_hhdm_offset s) i + k \<noteq> x" if "k < 8" for k
      using entry_byte_frame [OF pu i that, of "vmm_hhdm_offset s"] by (auto simp: frame_no_def)
    then show "load64 (vmm_mem s') (slot (u + vmm_hhdm_offset s) i) = load64 (vmm_mem s) (slot (u + vmm_hhdm_offset s) i)"
      by (intro load64_cong) (simp add: s'_def)
  qed
  have s': "s' = s\<lparr>vmm_pmm := vmm_pmm s'\<rparr>" by (simp add: s'_def)
  note eq = same_tables_vmm [OF inv same s' refl]
  show "page_entry s' = page_entry s" by (rule eq(2))
  note f = own_byte_frames [OF inv own x, of b]
  have off: "pmm_inv (vmm_pmm s')" "off_limits (vmm_pmm s') = off_limits (vmm_pmm s)" using f by (simp_all add: s'_def)
  moreover have "vmm_hhdm_offset s' = pmm_hhdm_offset (vmm_pmm s')" using inv by (simp add: s'_def vmm_inv_def)
  ultimately show "vmm_inv s'"
    using vmm_inv_off_limits [OF inv] table_at_unique [OF inv] by (intro vmm_invI) (simp_all only: eq(1) off)
  show "own_frame s' = own_frame s" unfolding own_frame_def [abs_def] eq(1) off(2) ..
  show "pmm_avail (vmm_pmm s') = pmm_avail (vmm_pmm s)" using f(3) by (simp add: s'_def)
  show "small_to s' (va_path v) = small_to s (va_path v)" by (rule eq(3)) simp_all
qed

text \<open>Who holds which frame, and which paths are free of large pages.\<close>

definition same_holdings :: "vmm \<Rightarrow> vmm \<Rightarrow> bool" where
  "same_holdings s s' \<longleftrightarrow> own_frame s' = own_frame s \<and> pmm_avail (vmm_pmm s') = pmm_avail (vmm_pmm s) \<and>
     lazy_regions s' = lazy_regions s \<and> (\<forall>v. small_to s' (va_path v) = small_to s (va_path v))"

text \<open>Storing through a virtual address, and fetching what was stored.\<close>

definition owns_page :: "vmm \<Rightarrow> u64 \<Rightarrow> u64 \<Rightarrow> u32 \<Rightarrow> bool" where
  "owns_page s virt N flags \<longleftrightarrow> vmm_inv s \<and> own_frame s N \<and>
     (\<forall>v. same_page v virt \<longrightarrow> page_entry s v = N OR translate_flags flags)"

lemma flag_bits:
  "e AND PTE_PRESENT \<noteq> 0 \<longleftrightarrow> bit e 0" "e AND PTE_WRITABLE \<noteq> 0 \<longleftrightarrow> bit e 1" "e AND PTE_USER \<noteq> 0 \<longleftrightarrow> bit e 2"
  "e AND PTE_NO_EXECUTE \<noteq> 0 \<longleftrightarrow> bit e 63" for e :: u64
proof -
  note p = bit_iff_and_push_bit_not_eq_0 [of e, symmetric]
  show "e AND PTE_PRESENT \<noteq> 0 \<longleftrightarrow> bit e 0" "e AND PTE_WRITABLE \<noteq> 0 \<longleftrightarrow> bit e 1" "e AND PTE_USER \<noteq> 0 \<longleftrightarrow> bit e 2"
    "e AND PTE_NO_EXECUTE \<noteq> 0 \<longleftrightarrow> bit e 63"
    using p [of 0] p [of 1] p [of 2] p [of 63] by simp_all
qed

lemma owned_translation:
  assumes own: "owns_page s virt N flags" and v: "same_page v virt"
  shows "phys_addr s v = Some (N + (v AND 0xfff))"
    and "page_entry s v AND PTE_WRITABLE \<noteq> 0 \<longleftrightarrow> bit flags 0"
    and "page_entry s v AND PTE_USER \<noteq> 0 \<longleftrightarrow> bit flags 1"
    and "page_entry s v AND PTE_NO_EXECUTE \<noteq> 0 \<longleftrightarrow> bit flags 3"
proof -
  have N: "N AND PTE_ADDR_MASK = N" using own by (simp add: owns_page_def own_frame_def phys_table_def)
  have e: "page_entry s v = (N AND PTE_ADDR_MASK) OR translate_flags flags" using own v by (simp add: owns_page_def N)
  have g: "grants (page_entry s v) N flags" unfolding e by (rule leaf_entry_grants)
  then have "page_entry s v AND PTE_ADDR_MASK = N" using N by (simp add: grants_def)
  then show "phys_addr s v = Some (N + (v AND 0xfff))"
    using g flag_bits(1) [of "page_entry s v"] by (simp add: phys_addr_def grants_def)
  show "page_entry s v AND PTE_WRITABLE \<noteq> 0 \<longleftrightarrow> bit flags 0" "page_entry s v AND PTE_USER \<noteq> 0 \<longleftrightarrow> bit flags 1"
    "page_entry s v AND PTE_NO_EXECUTE \<noteq> 0 \<longleftrightarrow> bit flags 3"
    using g unfolding grants_def flag_bits by blast+
qed

lemma byte_in_frame:
  assumes "own_frame s N"
  shows "(N + (v AND 0xfff)) div PAGE_SIZE * PAGE_SIZE = N"
proof -
  have N: "N div PAGE_SIZE * PAGE_SIZE = N" using assms by (intro phys_table_frame) (simp add: own_frame_def)
  have "v AND 0xfff \<le> 0xfff" by (rule word_and_le1)
  then have "v AND 0xfff < PAGE_SIZE" by (simp add: word_le_nat_alt word_less_nat_alt)
  then have "(N + (v AND 0xfff)) div PAGE_SIZE = N div PAGE_SIZE"
    using in_frame_iff [OF frame_no_bound, of "N + (v AND 0xfff)" N] by (simp add: N)
  then show ?thesis by (simp add: N)
qed

lemma store_own_page:
  fixes s :: vmm and b :: u8
  assumes own: "owns_page s virt N flags" and v: "same_page v virt" and w: "bit flags 0"
  shows "\<exists>s'. store_byte v b s = Some s' \<and> owns_page s' virt N flags \<and> page_entry s' = page_entry s \<and> same_holdings s s' \<and>
    vmm_mem s' = (vmm_mem s)(N + (v AND 0xfff) + vmm_hhdm_offset s := b) \<and> vmm_hhdm_offset s' = vmm_hhdm_offset s"
proof -
  let ?x = "N + (v AND 0xfff) + vmm_hhdm_offset s"
  note t = owned_translation [OF own v]
  have "(N + (v AND 0xfff)) div PAGE_SIZE * PAGE_SIZE = N" using own by (intro byte_in_frame [of s]) (simp add: owns_page_def)
  then have "frame_no s ?x * PAGE_SIZE = N" by (simp add: frame_no_def)
  note st = own_byte_store [OF _ _ this, of b]
  show ?thesis
    using t own w st by (simp add: store_byte_def owns_page_def same_holdings_def)
qed

lemma fetch_own_page:
  assumes "owns_page s virt N flags" "same_page v virt" "bit flags 1" "\<not> bit flags 3"
  shows "user_fetch s v = Some (vmm_mem s (N + (v AND 0xfff) + vmm_hhdm_offset s))"
  using owned_translation [OF assms(1,2)] assms(3,4) by (simp add: user_fetch_def)

text \<open>Mapping a frame of one's own.\<close>

lemma map_own:
  assumes inv: "vmm_inv s" and small: "small_to s (va_path virt)" and own: "own_frame s N" and c: "3 < card (pmm_avail (vmm_pmm s))"
  shows "\<exists>s'. vmm_map s virt N flags = (True, s') \<and> page_written (pmm_avail (vmm_pmm s)) s virt (N OR translate_flags flags) s' \<and>
    owns_page s' virt N flags \<and> card (pmm_avail (vmm_pmm s)) \<le> card (pmm_avail (vmm_pmm s')) + 3"
proof -
  obtain ok s' where mp: "vmm_map s virt N flags = (ok, s')" by (cases "vmm_map s virt N flags")
  note m = vmm_map_result [OF inv small mp]
  have N: "N AND PTE_ADDR_MASK = N" "N \<notin> pmm_avail (vmm_pmm s)"
    using own by (simp_all add: own_frame_def phys_table_def off_limits_def)
  have ok using m(2,3) c by (cases ok) auto
  note w = m(1) [OF this, unfolded N(1)]
  then have "extends (pmm_avail (vmm_pmm s)) s s'" by (simp add: page_written_def)
  then have "own_frame s' N" "vmm_inv s'" using extends_own(1) [OF _ own N(2)] extends_facts(1) by blast+
  then have "owns_page s' virt N flags" using w by (simp add: owns_page_def page_written_def)
  then show ?thesis using \<open>ok\<close> mp w m(3) by auto
qed

lemma owns_page_after:
  assumes "owns_page s virt N flags" and "page_written (pmm_avail (vmm_pmm s)) s other e s'" and "\<not> same_page virt other"
  shows "owns_page s' virt N flags"
proof -
  have own: "own_frame s N" "N \<notin> pmm_avail (vmm_pmm s)" using assms(1) by (auto simp: owns_page_def own_frame_def off_limits_def)
  have "extends (pmm_avail (vmm_pmm s)) s s'" using assms(2) by (simp add: page_written_def)
  then have "own_frame s' N" "vmm_inv s'" using extends_own(1) [OF _ own] extends_facts(1) by blast+
  moreover have "\<not> same_page v other" if "same_page v virt" for v
    using assms(3) that by (auto simp: same_page_def)
  ultimately show ?thesis using assms(1,2) by (simp add: owns_page_def page_written_def)
qed

end
