(* ===== verification/Mm_Paged.thy ===== *)
theory Mm_Paged
  imports Mm_Heap Arch_Access
begin

text \<open>
  The heap's memory. \<^verbatim>\<open>heap.c\<close> reads and writes a region that is only registered: the first
  access to each page faults, the handler of vector 14 maps a frame, and the processor repeats the
  access. Here the loads and stores of the kernel go through the page tables, the dispatcher and the handler, and
  are shown to be those of a flat memory, which is how \<open>Mm_Heap\<close> models them.
\<close>

section \<open>Accesses that may fault\<close>

datatype access = Load u64 | Store u64 u8

primrec accessed :: "access \<Rightarrow> u64" where
  "accessed (Load a) = a" | "accessed (Store a b) = a"

text \<open>The byte loaded, or the byte stored; \<open>None\<close> is the page fault.\<close>

primrec attempt :: "access \<Rightarrow> vmm \<Rightarrow> (u8 \<times> vmm) option" where
  "attempt (Load a) s = map_option (\<lambda>b. (b, s)) (load_byte a s)"
| "attempt (Store a b) s = map_option (\<lambda>s'. (b, s')) (store_byte a b s)"

text \<open>Bit 0 of the error code: the page was present; bit 1: the access was a write (SDM Vol. 3A, 4.7).\<close>

definition fault_code :: "access \<Rightarrow> vmm \<Rightarrow> u64" where
  "fault_code x s = (page_entry s (accessed x) AND PTE_PRESENT) OR (case x of Load a \<Rightarrow> 0 | Store a b \<Rightarrow> 2)"

definition fault_frame :: "interrupt_frame \<Rightarrow> u64 \<Rightarrow> interrupt_frame" where
  "fault_frame f code = f\<lparr>if_vector := 14, if_error_code := code\<rparr>"

text \<open>Vector 14 through the dispatcher; no other handler is ever installed for it.\<close>

definition on_fault :: "handlers \<Rightarrow> u64 \<Rightarrow> interrupt_frame \<Rightarrow> vmm \<Rightarrow> vmm kresult" where
  "on_fault hs cr2 f s =
     (if isr_dispatch hs f = Some [Run_handler Page_fault_isr] then page_fault_isr s cr2 f
      else Inl (PanicException (if_vector f) (if_error_code f)))"

text \<open>The processor repeats the access until it succeeds or the kernel panics; \<open>None\<close>: it never stops faulting.\<close>

partial_function (option) perform :: "handlers \<Rightarrow> interrupt_frame \<Rightarrow> access \<Rightarrow> vmm \<Rightarrow> (u8 \<times> vmm) kresult option" where
  "perform hs f x s =
     (case attempt x s of
        Some r \<Rightarrow> Some (Inr r)
      | None \<Rightarrow>
          (case on_fault hs (accessed x) (fault_frame f (fault_code x s)) s of
             Inl e \<Rightarrow> Some (Inl e)
           | Inr s' \<Rightarrow> perform hs f x s'))"

primrec perform_all :: "handlers \<Rightarrow> interrupt_frame \<Rightarrow> access list \<Rightarrow> vmm \<Rightarrow> (u8 list \<times> vmm) kresult option" where
  "perform_all hs f [] s = Some (Inr ([], s))"
| "perform_all hs f (x # xs) s =
     (case perform hs f x s of
        None \<Rightarrow> None
      | Some (Inl e) \<Rightarrow> Some (Inl e)
      | Some (Inr (b, s1)) \<Rightarrow>
          map_option (\<lambda>r. case r of Inl e \<Rightarrow> Inl e | Inr (bs, s2) \<Rightarrow> Inr (b # bs, s2)) (perform_all hs f xs s1))"

text \<open>The same accesses on a flat memory.\<close>

primrec flat :: "access \<Rightarrow> mem \<Rightarrow> u8 \<times> mem" where
  "flat (Load a) m = (m a, m)"
| "flat (Store a b) m = (b, m(a := b))"

primrec flat_all :: "access list \<Rightarrow> mem \<Rightarrow> u8 list \<times> mem" where
  "flat_all [] m = ([], m)"
| "flat_all (x # xs) m = (let (b, m1) = flat x m; (bs, m2) = flat_all xs m1 in (b # bs, m2))"

section \<open>Pages of a region\<close>

definition in_region :: "lazy_region \<Rightarrow> u64 \<Rightarrow> bool" where
  "in_region r a \<longleftrightarrow> lr_start r \<le> a \<and> a < lr_end r"

definition absent :: "vmm \<Rightarrow> u64 \<Rightarrow> bool" where
  "absent s a \<longleftrightarrow> page_entry s a AND PTE_PRESENT = 0"

definition page_of :: "u64 \<Rightarrow> u64" where "page_of a = align_down a 4096"

text \<open>A writable region in the upper half of the address space that starts on a page boundary.\<close>

definition demand_region :: "lazy_region \<Rightarrow> bool" where
  "demand_region r \<longleftrightarrow> lr_used r \<and> page_of (lr_start r) = lr_start r \<and> 0xffff800000000000 \<le> lr_start r \<and> bit (lr_flags r) 0"

definition backs :: "vmm \<Rightarrow> lazy_region \<Rightarrow> u64 \<Rightarrow> u64 \<Rightarrow> bool" where
  "backs s r a N \<longleftrightarrow> own_frame s N \<and> page_entry s a = N OR translate_flags (lr_flags r)"

text \<open>What the region holds: 0 where no frame has been needed yet.\<close>

definition region_bytes :: "lazy_region \<Rightarrow> vmm \<Rightarrow> mem" where
  "region_bytes r s a =
     (if in_region r a then (case phys_addr s a of None \<Rightarrow> 0 | Some p \<Rightarrow> vmm_mem s (p + vmm_hhdm_offset s)) else 0)"

text \<open>
  The region is the first to cover each of its pages; a page is absent or backed by a frame of its own,
  and no frame backs two pages.
\<close>

definition paged_inv :: "lazy_region \<Rightarrow> vmm \<Rightarrow> bool" where
  "paged_inv r s \<longleftrightarrow> vmm_inv s \<and>
     (\<forall>a. in_region r a \<longrightarrow> find (\<lambda>q. covers q (page_of a)) (lazy_regions s) = Some r \<and>
        small_to s (va_path a) \<and> (absent s a \<or> (\<exists>N. backs s r a N))) \<and>
     (\<forall>a b N. in_region r a \<longrightarrow> in_region r b \<longrightarrow> backs s r a N \<longrightarrow> backs s r b N \<longrightarrow> same_page a b)"

lemma same_page_self [simp]: "same_page a a"
  by (simp add: same_page_def)

lemma same_page_entry: "same_page v w \<Longrightarrow> page_entry s v = page_entry s w"
  unfolding page_entry_def walk_entry_def same_page_iff by (elim conjE) (simp only:)

lemma page_of_same: "same_page a (page_of a)"
proof -
  have "(4095 :: u64) = mask 12" by (simp add: mask_eq_exp_minus_1)
  then have "page_of a = a AND NOT (mask 12)" by (simp add: page_of_def align_down_def)
  then show ?thesis unfolding same_page_def by (intro bit_word_eqI) (auto simp: bit_simps)
qed

lemma unat_page_of: "unat (page_of a) = unat a div 4096 * 4096"
  using unat_align_down_pow2 [of 12 a] by (simp add: page_of_def)

lemma upper_half_eq:
  assumes "0xffff800000000000 \<le> a" "0xffff800000000000 \<le> b" "take_bit 48 a = take_bit 48 (b :: u64)"
  shows "a = b"
proof -
  have d: "unat x div 2 ^ 48 = 65535" if "0xffff800000000000 \<le> x" for x :: u64
    using that unat_lt_64 [of x] by (intro div_nat_eqI) (simp_all add: word_le_nat_alt)
  have "take_bit 48 (unat a) = take_bit 48 (unat b)"
    using arg_cong [OF assms(3), of unat] by (simp only: unsigned_take_bit_eq)
  then have "unat a mod 2 ^ 48 = unat b mod 2 ^ 48" by (simp only: take_bit_eq_mod)
  then have "unat a = unat b" using d [OF assms(1)] d [OF assms(2)] by (metis div_mult_mod_eq)
  then show ?thesis by (simp add: word_unat_eq_iff)
qed

lemma region_page_facts:
  assumes "demand_region r" "in_region r a"
  shows "covers r (page_of a)" and "0xffff800000000000 \<le> a"
proof -
  have st: "unat (lr_start r) div 4096 * 4096 = unat (lr_start r)" "unat (lr_start r) \<le> unat a"
    using assms unat_page_of [of "lr_start r"] by (simp_all add: demand_region_def in_region_def word_le_nat_alt)
  then have "unat (lr_start r) div 4096 \<le> unat a div 4096" by (intro div_le_mono)
  then have "unat (lr_start r) \<le> unat (page_of a)" using st by (simp add: unat_page_of)
  moreover have "unat (page_of a) \<le> unat a" by (simp add: unat_page_of)
  ultimately show "covers r (page_of a)"
    using assms by (simp add: covers_def in_region_def demand_region_def word_le_nat_alt word_less_nat_alt)
  show "0xffff800000000000 \<le> a" using assms by (auto simp: demand_region_def in_region_def)
qed

lemma region_same_byte:
  assumes "demand_region r" "in_region r a" "in_region r b" "same_page a b" "a AND 0xfff = b AND 0xfff"
  shows "a = b"
proof -
  have "x AND 0xfff = take_bit 12 x" for x :: u64 by (simp add: take_bit_eq_mask mask_eq_exp_minus_1)
  then have "take_bit 12 a = take_bit 12 b" using assms(5) by simp
  from same_page_low_bits [OF assms(4) this] show ?thesis
    using upper_half_eq region_page_facts(2) assms(1-3) by blast
qed

section \<open>Accesses to a page that is there\<close>

lemma backs_owns: "vmm_inv s \<Longrightarrow> backs s r a N \<Longrightarrow> owns_page s a N (lr_flags r)"
  unfolding backs_def owns_page_def by (metis same_page_entry)

lemma backs_present: "vmm_inv s \<Longrightarrow> backs s r a N \<Longrightarrow> \<not> absent s a \<and> phys_addr s a = Some (N + (a AND 0xfff))"
  using owned_translation(1) [OF backs_owns same_page_self, of s r a N] by (auto simp: phys_addr_def absent_def Let_def split: if_splits)

lemma backs_unique: "vmm_inv s \<Longrightarrow> backs s r a N \<Longrightarrow> backs s r a M \<Longrightarrow> N = M"
  using backs_present [of s r a N] backs_present [of s r a M] by simp

text \<open>Two bytes of the region never share a byte of memory.\<close>

lemma region_bytes_distinct:
  assumes inv: "paged_inv r s" "demand_region r" and a: "in_region r a" "backs s r a N" and b: "in_region r b" "backs s r b M"
    and e: "N + (a AND 0xfff) = M + (b AND 0xfff)"
  shows "a = b"
proof -
  have own: "own_frame s N" "own_frame s M" using a(2) b(2) by (simp_all add: backs_def)
  have "N = M" using byte_in_frame [OF own(1), of a] byte_in_frame [OF own(2), of b] unfolding e by simp
  moreover have "same_page a b" using inv(1) a b \<open>N = M\<close> unfolding paged_inv_def by blast
  moreover have "a AND 0xfff = b AND 0xfff" using e \<open>N = M\<close> by simp
  ultimately show ?thesis using region_same_byte [OF inv(2) a(1) b(1)] by simp
qed

lemma present_backed:
  assumes "paged_inv r s" "in_region r a" "\<not> absent s a" obtains N where "backs s r a N"
  using assms unfolding paged_inv_def by blast

lemma load_present:
  assumes "paged_inv r s" "in_region r a" "\<not> absent s a"
  shows "attempt (Load a) s = Some (region_bytes r s a, s)"
proof -
  obtain N where "backs s r a N" using present_backed [OF assms] .
  moreover have "vmm_inv s" using assms(1) by (simp add: paged_inv_def)
  ultimately show ?thesis
    using backs_present [of s r a N] assms(2) by (simp add: load_byte_def region_bytes_def)
qed

lemma store_present:
  assumes inv: "paged_inv r s" "demand_region r" and a: "in_region r a" "\<not> absent s a"
  shows "\<exists>s'. attempt (Store a b) s = Some (b, s') \<and> paged_inv r s' \<and> region_bytes r s' = (region_bytes r s)(a := b) \<and>
    page_entry s' = page_entry s \<and> pmm_avail (vmm_pmm s') = pmm_avail (vmm_pmm s)"
proof -
  have vi: "vmm_inv s" using inv(1) by (simp add: paged_inv_def)
  obtain N where N: "backs s r a N" using present_backed [OF inv(1) a] .
  have "bit (lr_flags r) 0" using inv(2) by (simp add: demand_region_def)
  then obtain s' where s': "store_byte a b s = Some s'" "owns_page s' a N (lr_flags r)" "page_entry s' = page_entry s"
      "same_holdings s s'" "vmm_mem s' = (vmm_mem s)(N + (a AND 0xfff) + vmm_hhdm_offset s := b)"
      "vmm_hhdm_offset s' = vmm_hhdm_offset s"
    using store_own_page [OF backs_owns [OF vi N] same_page_self] by blast
  have bk: "backs s' = backs s" "absent s' = absent s" "phys_addr s' = phys_addr s"
    using s'(3,4) by (auto simp: backs_def absent_def phys_addr_def same_holdings_def fun_eq_iff)
  have p: "paged_inv r s'"
    using inv(1) s'(2,4) unfolding paged_inv_def bk same_holdings_def owns_page_def by simp
  have "region_bytes r s' x = ((region_bytes r s)(a := b)) x" for x
  proof (cases "x = a")
    case True
    then show ?thesis using backs_present [OF vi N] a(1) by (simp add: region_bytes_def bk s'(5,6))
  next
    case False
    show ?thesis
    proof (cases "in_region r x \<and> \<not> absent s x")
      case True
      then obtain M where M: "backs s r x M" using present_backed [OF inv(1)] by blast
      then have "N + (a AND 0xfff) \<noteq> M + (x AND 0xfff)"
        using region_bytes_distinct [OF inv a(1) N _ M] True False by blast
      then show ?thesis using backs_present [OF vi M] False by (simp add: region_bytes_def bk s'(5,6))
    next
      case 2: False
      then show ?thesis using False by (auto simp: region_bytes_def bk phys_addr_def absent_def)
    qed
  qed
  then show ?thesis using s' p by (auto simp: fun_eq_iff same_holdings_def)
qed

section \<open>A fault\<close>

lemma same_page_page_of: "same_page v (page_of a) \<longleftrightarrow> same_page v a"
  using page_of_same [of a] by (simp add: same_page_def)

lemma granted_entries:
  assumes "granted s (page_of a) N flags s'"
  shows "page_entry s' v = (if same_page v a then N OR translate_flags flags else page_entry s v)"
  using assms by (simp add: granted_def page_written_def same_page_page_of)

text \<open>Pages that were there stay there, with their bytes.\<close>

lemma granted_keeps:
  assumes g: "granted s (page_of a) N flags s'" and b: "backs s r b M" "\<not> same_page b a"
  shows "backs s' r b M" and "M \<noteq> N"
    and "vmm_mem s' (M + (b AND 0xfff) + vmm_hhdm_offset s) = vmm_mem s (M + (b AND 0xfff) + vmm_hhdm_offset s)"
proof -
  have e: "extends (pmm_avail (vmm_pmm s)) s s'" using g by (simp add: granted_def page_written_def)
  have own: "own_frame s M" "M \<notin> pmm_avail (vmm_pmm s)" using b(1) by (auto simp: backs_def own_frame_def off_limits_def)
  note own' = extends_own(1) [OF e own]
  show "backs s' r b M" using b own' by (simp add: backs_def granted_entries [OF g])
  show "M \<noteq> N" using own(2) g by (auto simp: granted_def)
  have "frame_no s (M + (b AND 0xfff) + vmm_hhdm_offset s) * PAGE_SIZE = M"
    using byte_in_frame [OF own(1), of b] by (simp add: frame_no_def)
  from own_frame_foreign [OF own' own(1) extends_facts(1) [OF e] this]
  show "vmm_mem s' (M + (b AND 0xfff) + vmm_hhdm_offset s) = vmm_mem s (M + (b AND 0xfff) + vmm_hhdm_offset s)"
    using e by (simp add: extends_def)
qed

lemma granted_backs:
  assumes inv: "paged_inv r s" and g: "granted s (page_of a) N (lr_flags r) s'" and b: "in_region r b"
  shows "backs s' r b M \<longleftrightarrow> (if same_page b a then M = N else backs s r b M)"
proof -
  have e: "vmm_inv s'" "vmm_inv s" using g inv by (simp_all add: granted_def page_written_def extends_def paged_inv_def)
  have N: "backs s' r b N" if "same_page b a" using g that by (simp add: backs_def granted_def granted_entries [OF g])
  show ?thesis
  proof (cases "same_page b a")
    case True
    then show ?thesis using N backs_unique [OF e(1)] by auto
  next
    case False
    have "backs s r b M" if m: "backs s' r b M"
    proof -
      have "\<not> absent s b" using backs_present [OF e(1) m] False by (simp add: absent_def granted_entries [OF g])
      then obtain M' where M': "backs s r b M'" using present_backed [OF inv b] by blast
      then show ?thesis using backs_unique [OF e(1) granted_keeps(1) [OF g M' False] m] by simp
    qed
    then show ?thesis using granted_keeps(1) [OF g _ False] False by auto
  qed
qed

lemma granted_paged:
  assumes inv: "paged_inv r s" and g: "granted s (page_of a) N (lr_flags r) s'"
  shows "paged_inv r s'"
proof -
  have e: "extends (pmm_avail (vmm_pmm s)) s s'" using g by (simp add: granted_def page_written_def)
  note f = extends_facts [OF e] and bk = granted_backs [OF inv g]
  have lr: "lazy_regions s' = lazy_regions s" using e by (simp add: extends_def same_config_def)
  have "absent s' b \<or> (\<exists>M. backs s' r b M)" if "in_region r b" for b
    using inv that by (auto simp: bk [OF that] paged_inv_def absent_def granted_entries [OF g])
  moreover have "same_page b c" if b: "in_region r b" "in_region r c" "backs s' r b M" "backs s' r c M" for b c M
  proof -
    have nN: "\<not> backs s r x N" for x using g by (auto simp: backs_def own_frame_def off_limits_def granted_def)
    have u: "same_page b c" if "backs s r b M" "backs s r c M" using inv b(1,2) that unfolding paged_inv_def by blast
    consider "same_page b a" "same_page c a" | "\<not> same_page b a" "\<not> same_page c a" | "same_page b a \<noteq> same_page c a" by blast
    then show ?thesis
    proof cases
      case 1 then show ?thesis by (simp add: same_page_def)
    next
      case 2 then show ?thesis using b(3,4) u by (simp add: bk [OF b(1)] bk [OF b(2)])
    next
      case 3 then show ?thesis using b(3,4) nN by (auto simp: bk [OF b(1)] bk [OF b(2)] split: if_splits)
    qed
  qed
  moreover have "small_to s' (va_path b)" if "in_region r b" for b
    using inv that extends_paths [OF e] by (auto simp: paged_inv_def keeps_paths_def)
  ultimately show ?thesis using inv f(1) by (simp add: paged_inv_def lr)
qed

lemma granted_bytes:
  assumes inv: "paged_inv r s" and g: "granted s (page_of a) N (lr_flags r) s'" and a: "absent s a"
  shows "region_bytes r s' = region_bytes r s"
proof (rule ext)
  fix b
  have e: "extends (pmm_avail (vmm_pmm s)) s s'" using g by (simp add: granted_def page_written_def)
  note f = extends_facts [OF e]
  have vi: "vmm_inv s" using inv by (simp add: paged_inv_def)
  show "region_bytes r s' b = region_bytes r s b"
  proof (cases "in_region r b")
    case True
    note bk = granted_backs [OF inv g True]
    consider (new) "same_page b a" | (old) M where "\<not> same_page b a" "backs s r b M" | (none) "\<not> same_page b a" "absent s b"
      using inv True unfolding paged_inv_def by blast
    then show ?thesis
    proof cases
      case new
      then have "absent s b" using a same_page_entry [of b a] by (simp add: absent_def)
      moreover have "phys_addr s' b = Some (N + (b AND 0xfff))" using backs_present [OF f(1), of r b N] bk new by simp
      moreover have "frame_no s' (N + (b AND 0xfff) + vmm_hhdm_offset s') * PAGE_SIZE = N"
        using byte_in_frame [of s' N b] g by (simp add: frame_no_def granted_def)
      then have "vmm_mem s' (N + (b AND 0xfff) + vmm_hhdm_offset s') = 0" using g by (simp add: granted_def frame_zero_def)
      ultimately show ?thesis using True by (simp add: region_bytes_def phys_addr_def absent_def)
    next
      case old
      then show ?thesis
        using granted_keeps [OF g old(2,1)] backs_present [OF vi old(2)] backs_present [OF f(1) granted_keeps(1) [OF g old(2,1)]] True
        by (simp add: region_bytes_def f(2))
    next
      case none
      then show ?thesis using True by (simp add: region_bytes_def phys_addr_def absent_def granted_entries [OF g])
    qed
  qed (simp add: region_bytes_def)
qed

lemma fault_grants:
  assumes inv: "paged_inv r s" "demand_region r" and a: "in_region r a" and c: "code AND 1 = 0"
  shows "case vmm_handle_page_fault s a code of
      (False, s') \<Rightarrow> card (pmm_avail (vmm_pmm s)) \<le> 4
    | (True, s') \<Rightarrow> (\<exists>N. granted s (page_of a) N (lr_flags r) s') \<and> card (pmm_avail (vmm_pmm s)) \<le> card (pmm_avail (vmm_pmm s')) + 4"
proof -
  have i: "vmm_inv s" "find (\<lambda>q. covers q (page_of a)) (lazy_regions s) = Some r" "small_to s (va_path a)"
    using inv(1) a by (simp_all add: paged_inv_def)
  have small: "small_to s (va_path (page_of a))" using i(3) page_of_same [of a] by (simp add: same_page_iff)
  obtain N s1 where al: "vmm_alloc s = (N, s1)" by (cases "vmm_alloc s")
  obtain ok s' where mp: "vmm_map s1 (page_of a) N (lr_flags r) = (ok, s')" by (cases "vmm_map s1 (page_of a) N (lr_flags r)")
  have h: "vmm_handle_page_fault s a code = (if N = 0 then (False, s1) else (ok, s'))"
    using c i(2) al mp by (simp add: vmm_handle_page_fault_def page_of_def Let_def)
  show ?thesis
  proof (cases "pmm_avail (vmm_pmm s) = {}")
    case True
    then show ?thesis using h exhausted_alloc [OF i(1) True] al by simp
  next
    case False
    note m = alloc_then_map [OF i(1) small al False mp] and N = vmm_alloc_own(3) [OF i(1) al False]
    show ?thesis
    proof (cases ok)
      case True then show ?thesis using h N m(2,4) by auto
    next
      case no: False
      then show ?thesis using h N m(3,4) by simp
    qed
  qed
qed

lemma fault_served:
  assumes inv: "paged_inv r s" "demand_region r" and a: "in_region r (accessed x)" "absent s (accessed x)"
    and h: "hs 14 = Some Page_fault_isr"
  shows "case on_fault hs (accessed x) (fault_frame f (fault_code x s)) s of
      Inl e \<Rightarrow> (\<exists>code. e = PanicException 14 code) \<and> card (pmm_avail (vmm_pmm s)) \<le> 4
    | Inr s' \<Rightarrow> paged_inv r s' \<and> region_bytes r s' = region_bytes r s \<and> \<not> absent s' (accessed x) \<and>
        (\<forall>v. \<not> same_page v (accessed x) \<longrightarrow> page_entry s' v = page_entry s v) \<and>
        card (pmm_avail (vmm_pmm s)) \<le> card (pmm_avail (vmm_pmm s')) + 4"
proof -
  let ?a = "accessed x" and ?c = "fault_code x s"
  have c: "?c AND 1 = 0" using a(2) by (cases x) (simp_all add: fault_code_def absent_def)
  have d: "isr_dispatch hs (fault_frame f ?c) = Some [Run_handler Page_fault_isr]"
    using h by (simp add: isr_dispatch_def fault_frame_def Let_def)
  obtain ok s' where p: "vmm_handle_page_fault s ?a ?c = (ok, s')" by (cases "vmm_handle_page_fault s ?a ?c")
  note g = fault_grants [OF inv a(1) c, unfolded p]
  show ?thesis
  proof (cases ok)
    case True
    then obtain N where N: "granted s (page_of ?a) N (lr_flags r) s'" "card (pmm_avail (vmm_pmm s)) \<le> card (pmm_avail (vmm_pmm s')) + 4"
      using g by auto
    have "backs s' r ?a N" "vmm_inv s'" using granted_backs [OF inv(1) N(1) a(1)] granted_paged [OF inv(1) N(1)] by (simp_all add: paged_inv_def)
    then have "\<not> absent s' ?a" using backs_present by blast
    moreover have "on_fault hs ?a (fault_frame f ?c) s = Inr s'"
      using d p True by (simp add: on_fault_def page_fault_isr_def fault_frame_def)
    ultimately show ?thesis
      using granted_paged [OF inv(1) N(1)] granted_bytes [OF inv(1) N(1) a(2)] granted_entries [OF N(1)] N(2) by simp
  next
    case False
    then have "on_fault hs ?a (fault_frame f ?c) s = Inl (PanicException 14 ?c)"
      using d p by (simp add: on_fault_def page_fault_isr_def fault_frame_def)
    then show ?thesis using g False by simp
  qed
qed

section \<open>Repeating the access\<close>

text \<open>An access and all it may need, in a state where the page is there and in one where it is not.\<close>

definition performed :: "lazy_region \<Rightarrow> access \<Rightarrow> vmm \<Rightarrow> u8 \<times> vmm \<Rightarrow> bool" where
  "performed r x s bs' \<longleftrightarrow> (case bs' of (b, s') \<Rightarrow> paged_inv r s' \<and> (b, region_bytes r s') = flat x (region_bytes r s) \<and>
     \<not> absent s' (accessed x) \<and> (\<forall>v. \<not> same_page v (accessed x) \<longrightarrow> page_entry s' v = page_entry s v) \<and>
     card (pmm_avail (vmm_pmm s)) \<le> card (pmm_avail (vmm_pmm s')) + (if absent s (accessed x) then 4 else 0))"

lemma perform_present:
  assumes inv: "paged_inv r s" "demand_region r" and a: "in_region r (accessed x)" "\<not> absent s (accessed x)"
  shows "\<exists>t. perform hs f x s = Some (Inr t) \<and> performed r x s t"
proof (cases x)
  case (Load c)
  then show ?thesis
    using load_present [OF inv(1), of c] a inv(1) by (subst perform.simps) (auto simp: performed_def)
next
  case (Store c b)
  then have c: "in_region r c" "\<not> absent s c" using a by simp_all
  obtain s' where "attempt (Store c b) s = Some (b, s')" "paged_inv r s'" "region_bytes r s' = (region_bytes r s)(c := b)"
      "page_entry s' = page_entry s" "pmm_avail (vmm_pmm s') = pmm_avail (vmm_pmm s)"
    using store_present [OF inv c, of b] by blast
  then show ?thesis using Store c(2) by (subst perform.simps) (simp add: performed_def absent_def)
qed

lemma attempt_absent: "absent s (accessed x) \<Longrightarrow> attempt x s = None"
  by (cases x) (simp_all add: load_byte_def store_byte_def phys_addr_def absent_def)

lemma perform_result:
  assumes inv: "paged_inv r s" "demand_region r" and a: "in_region r (accessed x)" and h: "hs 14 = Some Page_fault_isr"
  shows "\<exists>res. perform hs f x s = Some res \<and> (case res of
      Inl e \<Rightarrow> (\<exists>code. e = PanicException 14 code) \<and> absent s (accessed x) \<and> card (pmm_avail (vmm_pmm s)) \<le> 4
    | Inr t \<Rightarrow> performed r x s t)"
proof (cases "absent s (accessed x)")
  case True
  let ?r = "on_fault hs (accessed x) (fault_frame f (fault_code x s)) s"
  note fs = fault_served [where x = x and hs = hs and f = f, OF inv a True h]
  have p: "perform hs f x s = (case ?r of Inl e \<Rightarrow> Some (Inl e) | Inr s' \<Rightarrow> perform hs f x s')"
    by (subst perform.simps) (simp add: attempt_absent [OF True])
  show ?thesis
  proof (cases ?r)
    case (Inl e)
    then show ?thesis using p fs True by simp
  next
    case (Inr s')
    with fs have s': "paged_inv r s'" "region_bytes r s' = region_bytes r s" "\<not> absent s' (accessed x)"
      "\<forall>v. \<not> same_page v (accessed x) \<longrightarrow> page_entry s' v = page_entry s v"
      "card (pmm_avail (vmm_pmm s)) \<le> card (pmm_avail (vmm_pmm s')) + 4" by simp_all
    obtain t where "perform hs f x s' = Some (Inr t)" "performed r x s' t"
      using perform_present [OF s'(1) inv(2) a s'(3)] by blast
    then show ?thesis using p Inr s' True by (auto simp: performed_def)
  qed
next
  case False
  obtain t where "perform hs f x s = Some (Inr t)" "performed r x s t"
    using perform_present [OF inv a False] by blast
  then show ?thesis by simp
qed

text \<open>The pages a run will have to fault in.\<close>

definition missing :: "vmm \<Rightarrow> access list \<Rightarrow> u64 set" where
  "missing s xs = page_of ` {a \<in> accessed ` set xs. absent s a}"

lemma finite_missing [simp]: "finite (missing s xs)"
  by (simp add: missing_def)

lemma missing_step:
  assumes "performed r x s (b, s')"
  shows "card (missing s' xs) + (if absent s (accessed x) then 1 else 0) \<le> card (missing s (x # xs))"
proof -
  let ?a = "accessed x"
  have p: "\<not> absent s' ?a" "page_entry s' v = page_entry s v" if "\<not> same_page v ?a" for v
    using assms that by (simp_all add: performed_def)
  have np: "\<not> absent s' ?a" using assms by (simp add: performed_def)
  have "\<not> same_page c ?a" "absent s c" "page_of c \<noteq> page_of ?a" if "absent s' c" for c
  proof -
    show n: "\<not> same_page c ?a" using that np same_page_entry [of c ?a s'] by (auto simp: absent_def)
    then show "absent s c" using that p(2) by (simp add: absent_def)
    show "page_of c \<noteq> page_of ?a" using n same_page_page_of [of c c] same_page_page_of [of c ?a] by auto
  qed
  then have sub: "missing s' xs \<subseteq> missing s (x # xs) - {page_of ?a}" by (auto simp: missing_def)
  show ?thesis
  proof (cases "absent s ?a")
    case True
    then have "page_of ?a \<in> missing s (x # xs)" by (auto simp: missing_def)
    then have "missing s' xs \<subset> missing s (x # xs)" using sub by auto
    then show ?thesis using psubset_card_mono [of "missing s (x # xs)"] True by (simp add: Suc_le_eq)
  next
    case False
    have "missing s' xs \<subseteq> missing s (x # xs)" using sub by blast
    then show ?thesis using False by (simp add: card_mono)
  qed
qed

definition all_performed :: "lazy_region \<Rightarrow> access list \<Rightarrow> vmm \<Rightarrow> u8 list \<times> vmm \<Rightarrow> bool" where
  "all_performed r xs s t \<longleftrightarrow> (case t of (bs, s') \<Rightarrow> paged_inv r s' \<and> (bs, region_bytes r s') = flat_all xs (region_bytes r s) \<and>
     (\<forall>v. (\<forall>a. in_region r a \<longrightarrow> \<not> same_page v a) \<longrightarrow> page_entry s' v = page_entry s v))"

lemma perform_all_result:
  assumes "paged_inv r s" "demand_region r" "hs 14 = Some Page_fault_isr" "\<forall>x \<in> set xs. in_region r (accessed x)"
  shows "\<exists>res. perform_all hs f xs s = Some res \<and> (case res of
      Inl e \<Rightarrow> (\<exists>code. e = PanicException 14 code) \<and> card (pmm_avail (vmm_pmm s)) \<le> 4 * card (missing s xs)
    | Inr t \<Rightarrow> all_performed r xs s t)"
  using assms
proof (induction xs arbitrary: s)
  case Nil
  then show ?case by (simp add: all_performed_def)
next
  case (Cons x xs)
  have a: "in_region r (accessed x)" and xs: "\<forall>x \<in> set xs. in_region r (accessed x)" using Cons.prems(4) by simp_all
  obtain res where res: "perform hs f x s = Some res" and r: "case res of
      Inl e \<Rightarrow> (\<exists>code. e = PanicException 14 code) \<and> absent s (accessed x) \<and> card (pmm_avail (vmm_pmm s)) \<le> 4
    | Inr t \<Rightarrow> performed r x s t"
    using perform_result [where f = f and x = x and hs = hs, OF Cons.prems(1,2) a Cons.prems(3)] by blast
  show ?case
  proof (cases res)
    case (Inl e)
    then have "missing s (x # xs) \<noteq> {}" using r by (auto simp: missing_def)
    then have "1 \<le> card (missing s (x # xs))" by (simp add: Suc_le_eq card_gt_0_iff)
    then show ?thesis using Inl r res by simp
  next
    case (Inr t)
    obtain b s' where t: "t = (b, s')" by (cases t)
    have p: "performed r x s (b, s')" using r Inr t by simp
    then have s': "paged_inv r s'" "(b, region_bytes r s') = flat x (region_bytes r s)"
      "\<And>v. \<not> same_page v (accessed x) \<Longrightarrow> page_entry s' v = page_entry s v"
      "card (pmm_avail (vmm_pmm s)) \<le> card (pmm_avail (vmm_pmm s')) + (if absent s (accessed x) then 4 else 0)"
      by (simp_all add: performed_def)
    note ms = missing_step [OF p, of xs]
    obtain res' where r': "perform_all hs f xs s' = Some res'" "case res' of
        Inl e \<Rightarrow> (\<exists>code. e = PanicException 14 code) \<and> card (pmm_avail (vmm_pmm s')) \<le> 4 * card (missing s' xs)
      | Inr t \<Rightarrow> all_performed r xs s' t"
      using Cons.IH [OF s'(1) Cons.prems(2,3) xs] by blast
    show ?thesis
    proof (cases res')
      case Inl': (Inl e)
      have "card (pmm_avail (vmm_pmm s)) \<le> 4 * card (missing s (x # xs))"
        using r'(2) s'(4) ms unfolding Inl' by (cases "absent s (accessed x)") simp_all
      then show ?thesis using r' res Inr t Inl' by simp
    next
      case Inr': (Inr t')
      obtain bs s'' where t': "t' = (bs, s'')" by (cases t')
      have ap: "all_performed r xs s' (bs, s'')" using r'(2) Inr' t' by simp
      have "flat_all (x # xs) (region_bytes r s) = (b # bs, region_bytes r s'')"
        using ap s'(2) by (auto simp: all_performed_def split: prod.splits dest!: sym [of "(_, _)"])
      moreover have "page_entry s'' v = page_entry s v" if "\<forall>c. in_region r c \<longrightarrow> \<not> same_page v c" for v
        using ap s'(3) that a by (simp add: all_performed_def)
      ultimately have "all_performed r (x # xs) s (b # bs, s'')" using ap by (simp add: all_performed_def)
      then show ?thesis using r' res Inr t Inr' t' by simp
    qed
  qed
qed

section \<open>The heap's region\<close>

definition heap_region :: lazy_region where
  "heap_region = \<lparr>lr_start = HEAP_VBASE, lr_end = HEAP_VBASE + HEAP_SIZE, lr_flags = VMM_WRITABLE, lr_used = True\<rparr>"

lemma heap_region_facts:
  shows "demand_region heap_region" and "in_region heap_region a \<longleftrightarrow> HEAP_VBASE \<le> a \<and> a < HEAP_VBASE + HEAP_SIZE"
  by (simp_all add: demand_region_def in_region_def heap_region_def page_of_def align_down_def)

text \<open>Nothing of the physical memory or of the tables depends on the region table.\<close>

lemma lazy_regions_update:
  "vmm_inv (s\<lparr>lazy_regions := rs\<rparr>) = vmm_inv s" "small_to (s\<lparr>lazy_regions := rs\<rparr>) b = small_to s b"
  "page_entry (s\<lparr>lazy_regions := rs\<rparr>) v = page_entry s v" "absent (s\<lparr>lazy_regions := rs\<rparr>) v = absent s v"
  "phys_addr (s\<lparr>lazy_regions := rs\<rparr>) v = phys_addr s v"
  by (simp_all add: vmm_inv_def small_to_def page_entry_def absent_def phys_addr_def walk_entry_def)

lemma registered:
  assumes "vmm_register_lazy_region s HEAP_VBASE (HEAP_VBASE + HEAP_SIZE) VMM_WRITABLE = (True, s0)"
    and "\<forall>q \<in> set (lazy_regions s). \<not> lr_used q"
  shows "s0 = s\<lparr>lazy_regions := heap_region # tl (lazy_regions s)\<rparr>"
  using assms by (cases "lazy_regions s") (simp_all add: vmm_register_lazy_region_def heap_region_def)

lemma registered_paged:
  assumes "vmm_inv s" "\<forall>a. in_region heap_region a \<longrightarrow> small_to s (va_path a) \<and> absent s a"
  shows "paged_inv heap_region (s\<lparr>lazy_regions := heap_region # rs\<rparr>)"
    and "region_bytes heap_region (s\<lparr>lazy_regions := heap_region # rs\<rparr>) = (\<lambda>_. 0)"
proof -
  let ?s = "s\<lparr>lazy_regions := heap_region # rs\<rparr>"
  have "\<not> backs ?s heap_region a N" if "in_region heap_region a" for a N
    using backs_present [of ?s heap_region a N] assms that by (auto simp: lazy_regions_update)
  then show "paged_inv heap_region ?s"
    using assms region_page_facts(1) [OF heap_region_facts(1)] by (auto simp: paged_inv_def lazy_regions_update)
  show "region_bytes heap_region ?s = (\<lambda>_. 0)"
    using assms(2) by (auto simp: region_bytes_def lazy_regions_update phys_addr_def absent_def)
qed


text \<open>At work: a byte stored in the first page and read back, and a byte of the second page, which is still zero.\<close>

definition before_heap :: vmm where
  "before_heap = demo_vmm\<lparr>lazy_regions := replicate 8 \<lparr>lr_start = 0, lr_end = 0, lr_flags = 0, lr_used = False\<rparr>\<rparr>"

definition heap_accesses :: "access list" where
  "heap_accesses = [Store 0xffffffff90000010 7, Load 0xffffffff90000010, Load 0xffffffff90001000]"

lemma before_heap_facts:
  shows "vmm_inv before_heap" and "small_to before_heap (va_path a)" and "absent before_heap a"
    and "30 \<le> card (pmm_avail (vmm_pmm before_heap))"
  using demo_vmm_inv demo_paths demo_card_exact
  by (simp_all add: before_heap_def lazy_regions_update absent_def demo_page_entry)


end
