(* ===== verification/Sched_Spinlock.thy ===== *)
theory Sched_Spinlock
  imports Quin_Prelude
begin

text \<open>
  \<^verbatim>\<open>kernel/sched/spinlock.c\<close>: the test-and-test-and-set lock, first as the
  functions one processor runs when nobody interferes, then as a step relation in which any
  number of processors take the steps of \<^verbatim>\<open>spinlock_acquire_irqsave\<close> and
  \<^verbatim>\<open>spinlock_release_irqrestore\<close> in any order. The locale \<open>invariant_machine\<close> turns an
  inductive invariant into a fact about every reachable state.
\<close>

section \<open>The operations\<close>

record spinlock =
  locked :: u32

definition spinlock_init :: "spinlock \<Rightarrow> spinlock" where
  "spinlock_init lock = lock\<lparr>locked := 0\<rparr>"

definition atomic_exchange :: "spinlock \<Rightarrow> u32 \<Rightarrow> u32 \<times> spinlock" where
  "atomic_exchange lock v = (locked lock, lock\<lparr>locked := v\<rparr>)"

text \<open>
  Alone on the machine, waiting for a lock that is held does not end; the result is then
  \<open>None\<close>.
\<close>

partial_function (option) spin_while_locked :: "spinlock \<Rightarrow> spinlock option" where
  "spin_while_locked lock = (if locked lock \<noteq> 0 then spin_while_locked lock else Some lock)"

partial_function (option) spinlock_acquire :: "spinlock \<Rightarrow> spinlock option" where
  "spinlock_acquire lock =
     (if fst (atomic_exchange lock 1) \<noteq> 0
      then Option.bind (spin_while_locked (snd (atomic_exchange lock 1))) spinlock_acquire
      else Some (snd (atomic_exchange lock 1)))"

definition spinlock_release :: "spinlock \<Rightarrow> spinlock" where
  "spinlock_release lock = lock\<lparr>locked := 0\<rparr>"

abbreviation (input) RFLAGS_IF :: u64 where "RFLAGS_IF \<equiv> 0x200"

text \<open>\<^verbatim>\<open>pushfq; pop; cli\<close> and \<^verbatim>\<open>push; popfq\<close> on the flags register.\<close>

definition read_and_disable_interrupts :: "u64 \<Rightarrow> u64 \<times> u64" where
  "read_and_disable_interrupts rflags = (rflags, rflags AND NOT RFLAGS_IF)"

definition restore_interrupt_state :: "u64 \<Rightarrow> u64 \<Rightarrow> u64" where
  "restore_interrupt_state rflags flags = flags"

definition spinlock_acquire_irqsave :: "spinlock \<Rightarrow> u64 \<Rightarrow> (u64 \<times> spinlock \<times> u64) option" where
  "spinlock_acquire_irqsave lock rflags =
     (let (flags, rflags1) = read_and_disable_interrupts rflags
      in map_option (\<lambda>lock1. (flags, lock1, rflags1)) (spinlock_acquire lock))"

definition spinlock_release_irqrestore :: "spinlock \<Rightarrow> u64 \<Rightarrow> u64 \<Rightarrow> spinlock \<times> u64" where
  "spinlock_release_irqrestore lock rflags flags =
     (spinlock_release lock, restore_interrupt_state rflags flags)"

lemma acquire_free: "locked lock = 0 \<Longrightarrow> spinlock_acquire lock = Some (lock\<lparr>locked := 1\<rparr>)"
  by (simp add: spinlock_acquire.simps atomic_exchange_def)

lemma spin_result:
  assumes "spin_while_locked lock = Some lock'" shows "locked lock = 0"
proof (rule spin_while_locked.raw_induct [of "\<lambda>l y. locked l = 0", OF _ assms])
  fix spin and l l' :: spinlock
  assume "(if locked l \<noteq> 0 then spin l else Some l) = Some l'" and "\<And>l y. spin l = Some y \<Longrightarrow> locked l = 0"
  then show "locked l = 0" by (cases "locked l = 0") auto
qed

lemma acquire_held: "locked lock \<noteq> 0 \<Longrightarrow> spinlock_acquire lock = None"
proof (rule ccontr)
  assume held: "locked lock \<noteq> 0" and "spinlock_acquire lock \<noteq> None"
  then obtain lock' where "spinlock_acquire lock = Some lock'" by blast
  then have "locked lock = 0"
  proof (subst (asm) spinlock_acquire.simps)
    assume "(if fst (atomic_exchange lock 1) \<noteq> 0
      then Option.bind (spin_while_locked (snd (atomic_exchange lock 1))) spinlock_acquire
      else Some (snd (atomic_exchange lock 1))) = Some lock'"
    then show "locked lock = 0"
      using spin_result [of "snd (atomic_exchange lock 1)"]
      by (auto simp: atomic_exchange_def split: if_splits bind_splits)
  qed
  with held show False by simp
qed

section \<open>Machines with invariants\<close>

locale invariant_machine =
  fixes init :: "'s \<Rightarrow> bool"
    and step :: "'s \<Rightarrow> 's \<Rightarrow> bool"
    and inv :: "'s \<Rightarrow> bool"
  assumes inv_init: "init s \<Longrightarrow> inv s"
    and inv_step: "inv s \<Longrightarrow> step s s' \<Longrightarrow> inv s'"
begin

lemma inv_steps: "step\<^sup>*\<^sup>* s s' \<Longrightarrow> inv s \<Longrightarrow> inv s'"
  by (induction rule: rtranclp_induct) (auto intro: inv_step)

lemma reachable_inv: "init s \<Longrightarrow> step\<^sup>*\<^sup>* s s' \<Longrightarrow> inv s'"
  using inv_steps inv_init by blast

end

section \<open>Many processors\<close>

text \<open>
  Where a processor is: outside, before the atomic exchange, in the inner read-only loop,
  holding the lock, or between the release and the restoration of its flags.
\<close>

datatype lock_pc = Outside | Exchange | Pause | Holding | Restore

record lock_machine =
  lm_lock :: spinlock
  lm_pc :: "nat \<Rightarrow> lock_pc"
  lm_rflags :: "nat \<Rightarrow> u64"
  lm_saved :: "nat \<Rightarrow> u64"

definition goto :: "lock_machine \<Rightarrow> nat \<Rightarrow> lock_pc \<Rightarrow> lock_machine" where
  "goto s c p = s\<lparr>lm_pc := (lm_pc s)(c := p)\<rparr>"

inductive lock_step :: "lock_machine \<Rightarrow> lock_machine \<Rightarrow> bool" where
  flags: "lm_pc s c = Outside \<Longrightarrow> lock_step s (s\<lparr>lm_rflags := (lm_rflags s)(c := f)\<rparr>)"
| begin_acquire: "lm_pc s c = Outside \<Longrightarrow> read_and_disable_interrupts (lm_rflags s c) = (f, r) \<Longrightarrow>
    lock_step s (goto (s\<lparr>lm_saved := (lm_saved s)(c := f), lm_rflags := (lm_rflags s)(c := r)\<rparr>) c Exchange)"
| exchange: "lm_pc s c = Exchange \<Longrightarrow> atomic_exchange (lm_lock s) 1 = (old, lock) \<Longrightarrow>
    lock_step s (goto (s\<lparr>lm_lock := lock\<rparr>) c (if old \<noteq> 0 then Pause else Holding))"
| pause: "lm_pc s c = Pause \<Longrightarrow> locked (lm_lock s) \<noteq> 0 \<Longrightarrow> lock_step s s"
| seen_free: "lm_pc s c = Pause \<Longrightarrow> locked (lm_lock s) = 0 \<Longrightarrow> lock_step s (goto s c Exchange)"
| release: "lm_pc s c = Holding \<Longrightarrow>
    lock_step s (goto (s\<lparr>lm_lock := spinlock_release (lm_lock s)\<rparr>) c Restore)"
| restore: "lm_pc s c = Restore \<Longrightarrow>
    lock_step s (goto (s\<lparr>lm_rflags := (lm_rflags s)(c := restore_interrupt_state (lm_rflags s c) (lm_saved s c))\<rparr>)
      c Outside)"

inductive_cases lock_stepE: "lock_step s s'"

definition lock_start :: "lock_machine \<Rightarrow> bool" where
  "lock_start s \<longleftrightarrow> locked (lm_lock s) = 0 \<and> (\<forall>c. lm_pc s c = Outside)"

text \<open>
  The lock word is set exactly when some processor holds the lock, and only one does; from
  the \<^verbatim>\<open>cli\<close> to the restoration a processor's interrupt flag is clear and its other flags
  are the saved ones.
\<close>

definition lock_inv :: "lock_machine \<Rightarrow> bool" where
  "lock_inv s \<longleftrightarrow> (locked (lm_lock s) \<noteq> 0 \<longleftrightarrow> (\<exists>c. lm_pc s c = Holding)) \<and>
     (\<forall>c d. lm_pc s c = Holding \<longrightarrow> lm_pc s d = Holding \<longrightarrow> c = d) \<and>
     (\<forall>c. lm_pc s c \<noteq> Outside \<longrightarrow> lm_rflags s c = lm_saved s c AND NOT RFLAGS_IF)"

lemma lock_inv_step:
  assumes "lock_inv s" "lock_step s s'" shows "lock_inv s'"
  using assms(2,1)
proof cases
  case (flags c f)
  then show ?thesis using assms(1) by (auto simp: lock_inv_def)
next
  case (begin_acquire c f r)
  then have "lm_pc s' d = Holding \<longleftrightarrow> lm_pc s d = Holding" for d by (auto simp: goto_def)
  moreover have "lm_lock s' = lm_lock s" using begin_acquire(1) by (simp add: goto_def)
  moreover have "lm_rflags s' d = lm_saved s' d AND NOT RFLAGS_IF" if "lm_pc s' d \<noteq> Outside" for d
    using that begin_acquire assms(1)
    by (cases "d = c") (auto simp: goto_def lock_inv_def read_and_disable_interrupts_def)
  ultimately show ?thesis using assms(1) unfolding lock_inv_def by simp
next
  case (exchange c old lock)
  show ?thesis
  proof (cases "locked (lm_lock s) = 0")
    case True
    then show ?thesis using exchange assms(1) by (auto simp: lock_inv_def goto_def atomic_exchange_def)
  next
    case False
    then have "lm_pc s' d = Holding \<longleftrightarrow> lm_pc s d = Holding" for d
      using exchange by (auto simp: goto_def atomic_exchange_def)
    moreover have "locked (lm_lock s') \<noteq> 0" using exchange by (auto simp: goto_def atomic_exchange_def)
    moreover have "lm_rflags s' = lm_rflags s" "lm_saved s' = lm_saved s"
      "lm_pc s' d \<noteq> Outside \<longrightarrow> lm_pc s d \<noteq> Outside" for d
      using exchange by (auto simp: goto_def)
    ultimately show ?thesis using assms(1) False unfolding lock_inv_def by metis
  qed
next
  case (seen_free c)
  then show ?thesis using assms(1) by (auto simp: lock_inv_def goto_def)
next
  case (release c)
  then show ?thesis using assms(1) by (auto simp: lock_inv_def goto_def spinlock_release_def)
next
  case (restore c)
  then have "lm_pc s' d = Holding \<longleftrightarrow> lm_pc s d = Holding" for d by (auto simp: goto_def)
  moreover have "lm_lock s' = lm_lock s" using restore(1) by (simp add: goto_def)
  moreover have "lm_rflags s' d = lm_saved s' d AND NOT RFLAGS_IF" if "lm_pc s' d \<noteq> Outside" for d
    using that restore(1) assms(1) by (cases "d = c") (auto simp: goto_def lock_inv_def)
  ultimately show ?thesis using assms(1) unfolding lock_inv_def by simp
qed (use assms in auto)

interpretation spin: invariant_machine lock_start lock_step lock_inv
proof
  show "lock_start s \<Longrightarrow> lock_inv s" for s by (simp add: lock_start_def lock_inv_def)
qed (rule lock_inv_step)

section \<open>Properties\<close>

text \<open>
  C7: mutual exclusion. However many processors contend and however their steps interleave, at
  most one holds the lock; the lock word is set exactly while one does; and a processor that holds
  it runs with interrupts disabled.
\<close>

theorem spinlock_mutual_exclusion:
  assumes "lock_start s" and "lock_step\<^sup>*\<^sup>* s s'"
  shows "(\<forall>c d. lm_pc s' c = Holding \<longrightarrow> lm_pc s' d = Holding \<longrightarrow> c = d) \<and>
    (locked (lm_lock s') \<noteq> 0 \<longleftrightarrow> (\<exists>c. lm_pc s' c = Holding)) \<and>
    (\<forall>c. lm_pc s' c = Holding \<longrightarrow> lm_rflags s' c AND 0x200 = 0)"
proof -
  have "lock_inv s'" by (rule spin.reachable_inv [OF assms])
  moreover have "(x AND NOT 0x200) AND 0x200 = 0" for x :: u64
    by (simp add: and.assoc)
  ultimately show ?thesis unfolding lock_inv_def by auto
qed

definition two_cpus :: lock_machine where
  "two_cpus = \<lparr>lm_lock = \<lparr>locked = 0\<rparr>, lm_pc = (\<lambda>_. Outside), lm_rflags = (\<lambda>_. 0x202),
     lm_saved = (\<lambda>_. 0)\<rparr>"

lemma two_cpus_run:
  "\<exists>s. lock_step\<^sup>*\<^sup>* two_cpus s \<and> lm_pc s 0 = Holding \<and> lm_pc s 1 = Pause"
proof -
  let ?a = "goto (two_cpus\<lparr>lm_saved := (lm_saved two_cpus)(0 := 0x202),
      lm_rflags := (lm_rflags two_cpus)(0 := 2)\<rparr>) 0 Exchange"
  let ?b = "goto (?a\<lparr>lm_saved := (lm_saved ?a)(1 := 0x202), lm_rflags := (lm_rflags ?a)(1 := 2)\<rparr>) 1 Exchange"
  let ?c = "goto (?b\<lparr>lm_lock := \<lparr>locked = 1\<rparr>\<rparr>) 0 Holding"
  let ?d = "goto (?c\<lparr>lm_lock := \<lparr>locked = 1\<rparr>\<rparr>) 1 Pause"
  have "lock_step two_cpus ?a"
    by (rule lock_step.begin_acquire) (simp_all add: two_cpus_def read_and_disable_interrupts_def)
  moreover have "lock_step ?a ?b"
    by (rule lock_step.begin_acquire) (simp_all add: two_cpus_def goto_def read_and_disable_interrupts_def)
  moreover have "lock_step ?b ?c"
    using lock_step.exchange [of ?b 0 0 "\<lparr>locked = 1\<rparr>"]
    by (simp add: two_cpus_def goto_def atomic_exchange_def)
  moreover have "lock_step ?c ?d"
    using lock_step.exchange [of ?c 1 1 "\<lparr>locked = 1\<rparr>"]
    by (simp add: two_cpus_def goto_def atomic_exchange_def)
  ultimately have "lock_step\<^sup>*\<^sup>* two_cpus ?d" by (meson converse_rtranclp_into_rtranclp rtranclp.rtrancl_refl)
  then show ?thesis by (intro exI [of _ ?d]) (simp add: goto_def)
qed

theorem spinlock_mutual_exclusion_witness:
  "\<exists>s. lock_step\<^sup>*\<^sup>* two_cpus s \<and> lm_pc s 0 = Holding \<and> locked (lm_lock s) \<noteq> 0 \<and>
     lm_rflags s 0 AND 0x200 = 0"
proof -
  have st: "lock_start two_cpus" by (simp add: lock_start_def two_cpus_def)
  obtain s where s: "lock_step\<^sup>*\<^sup>* two_cpus s" "lm_pc s 0 = Holding" using two_cpus_run by blast
  with spinlock_mutual_exclusion [OF st s(1)] show ?thesis by blast
qed

text \<open>
  No deadlock. In every reachable state in which a processor waits for the lock, either the
  lock is free and that processor can take it with at most two steps of its own, or some
  processor holds the lock and can release it with its next step.
\<close>

theorem spinlock_progress:
  assumes "lock_start s" and "lock_step\<^sup>*\<^sup>* s s'" and "lm_pc s' c = Exchange \<or> lm_pc s' c = Pause"
  shows "(locked (lm_lock s') = 0 \<and> (\<exists>t u. (t = s' \<or> lock_step s' t) \<and> lock_step t u \<and>
       lm_pc u c = Holding \<and> (\<forall>d. d \<noteq> c \<longrightarrow> lm_pc u d = lm_pc s' d))) \<or>
    (\<exists>d t. lm_pc s' d = Holding \<and> lock_step s' t \<and> locked (lm_lock t) = 0)"
proof (cases "locked (lm_lock s') = 0")
  case True
  define t where "t = (if lm_pc s' c = Pause then goto s' c Exchange else s')"
  have t: "t = s' \<or> lock_step s' t" "lm_pc t c = Exchange" "lm_lock t = lm_lock s'"
    "\<forall>d. d \<noteq> c \<longrightarrow> lm_pc t d = lm_pc s' d"
    using True assms(3) by (auto simp: t_def goto_def intro: lock_step.seen_free [of s' c, unfolded goto_def])
  let ?u = "goto (t\<lparr>lm_lock := (lm_lock t)\<lparr>locked := 1\<rparr>\<rparr>) c (if locked (lm_lock t) \<noteq> 0 then Pause else Holding)"
  have "lock_step t ?u" by (rule lock_step.exchange [OF t(2)]) (simp add: atomic_exchange_def)
  moreover have "lm_pc ?u c = Holding" "\<forall>d. d \<noteq> c \<longrightarrow> lm_pc ?u d = lm_pc s' d"
    using True t(3,4) by (simp_all add: goto_def)
  ultimately show ?thesis using True t(1) by blast
next
  case False
  have "lock_inv s'" by (rule spin.reachable_inv [OF assms(1,2)])
  then obtain d where "lm_pc s' d = Holding" using False by (auto simp: lock_inv_def)
  then show ?thesis
    using lock_step.release [of s' d] by (auto simp: goto_def spinlock_release_def intro!: exI)
qed

theorem spinlock_progress_witness:
  "\<exists>s d t. lock_step\<^sup>*\<^sup>* two_cpus s \<and> lm_pc s 1 = Pause \<and> lm_pc s d = Holding \<and> lock_step s t \<and>
     locked (lm_lock t) = 0"
proof -
  have st: "lock_start two_cpus" by (simp add: lock_start_def two_cpus_def)
  obtain s where s: "lock_step\<^sup>*\<^sup>* two_cpus s" "lm_pc s 0 = Holding" "lm_pc s 1 = Pause"
    using two_cpus_run by blast
  have "locked (lm_lock s) \<noteq> 0"
    using spin.reachable_inv [OF st s(1)] s(2) by (auto simp: lock_inv_def)
  with spinlock_progress [OF st s(1), of 1] s show ?thesis by blast
qed

text \<open>
  C39: on one processor the plain acquire of a held lock never returns, which is why a lock that an
  interrupt handler also takes needs the variants that disable interrupts; those restore exactly
  the flags they saved, so a section nested in a disabled one stays disabled.
\<close>

theorem spinlock_single_cpu:
  "spinlock_acquire lock =
     (if locked lock = 0 then Some (lock\<lparr>locked := 1\<rparr>) else None) \<and>
   (\<forall>flags lock1 rflags1. spinlock_acquire_irqsave lock rflags = Some (flags, lock1, rflags1) \<longrightarrow>
      rflags1 AND 0x200 = 0 \<and>
      spinlock_release_irqrestore lock1 rflags1 flags = (lock1\<lparr>locked := 0\<rparr>, rflags))"
proof -
  have "(x AND NOT 0x200) AND 0x200 = 0" for x :: u64 by (simp add: and.assoc)
  then show ?thesis
    by (auto simp: acquire_free acquire_held spinlock_acquire_irqsave_def
        read_and_disable_interrupts_def spinlock_release_irqrestore_def spinlock_release_def
        restore_interrupt_state_def split: prod.splits)
qed

theorem spinlock_single_cpu_witness:
  "spinlock_acquire_irqsave \<lparr>locked = 0\<rparr> 0x246 = Some (0x246, \<lparr>locked = 1\<rparr>, 0x46) \<and>
   spinlock_release_irqrestore \<lparr>locked = 1\<rparr> 0x46 0x246 = (\<lparr>locked = 0\<rparr>, 0x246)"
proof -
  have "spinlock_acquire_irqsave \<lparr>locked = 0\<rparr> 0x246 = Some (0x246, \<lparr>locked = 1\<rparr>, 0x46)"
    by (simp add: spinlock_acquire_irqsave_def acquire_free read_and_disable_interrupts_def)
  with spinlock_single_cpu [of "\<lparr>locked = 0\<rparr>" "0x246"] show ?thesis by simp
qed

end
