(* ===== verification/Sched_Context.thy ===== *)
theory Sched_Context
  imports Quin_Prelude
begin

text \<open>
  \<^verbatim>\<open>kernel/arch/x86_64/cpu/context_switch.S\<close>: the assembly that saves one thread's
  callee-saved registers on its stack and pops another's, and the trampoline a new thread
  starts in. One function per instruction sequence, over the registers it names and the
  memory the stacks live in.
\<close>

section \<open>Registers and instructions\<close>

record cpu =
  rsp :: u64
  rbp :: u64
  rbx :: u64
  r12 :: u64
  r13 :: u64
  r14 :: u64
  r15 :: u64
  rdi :: u64
  rip :: u64
  rflags :: u64
  cpu_mem :: mem

definition push :: "u64 \<Rightarrow> cpu \<Rightarrow> cpu" where
  "push v c = c\<lparr>rsp := rsp c - 8, cpu_mem := store64 (cpu_mem c) (rsp c - 8) v\<rparr>"

definition pop :: "cpu \<Rightarrow> u64 \<times> cpu" where
  "pop c = (load64 (cpu_mem c) (rsp c), c\<lparr>rsp := rsp c + 8\<rparr>)"

definition push_callee_saved :: "cpu \<Rightarrow> cpu" where
  "push_callee_saved c =
     (let c1 = push (rbp c) c;
          c2 = push (rbx c1) c1;
          c3 = push (r12 c2) c2;
          c4 = push (r13 c3) c3;
          c5 = push (r14 c4) c4
      in push (r15 c5) c5)"

definition pop_callee_saved :: "cpu \<Rightarrow> cpu" where
  "pop_callee_saved c =
     (let (v15, c1) = pop c;
          (v14, c2) = pop (c1\<lparr>r15 := v15\<rparr>);
          (v13, c3) = pop (c2\<lparr>r14 := v14\<rparr>);
          (v12, c4) = pop (c3\<lparr>r13 := v13\<rparr>);
          (vbx, c5) = pop (c4\<lparr>r12 := v12\<rparr>);
          (vbp, c6) = pop (c5\<lparr>rbx := vbx\<rparr>)
      in c6\<lparr>rbp := vbp\<rparr>)"

definition ret :: "cpu \<Rightarrow> cpu" where
  "ret c = (let (a, c1) = pop c in c1\<lparr>rip := a\<rparr>)"

text \<open>
  Entered with the return address of its caller on top of the stack. The value it stores
  through \<^verbatim>\<open>old_sp\<close> is the first component of the result.
\<close>

definition context_switch :: "u64 \<Rightarrow> cpu \<Rightarrow> u64 \<times> cpu" where
  "context_switch new_sp c =
     (let c1 = push_callee_saved c;
          old_sp = rsp c1;
          c2 = c1\<lparr>rsp := new_sp\<rparr>
      in (old_sp, ret (pop_callee_saved c2)))"

text \<open>
  \<^verbatim>\<open>sti; mov %r13, %rdi; call *%r12\<close>, up to the first instruction of the entry
  function; \<open>after\<close> is the address of the instruction that calls \<^verbatim>\<open>thread_exited\<close>.
\<close>

definition thread_trampoline :: "u64 \<Rightarrow> cpu \<Rightarrow> cpu" where
  "thread_trampoline after c =
     (let c1 = c\<lparr>rflags := rflags c OR 0x200\<rparr>;
          c2 = c1\<lparr>rdi := r13 c1\<rparr>
      in (push after c2)\<lparr>rip := r12 c2\<rparr>)"

section \<open>Stack frames\<close>

text \<open>Consecutive 64-bit words of memory.\<close>

primrec frame_at :: "mem \<Rightarrow> u64 \<Rightarrow> u64 list \<Rightarrow> bool" where
  "frame_at m a [] \<longleftrightarrow> True"
| "frame_at m a (v # vs) \<longleftrightarrow> load64 m a = v \<and> frame_at m (a + 8) vs"

definition same_frame :: "mem \<Rightarrow> mem \<Rightarrow> u64 \<Rightarrow> bool" where
  "same_frame m m' a \<longleftrightarrow> (\<forall>x. x - a < 56 \<longrightarrow> m' x = m x)"

lemma load64_same:
  assumes "same_frame m m' a" "i \<le> 48"
  shows "load64 m' (a + i) = load64 m (a + i)"
proof (rule load64_cong)
  fix j :: u64 assume "j < 8"
  then have "unat (i + j) < 56" using assms(2) by (simp add: unat_add_64 word_less_nat_alt word_le_nat_alt)
  then show "m' (a + i + j) = m (a + i + j)"
    using assms(1) by (simp add: same_frame_def word_less_nat_alt add.assoc)
qed

text \<open>The seven words a suspended thread leaves on its stack, lowest address first.\<close>

definition saved_at :: "mem \<Rightarrow> u64 \<Rightarrow> cpu \<Rightarrow> u64 \<Rightarrow> bool" where
  "saved_at m sp c ra \<longleftrightarrow> frame_at m sp [r15 c, r14 c, r13 c, r12 c, rbx c, rbp c, ra]"

lemma saved_at_same:
  assumes "saved_at m sp c ra" "same_frame m m' sp" shows "saved_at m' sp c ra"
proof -
  have "load64 m' (i + sp) = load64 m (i + sp)" if "i \<le> 48" for i
    using load64_same [OF assms(2) that] by (simp add: add.commute)
  from this [of 0] this [of 8] this [of 16] this [of 24] this [of 32] this [of 40] this [of 48]
  show ?thesis using assms(1) by (simp add: saved_at_def add.commute [of sp 8])
qed

lemma push_callee_saved_frame:
  "saved_at (cpu_mem (push_callee_saved c)) (rsp (push_callee_saved c)) c (load64 (cpu_mem c) (rsp c))"
  and push_callee_saved_rsp: "rsp (push_callee_saved c) = rsp c - 48"
  by (simp_all add: push_callee_saved_def push_def saved_at_def mem_simps)

lemma push_callee_saved_outside:
  assumes "48 \<le> x - (rsp c - 48)"
  shows "cpu_mem (push_callee_saved c) x = cpu_mem c x"
proof -
  have "\<not> x - (rsp c - k) < 8" if "k \<in> {8, 16, 24, 32, 40, 48}" for k
  proof
    assume l: "x - (rsp c - k) < 8"
    have e: "x - (rsp c - 48) = (x - (rsp c - k)) + (48 - k)" by (simp add: algebra_simps)
    have "unat ((x - (rsp c - k)) + (48 - k)) = unat (x - (rsp c - k)) + unat (48 - k)"
      using l that by (subst unat_add_64) (auto simp: word_less_nat_alt)
    moreover have "unat (48 - k) \<le> 40" using that by auto
    ultimately show False using assms l unfolding e by (simp add: word_le_nat_alt word_less_nat_alt)
  qed
  then show ?thesis by (simp add: push_callee_saved_def push_def store64_outside)
qed

lemma resume_frame:
  assumes "saved_at (cpu_mem c) (rsp c) d ra"
  shows "ret (pop_callee_saved c) = c\<lparr>rsp := rsp c + 56, rbp := rbp d, rbx := rbx d, r12 := r12 d,
    r13 := r13 d, r14 := r14 d, r15 := r15 d, rip := ra\<rparr>"
  using assms by (simp add: ret_def pop_callee_saved_def pop_def saved_at_def)

lemma push_callee_saved_eq:
  "push_callee_saved c = c\<lparr>rsp := rsp c - 48, cpu_mem := cpu_mem (push_callee_saved c)\<rparr>"
  by (cases c) (simp add: push_callee_saved_def push_def)

lemma context_switch_result:
  assumes "saved_at (cpu_mem (push_callee_saved c)) new_sp d ra"
  shows "context_switch new_sp c = (rsp c - 48,
    c\<lparr>rsp := new_sp + 56, rbp := rbp d, rbx := rbx d, r12 := r12 d, r13 := r13 d, r14 := r14 d,
      r15 := r15 d, rip := ra, cpu_mem := cpu_mem (push_callee_saved c)\<rparr>)"
proof -
  define m where "m = cpu_mem (push_callee_saved c)"
  have p: "push_callee_saved c = c\<lparr>rsp := rsp c - 48, cpu_mem := m\<rparr>"
    unfolding m_def by (rule push_callee_saved_eq)
  have "saved_at (cpu_mem (c\<lparr>cpu_mem := m, rsp := new_sp\<rparr>)) (rsp (c\<lparr>cpu_mem := m, rsp := new_sp\<rparr>)) d ra"
    using assms by (simp add: m_def)
  from resume_frame [OF this] show ?thesis
    unfolding context_switch_def m_def [symmetric] by (simp add: p Let_def)
qed

end
