(* ===== verification/Sched_Sched.thy ===== *)
theory Sched_Sched
  imports Sched_Spinlock Sched_Context
begin

text \<open>
  \<^verbatim>\<open>kernel/sched/sched.c\<close>: the circular ready queue and the round-robin
  scheduler. Threads live in a map from their address to \<^verbatim>\<open>struct thread\<close>; the
  ready ring is what following \<^verbatim>\<open>next\<close> from \<^verbatim>\<open>current\<close> visits.
\<close>

section \<open>State and operations\<close>

record thread =
  stack_pointer :: u64
  stack_base :: u64
  thread_id :: u64
  next_thread :: u64

abbreviation (input) SCHED_TIME_SLICE_TICKS :: u64 where "SCHED_TIME_SLICE_TICKS \<equiv> 10"

text \<open>
  The file's static variables, the threads, and the processor the scheduler switches;
  \<open>bootstrap_thread\<close> is the address of the static of that name. \<open>None\<close> as the result of an
  operation means that it spins forever on the lock.
\<close>

record sched =
  ready_lock :: spinlock
  bootstrap_thread :: u64
  threads :: "u64 \<Rightarrow> thread"
  current :: u64
  next_thread_id :: u64
  ticks_since_switch :: u64
  sched_cpu :: cpu

definition sched_init :: "sched \<Rightarrow> sched" where
  "sched_init s =
     (let b = bootstrap_thread s;
          t = (threads s b)\<lparr>thread_id := 0, next_thread := b\<rparr>
      in s\<lparr>threads := (threads s)(b := t), current := b\<rparr>)"

definition lock_ready :: "sched \<Rightarrow> (u64 \<times> sched) option" where
  "lock_ready s =
     map_option (\<lambda>(flags, lock, f). (flags, s\<lparr>ready_lock := lock, sched_cpu := (sched_cpu s)\<lparr>rflags := f\<rparr>\<rparr>))
       (spinlock_acquire_irqsave (ready_lock s) (rflags (sched_cpu s)))"

definition unlock_ready :: "u64 \<Rightarrow> sched \<Rightarrow> sched" where
  "unlock_ready flags s =
     (let (lock, f) = spinlock_release_irqrestore (ready_lock s) (rflags (sched_cpu s)) flags
      in s\<lparr>ready_lock := lock, sched_cpu := (sched_cpu s)\<lparr>rflags := f\<rparr>\<rparr>)"

definition sched_add_thread :: "sched \<Rightarrow> u64 \<Rightarrow> sched option" where
  "sched_add_thread s thread =
     map_option
       (\<lambda>(flags, s1).
          let s2 = s1\<lparr>threads := (threads s1)(thread := (threads s1 thread)\<lparr>thread_id := next_thread_id s1\<rparr>),
                next_thread_id := next_thread_id s1 + 1\<rparr>;
              s3 = s2\<lparr>threads := (threads s2)(thread :=
                (threads s2 thread)\<lparr>next_thread := next_thread (threads s2 (current s2))\<rparr>)\<rparr>;
              s4 = s3\<lparr>threads := (threads s3)(current s3 :=
                (threads s3 (current s3))\<lparr>next_thread := thread\<rparr>)\<rparr>
          in unlock_ready flags s4)
       (lock_ready s)"

text \<open>The locked part of \<^verbatim>\<open>switch_to_next\<close>, with \<^verbatim>\<open>prev\<close> and \<^verbatim>\<open>next\<close>.\<close>

definition select_next :: "sched \<Rightarrow> (u64 \<times> u64 \<times> sched) option" where
  "select_next s =
     map_option
       (\<lambda>(flags, s1).
          let prev = current s1;
              next = next_thread (threads s1 (current s1));
              s2 = s1\<lparr>current := next\<rparr>
          in (prev, next, unlock_ready flags s2))
       (lock_ready s)"

text \<open>
  The rest of it; the call of \<^verbatim>\<open>context_switch\<close> stores the outgoing stack pointer in the
  outgoing thread.
\<close>

definition finish_switch :: "u64 \<Rightarrow> u64 \<Rightarrow> sched \<Rightarrow> sched" where
  "finish_switch prev next s =
     (let s1 = s\<lparr>ticks_since_switch := 0\<rparr>
      in if next \<noteq> prev then
           let (sp, c) = context_switch (stack_pointer (threads s1 next)) (sched_cpu s1)
           in s1\<lparr>threads := (threads s1)(prev := (threads s1 prev)\<lparr>stack_pointer := sp\<rparr>),
                 sched_cpu := c\<rparr>
         else s1)"

definition switch_to_next :: "sched \<Rightarrow> sched option" where
  "switch_to_next s =
     map_option (\<lambda>(prev, next, s1). finish_switch prev next s1) (select_next s)"

definition sched_tick :: "sched \<Rightarrow> sched option" where
  "sched_tick s =
     (let s1 = s\<lparr>ticks_since_switch := ticks_since_switch s + 1\<rparr>
      in if SCHED_TIME_SLICE_TICKS \<le> ticks_since_switch s1 then switch_to_next s1 else Some s1)"

definition sched_yield :: "sched \<Rightarrow> sched option" where
  "sched_yield s = switch_to_next s"

section \<open>The ready ring\<close>

definition succ_of :: "sched \<Rightarrow> u64 \<Rightarrow> u64" where "succ_of s t = next_thread (threads s t)"
definition ids :: "sched \<Rightarrow> u64 \<Rightarrow> u64" where "ids s t = thread_id (threads s t)"

text \<open>Following \<open>f\<close> from the first element goes through the list and back.\<close>

definition ring :: "('a \<Rightarrow> 'a) \<Rightarrow> 'a list \<Rightarrow> bool" where
  "ring f xs \<longleftrightarrow> xs \<noteq> [] \<and> distinct xs \<and> map f xs = rotate1 xs"

lemma ring_next: "ring f xs \<Longrightarrow> f (hd xs) = hd (rotate1 xs)"
  by (metis list.map_sel(1) ring_def)

lemma ring_rotate: "ring f xs \<Longrightarrow> ring f (rotate1 xs)"
  by (simp add: ring_def rotate1_map [symmetric])

lemma ring_insert:
  assumes "ring f (x # ys)" "t \<notin> set (x # ys)"
  shows "ring (f(t := f x, x := t)) (x # t # ys)"
proof -
  have "f x # map f ys = ys @ [x]" using assms(1) by (simp add: ring_def)
  moreover have "map (f(t := f x, x := t)) ys = map f ys"
    using assms by (intro map_cong) (auto simp: ring_def)
  ultimately show ?thesis using assms by (auto simp: ring_def)
qed

text \<open>
  A consistent scheduler with ready ring \<open>xs\<close>, the running thread first: the lock is free
  and the identifiers handed out so far are below the counter and pairwise different.
\<close>

definition sched_inv :: "sched \<Rightarrow> u64 list \<Rightarrow> bool" where
  "sched_inv s xs \<longleftrightarrow> locked (ready_lock s) = 0 \<and> ring (succ_of s) xs \<and> hd xs = current s \<and>
     (\<forall>t \<in> set xs. ids s t < next_thread_id s) \<and> inj_on (ids s) (set xs)"

lemma sched_inv_update [simp]:
  "sched_inv (s\<lparr>sched_cpu := c\<rparr>) xs = sched_inv s xs"
  "sched_inv (s\<lparr>ticks_since_switch := n\<rparr>) xs = sched_inv s xs"
proof -
  have "succ_of (s\<lparr>sched_cpu := c\<rparr>) = succ_of s" "ids (s\<lparr>sched_cpu := c\<rparr>) = ids s"
    "succ_of (s\<lparr>ticks_since_switch := n\<rparr>) = succ_of s" "ids (s\<lparr>ticks_since_switch := n\<rparr>) = ids s"
    by (simp_all add: succ_of_def ids_def fun_eq_iff)
  then show "sched_inv (s\<lparr>sched_cpu := c\<rparr>) xs = sched_inv s xs" "sched_inv (s\<lparr>ticks_since_switch := n\<rparr>) xs = sched_inv s xs"
    by (simp_all add: sched_inv_def)
qed

lemma lock_ready_free:
  "locked (ready_lock s) = 0 \<Longrightarrow> lock_ready s = Some (rflags (sched_cpu s),
     s\<lparr>ready_lock := (ready_lock s)\<lparr>locked := 1\<rparr>,
       sched_cpu := (sched_cpu s)\<lparr>rflags := rflags (sched_cpu s) AND NOT RFLAGS_IF\<rparr>\<rparr>)"
  by (simp add: lock_ready_def spinlock_acquire_irqsave_def read_and_disable_interrupts_def acquire_free)

lemma lock_ready_held: "locked (ready_lock s) \<noteq> 0 \<Longrightarrow> lock_ready s = None"
  by (simp add: lock_ready_def spinlock_acquire_irqsave_def read_and_disable_interrupts_def acquire_held)

lemma unlock_result:
  "unlock_ready flags s = s\<lparr>ready_lock := (ready_lock s)\<lparr>locked := 0\<rparr>, sched_cpu := (sched_cpu s)\<lparr>rflags := flags\<rparr>\<rparr>"
  by (simp add: unlock_ready_def spinlock_release_irqrestore_def spinlock_release_def restore_interrupt_state_def)

lemma free_lock_eq: "locked lock = 0 \<Longrightarrow> lock\<lparr>locked := 0\<rparr> = lock"
  by (cases lock) simp

lemma sched_add_thread_result:
  assumes "locked (ready_lock s) = 0" "t \<noteq> current s"
  shows "sched_add_thread s t = Some (s\<lparr>next_thread_id := next_thread_id s + 1,
    threads := (threads s)
      (t := (threads s t)\<lparr>thread_id := next_thread_id s, next_thread := next_thread (threads s (current s))\<rparr>,
       current s := (threads s (current s))\<lparr>next_thread := t\<rparr>)\<rparr>)"
  using assms
  by (cases s) (simp add: sched_add_thread_def lock_ready_free unlock_result free_lock_eq Let_def)

lemma sched_add_thread_inv:
  assumes "sched_inv s (x # ys)" "t \<notin> set (x # ys)" "next_thread_id s < 2 ^ 64 - 1"
  shows "\<exists>s'. sched_add_thread s t = Some s' \<and> sched_inv s' (x # t # ys)"
proof -
  have x: "current s = x" "locked (ready_lock s) = 0" using assms(1) by (simp_all add: sched_inv_def)
  define s' where "s' = s\<lparr>next_thread_id := next_thread_id s + 1,
    threads := (threads s)
      (t := (threads s t)\<lparr>thread_id := next_thread_id s, next_thread := next_thread (threads s x)\<rparr>,
       x := (threads s x)\<lparr>next_thread := t\<rparr>)\<rparr>"
  have "sched_add_thread s t = Some s'"
    using sched_add_thread_result [of s t] x assms(2) by (simp add: s'_def)
  moreover have "succ_of s' = (succ_of s)(t := succ_of s x, x := t)" "ids s' = (ids s)(t := next_thread_id s)"
    using assms(2) by (auto simp: fun_eq_iff succ_of_def ids_def s'_def)
  moreover have "next_thread_id s < next_thread_id s + 1"
    using unat_plus_one_64 [OF assms(3)] by (simp add: word_less_nat_alt)
  ultimately show ?thesis
    using assms(1,2) ring_insert [of "succ_of s" x ys t]
    by (intro exI [of _ s']) (auto simp: sched_inv_def s'_def inj_on_def intro: less_trans)
qed

lemma select_next_result:
  "locked (ready_lock s) = 0 \<Longrightarrow>
     select_next s = Some (current s, succ_of s (current s), s\<lparr>current := succ_of s (current s)\<rparr>)"
  by (cases s) (simp add: select_next_def lock_ready_free unlock_result free_lock_eq succ_of_def Let_def)

lemma finish_switch_frame:
  "succ_of (finish_switch p n s) = succ_of s" "ids (finish_switch p n s) = ids s"
  "current (finish_switch p n s) = current s" "ready_lock (finish_switch p n s) = ready_lock s"
  "next_thread_id (finish_switch p n s) = next_thread_id s" "ticks_since_switch (finish_switch p n s) = 0"
  by (auto simp: finish_switch_def succ_of_def ids_def fun_eq_iff Let_def case_prod_beta)

lemma succ_of_current: "succ_of (s\<lparr>current := x\<rparr>) = succ_of s" "ids (s\<lparr>current := x\<rparr>) = ids s"
  by (simp_all add: succ_of_def ids_def fun_eq_iff)

lemma switch_to_next_inv:
  assumes "sched_inv s xs"
  shows "\<exists>s'. switch_to_next s = Some s' \<and> sched_inv s' (rotate1 xs) \<and> ticks_since_switch s' = 0"
proof -
  let ?s = "finish_switch (current s) (succ_of s (current s)) (s\<lparr>current := succ_of s (current s)\<rparr>)"
  have r: "ring (succ_of s) xs" "hd xs = current s" using assms by (simp_all add: sched_inv_def)
  have "switch_to_next s = Some ?s"
    using assms by (simp add: switch_to_next_def select_next_result sched_inv_def)
  moreover have "sched_inv ?s (rotate1 xs)"
    using assms ring_rotate [OF r(1)] ring_next [OF r(1)]
    by (simp add: sched_inv_def finish_switch_frame succ_of_current r(2) [symmetric])
  ultimately show ?thesis by (simp add: finish_switch_frame)
qed

section \<open>Round robin\<close>

primrec iterate :: "('s \<Rightarrow> 's option) \<Rightarrow> nat \<Rightarrow> 's \<Rightarrow> 's option" where
  "iterate f 0 s = Some s"
| "iterate f (Suc n) s = Option.bind (f s) (iterate f n)"

lemma iterate_add: "iterate f (m + n) s = Option.bind (iterate f m s) (iterate f n)"
  by (induction m arbitrary: s) (auto split: bind_splits)

text \<open>
  What a scheduler owes its threads: a step of it hands the processor to the next thread of
  the queue and sends the running one to its end.
\<close>

locale round_robin =
  fixes step :: "'s \<Rightarrow> 's option"
    and cur :: "'s \<Rightarrow> 'a"
    and queue :: "'s \<Rightarrow> 'a list \<Rightarrow> bool"
  assumes queue_head: "queue s xs \<Longrightarrow> xs \<noteq> [] \<and> distinct xs \<and> cur s = hd xs"
    and step_rotates: "queue s xs \<Longrightarrow> \<exists>s'. step s = Some s' \<and> queue s' (rotate1 xs)"
begin

lemma iterate_rotates: "queue s xs \<Longrightarrow> \<exists>s'. iterate step n s = Some s' \<and> queue s' (rotate n xs)"
proof (induction n arbitrary: s xs)
  case (Suc n)
  obtain s1 where s1: "step s = Some s1" "queue s1 (rotate1 xs)" using step_rotates [OF Suc.prems] by blast
  then show ?case using Suc.IH [OF s1(2)] by (simp add: rotate1_rotate_swap)
qed simp

lemma turn:
  assumes "queue s xs"
  shows "\<exists>s'. iterate step n s = Some s' \<and> queue s' (rotate n xs) \<and> cur s' = xs ! (n mod length xs)"
proof -
  obtain s' where s': "iterate step n s = Some s'" "queue s' (rotate n xs)"
    using iterate_rotates [OF assms] by blast
  then show ?thesis using queue_head [OF s'(2)] queue_head [OF assms] by (simp add: hd_rotate_conv_nth)
qed

lemma one_turn_per_round:
  assumes "queue s xs" "x \<in> set xs"
  shows "\<exists>!k. k < length xs \<and> map_option cur (iterate step (m + k) s) = Some x"
proof -
  obtain s' where s': "iterate step m s = Some s'" "queue s' (rotate m xs)"
    using iterate_rotates [OF assms(1)] by blast
  have c: "map_option cur (iterate step (m + k) s) = Some (rotate m xs ! k)" if "k < length xs" for k
    using turn [OF s'(2), of k] that by (auto simp: iterate_add s'(1))
  obtain k where k: "k < length xs" "rotate m xs ! k = x"
    using assms(2) by (metis in_set_conv_nth length_rotate set_rotate)
  have d: "distinct (rotate m xs)" using queue_head [OF s'(2)] by blast
  show ?thesis
  proof (rule ex1I [of _ k])
    show "k < length xs \<and> map_option cur (iterate step (m + k) s) = Some x"
      using k c [OF k(1)] by simp
    fix j assume j: "j < length xs \<and> map_option cur (iterate step (m + j) s) = Some x"
    then have "rotate m xs ! j = rotate m xs ! k" using c [of j] k(2) by (simp del: map_option_eq_Some)
    then show "j = k" using nth_eq_iff_index_eq [OF d, of j k] j k(1) by simp
  qed
qed

end

interpretation rr: round_robin sched_yield current sched_inv
proof
  show "sched_inv s xs \<Longrightarrow> xs \<noteq> [] \<and> distinct xs \<and> current s = hd xs" for s xs
    by (simp add: sched_inv_def ring_def)
  show "sched_inv s xs \<Longrightarrow> \<exists>s'. sched_yield s = Some s' \<and> sched_inv s' (rotate1 xs)" for s xs
    using switch_to_next_inv [of s xs] by (auto simp: sched_yield_def)
qed

lemma sched_tick_inv:
  assumes "sched_inv s xs" "unat (ticks_since_switch s) < 10"
  shows "\<exists>s'. sched_tick s = Some s' \<and>
    sched_inv s' (rotate ((unat (ticks_since_switch s) + 1) div 10) xs) \<and>
    unat (ticks_since_switch s') = (unat (ticks_since_switch s) + 1) mod 10"
proof -
  define s1 where "s1 = s\<lparr>ticks_since_switch := ticks_since_switch s + 1\<rparr>"
  have t: "unat (ticks_since_switch s + 1) = unat (ticks_since_switch s) + 1"
    using assms(2) by (simp add: unat_add_64)
  have i: "sched_inv s1 xs" using assms(1) by (simp add: s1_def)
  show ?thesis
  proof (cases "unat (ticks_since_switch s) = 9")
    case True
    then have "sched_tick s = switch_to_next s1" by (simp add: sched_tick_def s1_def t word_le_nat_alt)
    then show ?thesis using switch_to_next_inv [OF i] True by auto
  next
    case False
    then have "sched_tick s = Some s1" using assms(2) by (simp add: sched_tick_def s1_def t word_le_nat_alt)
    then show ?thesis using i False assms(2) t by (simp add: s1_def)
  qed
qed

lemma div_mod_carry:
  fixes v n :: nat
  shows "(v mod 10 + n) div 10 + v div 10 = (v + n) div 10" and "(v mod 10 + n) mod 10 = (v + n) mod 10"
proof -
  have e: "v + n = (v mod 10 + n) + 10 * (v div 10)" by simp
  show "(v mod 10 + n) div 10 + v div 10 = (v + n) div 10"
    unfolding e by (subst div_mult_self2) simp_all
  show "(v mod 10 + n) mod 10 = (v + n) mod 10" by (simp add: mod_simps)
qed

lemma sched_ticks_inv:
  assumes "sched_inv s xs" "unat (ticks_since_switch s) < 10"
  shows "\<exists>s'. iterate sched_tick n s = Some s' \<and>
    sched_inv s' (rotate ((unat (ticks_since_switch s) + n) div 10) xs) \<and>
    unat (ticks_since_switch s') = (unat (ticks_since_switch s) + n) mod 10"
  using assms
proof (induction n arbitrary: s xs)
  case (Suc n)
  let ?u = "unat (ticks_since_switch s)"
  obtain s1 where s1: "sched_tick s = Some s1" "sched_inv s1 (rotate ((?u + 1) div 10) xs)"
    "unat (ticks_since_switch s1) = (?u + 1) mod 10"
    using sched_tick_inv [OF Suc.prems] by blast
  have d: "((?u + 1) mod 10 + n) div 10 + (?u + 1) div 10 = (?u + Suc n) div 10"
    "((?u + 1) mod 10 + n) mod 10 = (?u + Suc n) mod 10"
    using div_mod_carry [of "?u + 1" n] by simp_all
  have "unat (ticks_since_switch s1) < 10" using s1(3) by simp
  from Suc.IH [OF s1(2) this, unfolded s1(3) rotate_rotate d] show ?case
    unfolding iterate.simps s1(1) Option.bind.simps .
qed simp

interpretation slices: round_robin "iterate sched_tick 10" current
  "\<lambda>s xs. sched_inv s xs \<and> ticks_since_switch s = 0"
proof
  show "sched_inv s xs \<and> ticks_since_switch s = 0 \<Longrightarrow> xs \<noteq> [] \<and> distinct xs \<and> current s = hd xs" for s xs
    by (simp add: sched_inv_def ring_def)
  show "sched_inv s xs \<and> ticks_since_switch s = 0 \<Longrightarrow>
      \<exists>s'. iterate sched_tick 10 s = Some s' \<and> sched_inv s' (rotate1 xs) \<and> ticks_since_switch s' = 0" for s xs
    using sched_ticks_inv [of s xs 10] by (auto simp: unat_eq_0)
qed

section \<open>Properties\<close>

definition idle_cpu :: cpu where
  "idle_cpu = \<lparr>rsp = 0xffffffff80010000, rbp = 0, rbx = 0, r12 = 0, r13 = 0, r14 = 0, r15 = 0,
     rdi = 0, rip = 0xffffffff80001000, rflags = 0x202, cpu_mem = (\<lambda>_. 0)\<rparr>"

text \<open>The static variables as the image has them, after \<^verbatim>\<open>sched_init\<close>.\<close>

definition boot_sched :: sched where
  "boot_sched = sched_init \<lparr>ready_lock = \<lparr>locked = 0\<rparr>, bootstrap_thread = 0x1000,
     threads = (\<lambda>_. \<lparr>stack_pointer = 0, stack_base = 0, thread_id = 0, next_thread = 0\<rparr>),
     current = 0x1000, next_thread_id = 1, ticks_since_switch = 0, sched_cpu = idle_cpu\<rparr>"

lemma boot_sched_inv: "sched_inv boot_sched [0x1000]"
  by (simp add: sched_inv_def boot_sched_def sched_init_def ring_def succ_of_def ids_def)

lemma boot_sched_fields: "ticks_since_switch boot_sched = 0" "next_thread_id boot_sched = 1"
  by (simp_all add: boot_sched_def sched_init_def)

text \<open>
  Adding a thread. With the lock free, \<^verbatim>\<open>sched_add_thread\<close> returns, puts the new thread
  into the ring right after the running one and keeps the order of the others; it gives it the
  next identifier, which no thread of the ring has, and changes no other identifier.
\<close>

theorem sched_add_thread_correct:
  assumes "sched_inv s (x # ys)" and "t \<notin> set (x # ys)" and "next_thread_id s < 2 ^ 64 - 1"
  shows "\<exists>s'. sched_add_thread s t = Some s' \<and> sched_inv s' (x # t # ys) \<and> current s' = x \<and>
    ids s' t = next_thread_id s \<and> (\<forall>u. u \<noteq> t \<longrightarrow> ids s' u = ids s u)"
proof -
  have "current s = x" "locked (ready_lock s) = 0" using assms(1) by (simp_all add: sched_inv_def)
  moreover obtain s' where "sched_add_thread s t = Some s'" "sched_inv s' (x # t # ys)"
    using sched_add_thread_inv [OF assms(1,2)] assms(3) by auto
  ultimately show ?thesis using sched_add_thread_result [of s t] assms(2) by (auto simp: ids_def)
qed

theorem sched_add_thread_correct_witness:
  "\<exists>s'. sched_add_thread boot_sched 0x2000 = Some s' \<and> sched_inv s' [0x1000, 0x2000] \<and> ids s' 0x2000 = 1"
  using sched_add_thread_correct [OF boot_sched_inv, of "0x2000"] by (auto simp: boot_sched_fields)

lemma three_threads:
  "\<exists>s. sched_inv s [0x1000, 0x3000, 0x2000] \<and> ticks_since_switch s = 0"
proof -
  obtain s1 where s1: "sched_add_thread boot_sched 0x2000 = Some s1" "sched_inv s1 [0x1000, 0x2000]"
    using sched_add_thread_inv [OF boot_sched_inv, of "0x2000"] by (auto simp: boot_sched_fields)
  have f: "next_thread_id s1 = 2" "ticks_since_switch s1 = 0"
    using s1(1) sched_add_thread_result [of boot_sched "0x2000"]
    by (auto simp: boot_sched_def sched_init_def)
  obtain s2 where s2: "sched_add_thread s1 0x3000 = Some s2" "sched_inv s2 [0x1000, 0x3000, 0x2000]"
    using sched_add_thread_inv [OF s1(2), of "0x3000"] f by auto
  moreover have "current s1 = 0x1000" "locked (ready_lock s1) = 0" using s1(2) by (simp_all add: sched_inv_def)
  ultimately show ?thesis using sched_add_thread_result [of s1 "0x3000"] f(2) by auto
qed

text \<open>
  C16: fairness. From any consistent state, and after any number of yields, each ready thread is
  the running one at exactly one of the next as many yields as the ring has threads.
\<close>

theorem sched_yield_fair:
  assumes "sched_inv s xs" and "x \<in> set xs"
  shows "\<exists>!k. k < length xs \<and> map_option current (iterate sched_yield (m + k) s) = Some x"
  using assms by (rule rr.one_turn_per_round)

theorem sched_yield_fair_witness:
  "\<exists>s. sched_inv s [0x1000, 0x3000, 0x2000] \<and>
     (\<exists>!k. k < 3 \<and> map_option current (iterate sched_yield (7 + k) s) = Some 0x2000)"
proof -
  obtain s where "sched_inv s [0x1000, 0x3000, 0x2000]" using three_threads by blast
  moreover from sched_yield_fair [OF this, of "0x2000" 7]
  have "\<exists>!k. k < 3 \<and> map_option current (iterate sched_yield (7 + k) s) = Some 0x2000"
    by (simp add: numeral_3_eq_3 del: map_option_eq_Some)
  ultimately show ?thesis by blast
qed

text \<open>
  Time slices. Counting from a switch, \<open>n\<close> timer ticks return, have switched
  \<open>n div 10\<close> times round the ring, and leave the count at \<open>n mod 10\<close>: every thread runs for
  exactly ten ticks before the next one.
\<close>

theorem sched_tick_time_slice:
  assumes "sched_inv s xs" and "ticks_since_switch s = 0"
  shows "\<exists>s'. iterate sched_tick n s = Some s' \<and> sched_inv s' (rotate (n div 10) xs) \<and>
    current s' = xs ! (n div 10 mod length xs) \<and> unat (ticks_since_switch s') = n mod 10"
proof -
  obtain s' where s': "iterate sched_tick n s = Some s'" "sched_inv s' (rotate (n div 10) xs)"
    "unat (ticks_since_switch s') = n mod 10"
    using sched_ticks_inv [OF assms(1), of n] assms(2) by auto
  have "xs \<noteq> []" using assms(1) by (simp add: sched_inv_def ring_def)
  then have "current s' = xs ! (n div 10 mod length xs)"
    using s'(2) by (simp add: sched_inv_def hd_rotate_conv_nth)
  then show ?thesis using s' by blast
qed

theorem sched_tick_time_slice_witness:
  "\<exists>s s'. sched_inv s [0x1000, 0x3000, 0x2000] \<and> iterate sched_tick 25 s = Some s' \<and>
     current s' = 0x2000 \<and> unat (ticks_since_switch s') = 5"
proof -
  obtain s where s: "sched_inv s [0x1000, 0x3000, 0x2000]" "ticks_since_switch s = 0"
    using three_threads by blast
  with sched_tick_time_slice [OF s, of 25] show ?thesis by auto
qed

end
