(* ===== verification/Sched_Thread.thy ===== *)
theory Sched_Thread
  imports Sched_Sched Mm_Heap Arch_Paging
begin

text \<open>
  \<^verbatim>\<open>kernel/sched/thread.c\<close>: creating a thread out of a heap block, a guarded stack and
  the scheduler's ring, and what the processor does when it first switches to it. The state
  puts together the heap, the virtual memory manager and the scheduler, whose processor's
  memory holds the thread stacks.
\<close>

section \<open>State and operations\<close>

abbreviation (input) THREAD_STACK_PAGES :: u64 where "THREAD_STACK_PAGES \<equiv> 4"
abbreviation (input) SIZEOF_THREAD :: u64 where "SIZEOF_THREAD \<equiv> 32"

record kernel =
  k_heap :: heap
  k_vmm :: vmm
  k_sched :: sched

text \<open>\<^verbatim>\<open>*(--sp) = v\<close>.\<close>

definition store_below :: "u64 \<Rightarrow> u64 \<times> mem \<Rightarrow> u64 \<times> mem" where
  "store_below v sm = (fst sm - 8, store64 (snd sm) (fst sm - 8) v)"

definition init_stack :: "mem \<Rightarrow> u64 \<Rightarrow> u64 \<Rightarrow> u64 \<Rightarrow> u64 \<Rightarrow> u64 \<times> mem" where
  "init_stack m stack trampoline entry arg =
     (let s0 = (stack + THREAD_STACK_PAGES * PAGE_SIZE, m);
          s1 = store_below trampoline s0;
          s2 = store_below 0 s1;
          s3 = store_below 0 s2;
          s4 = store_below entry s3;
          s5 = store_below arg s4;
          s6 = store_below 0 s5
      in store_below 0 s6)"

text \<open>
  \<open>trampoline\<close> is the address of \<^verbatim>\<open>thread_trampoline\<close>. \<open>None\<close>: the heap search or the
  lock does not end; \<open>Inl\<close>: a panic; otherwise the returned pointer, 0 for NULL.
\<close>

definition thread_create :: "u64 \<Rightarrow> kernel \<Rightarrow> u64 \<Rightarrow> u64 \<Rightarrow> (u64 \<times> kernel) kresult option" where
  "thread_create trampoline k entry arg =
     (case kmalloc (k_heap k) SIZEOF_THREAD of
        None \<Rightarrow> None
      | Some (t, h) \<Rightarrow>
          let k1 = k\<lparr>k_heap := h\<rparr>
          in if t = 0 then Some (Inr (0, k1))
             else
               case vmm_alloc_guarded (k_vmm k1) THREAD_STACK_PAGES VMM_WRITABLE of
                 Inl e \<Rightarrow> Some (Inl e)
               | Inr (r, v) \<Rightarrow>
                   let stack = (case r of None \<Rightarrow> 0 | Some a \<Rightarrow> a);
                       k2 = k1\<lparr>k_vmm := v\<rparr>
                   in if stack = 0 then Some (Inr (0, k2\<lparr>k_heap := kfree (k_heap k2) t\<rparr>))
                      else
                        let c = sched_cpu (k_sched k2);
                            (sp, m) = init_stack (cpu_mem c) stack trampoline entry arg;
                            ts = threads (k_sched k2);
                            s = (k_sched k2)\<lparr>sched_cpu := c\<lparr>cpu_mem := m\<rparr>,
                                  threads := ts(t := (ts t)\<lparr>stack_pointer := sp, stack_base := stack\<rparr>)\<rparr>
                        in map_option (\<lambda>s1. Inr (t, k2\<lparr>k_sched := s1\<rparr>)) (sched_add_thread s t))"

definition thread_exited :: "unit kresult" where
  "thread_exited = Inl (Panic ''thread: entry function returned (thread exit is not implemented)'' [])"

section \<open>The first stack frame\<close>

text \<open>The registers the first switch to a thread loads.\<close>

definition first_regs :: "u64 \<Rightarrow> u64 \<Rightarrow> cpu \<Rightarrow> cpu" where
  "first_regs entry arg c = c\<lparr>rbp := 0, rbx := 0, r12 := entry, r13 := arg, r14 := 0, r15 := 0\<rparr>"

lemma init_stack_result:
  fixes stack :: u64
  defines "sp \<equiv> stack + 16384 - 56"
  shows "fst (init_stack m stack trampoline entry arg) = sp"
    and "saved_at (snd (init_stack m stack trampoline entry arg)) sp (first_regs entry arg c) trampoline"
  by (simp_all add: init_stack_def store_below_def saved_at_def first_regs_def sp_def mem_simps)

lemma low_part_outside:
  fixes y d k :: u64
  assumes "d \<le> y" "d = k + 8" "k \<le> 2 ^ 32"
  shows "\<not> y - k < 8"
proof -
  have "unat d = unat k + 8" using assms(2,3) by (simp add: unat_add_64 word_le_nat_alt)
  moreover have "k \<le> y" using assms(1) calculation by (simp add: word_le_nat_alt)
  ultimately show ?thesis using assms(1) by (simp add: word_le_nat_alt word_less_nat_alt unat_sub_64)
qed

lemma init_stack_outside:
  assumes "56 \<le> x - (stack + 16384 - 56)"
  shows "snd (init_stack m stack trampoline entry arg) x = m x"
proof -
  have "\<not> x - (stack + 16384 - (56 - k)) < 8" if "k \<in> {0, 8, 16, 24, 32, 40, 48}" for k
  proof -
    have e: "x - (stack + 16384 - (56 - k)) = (x - (stack + 16384 - 56)) - k" by (simp add: algebra_simps)
    have "k + 8 \<le> 56" "k \<le> 2 ^ 32" using that by auto
    then show ?thesis unfolding e using low_part_outside [of "k + 8" _ k] assms by (meson order_trans)
  qed
  from this [of 0] this [of 8] this [of 16] this [of 24] this [of 32] this [of 40] this [of 48]
  show ?thesis by (simp add: init_stack_def store_below_def store64_outside)
qed

section \<open>The invariant of the three components together\<close>

text \<open>
  Every thread of the ring but the bootstrap thread, which lies outside the heap, is a live
  heap block.
\<close>

definition kernel_inv :: "kernel \<Rightarrow> u64 list \<Rightarrow> bool" where
  "kernel_inv k xs \<longleftrightarrow> heap_ok (k_heap k) \<and> vmm_inv (k_vmm k) \<and> sched_inv (k_sched k) xs \<and>
     \<not> bootstrap_thread (k_sched k) - HEAP_VBASE < HEAP_SIZE \<and>
     (\<forall>u \<in> set xs. u = bootstrap_thread (k_sched k) \<or> (\<exists>w. 32 \<le> w \<and> (u, w) \<in> live (k_heap k)))"

lemma live_same_address:
  assumes "(p, w) \<in> live h" "(p, v) \<in> live h" "0 < w" "0 < v" shows "w = v"
proof (rule ccontr)
  assume "w \<noteq> v"
  obtain bs where inv: "heap_inv h bs" using assms(1) by (auto simp: live_def)
  have "p + 0 \<noteq> p + 0"
    using payloads_disjoint [of p w HEAP_VBASE bs p v 0 0] assms \<open>w \<noteq> v\<close> block_within(2) [OF inv]
    by (simp add: live_eq [OF inv])
  then show False by simp
qed

lemma live_in_heap:
  assumes "(p, w) \<in> live h" shows "p - HEAP_VBASE < HEAP_SIZE"
proof -
  obtain bs where inv: "heap_inv h bs" using assms by (auto simp: live_def)
  obtain xs ys where bs: "bs = xs @ (w, False) # ys" "p = end_of HEAP_VBASE xs + HEADER_SIZE"
    using in_use_split assms unfolding live_eq [OF inv] by metis
  have "span xs + 32 + unat w + span ys = 16 * 1024 * 1024" using inv by (simp add: heap_inv_def bs(1))
  moreover have "16 \<le> unat w" using inv by (simp add: heap_inv_def bs(1) block_ok_def)
  ultimately have n: "span xs + 32 < 16 * 1024 * 1024" by linarith
  have "p - HEAP_VBASE = of_nat (span xs + 32)" by (simp add: bs(2) end_of_offset)
  then show ?thesis using n by (simp only: word_less_nat_alt) (simp add: unat_of_nat_64 del: of_nat_add)
qed

text \<open>A suspended thread: where its next switch takes the processor.\<close>

definition parked :: "sched \<Rightarrow> u64 \<Rightarrow> cpu \<Rightarrow> u64 \<Rightarrow> bool" where
  "parked s t d pc \<longleftrightarrow> saved_at (cpu_mem (sched_cpu s)) (stack_pointer (threads s t)) d pc"

text \<open>The last part of \<^verbatim>\<open>thread_create\<close>: filling the structure and joining the ring.\<close>

lemma join_ring:
  fixes s :: sched and t stack sp :: u64 and m :: mem
  defines "s0 \<equiv> s\<lparr>sched_cpu := (sched_cpu s)\<lparr>cpu_mem := m\<rparr>,
    threads := (threads s)(t := (threads s t)\<lparr>stack_pointer := sp, stack_base := stack\<rparr>)\<rparr>"
  assumes "sched_inv s (x # ys)" "t \<notin> set (x # ys)" "next_thread_id s < 2 ^ 64 - 1"
  shows "\<exists>s1. sched_add_thread s0 t = Some s1 \<and> sched_inv s1 (x # t # ys) \<and>
    stack_pointer (threads s1 t) = sp \<and> stack_base (threads s1 t) = stack \<and>
    sched_cpu s1 = (sched_cpu s)\<lparr>cpu_mem := m\<rparr> \<and> bootstrap_thread s1 = bootstrap_thread s"
proof -
  have l: "succ_of s0 = succ_of s" "ids s0 = ids s" by (auto simp: succ_of_def ids_def s0_def fun_eq_iff)
  have f: "ready_lock s0 = ready_lock s" "current s0 = current s" "next_thread_id s0 = next_thread_id s"
    by (simp_all add: s0_def)
  have i: "sched_inv s0 (x # ys)" using assms(2) unfolding sched_inv_def l f .
  have "next_thread_id s0 < 2 ^ 64 - 1" using assms(4) by (simp add: s0_def)
  then obtain s1 where s1: "sched_add_thread s0 t = Some s1" "sched_inv s1 (x # t # ys)"
    using sched_add_thread_inv [OF i assms(3)] by blast
  moreover have "current s0 = x" "locked (ready_lock s0) = 0" using i by (simp_all add: sched_inv_def)
  ultimately show ?thesis
    using sched_add_thread_result [of s0 t] assms(3) by (auto simp: s0_def)
qed

lemma fresh_thread:
  assumes "kernel_inv k xs" "live h = insert (t, w) (live (k_heap k))" "(t, w) \<notin> live (k_heap k)" "32 \<le> w"
  shows "t \<notin> set xs" and "t \<noteq> bootstrap_thread (k_sched k)"
proof -
  show b: "t \<noteq> bootstrap_thread (k_sched k)"
    using live_in_heap [of t w h] assms(1,2) by (auto simp: kernel_inv_def)
  show "t \<notin> set xs"
  proof
    assume "t \<in> set xs"
    then obtain v where v: "32 \<le> v" "(t, v) \<in> live (k_heap k)"
      using assms(1) b by (auto simp: kernel_inv_def)
    then have "0 < v" "0 < w" using assms(4) by (auto simp: word_less_nat_alt word_le_nat_alt)
    then have "w = v" using live_same_address [of t w h v] v assms(2) by simp
    then show False using v(2) assms(3) by simp
  qed
qed

section \<open>Creating a thread\<close>

text \<open>What a creation that returned \<open>t\<close> did to the kernel.\<close>

definition created :: "kernel \<Rightarrow> u64 list \<Rightarrow> u64 \<Rightarrow> u64 \<Rightarrow> u64 \<Rightarrow> u64 \<Rightarrow> kernel \<Rightarrow> bool" where
  "created k xs trampoline entry arg t k' \<longleftrightarrow>
     (let stack = dynamic_next_vaddr (k_vmm k) + PAGE_SIZE
      in t \<notin> set xs \<and> kernel_inv k' (hd xs # t # tl xs) \<and>
         (\<exists>w. 32 \<le> w \<and> (t, w) \<notin> live (k_heap k) \<and> live (k_heap k') = insert (t, w) (live (k_heap k))) \<and>
         region_mapped (k_vmm k) stack VMM_WRITABLE 0 4 (k_vmm k') \<and>
         stack_base (threads (k_sched k') t) = stack \<and>
         stack_pointer (threads (k_sched k') t) = stack + 16384 - 56 \<and>
         sched_cpu (k_sched k') = (sched_cpu (k_sched k))\<lparr>cpu_mem := cpu_mem (sched_cpu (k_sched k'))\<rparr> \<and>
         parked (k_sched k') t (first_regs entry arg (sched_cpu (k_sched k))) trampoline \<and>
         (\<forall>x. 56 \<le> x - (stack + 16384 - 56) \<longrightarrow>
            cpu_mem (sched_cpu (k_sched k')) x = cpu_mem (sched_cpu (k_sched k)) x))"

text \<open>What a creation that returned NULL leaves: only the address range of a failed stack is used up.\<close>

definition not_created :: "kernel \<Rightarrow> u64 list \<Rightarrow> kernel \<Rightarrow> bool" where
  "not_created k xs k' \<longleftrightarrow> kernel_inv k' xs \<and> k_sched k' = k_sched k \<and>
     live (k_heap k') = live (k_heap k) \<and> bytes_kept (k_heap k) (k_heap k') (live (k_heap k)) \<and>
     ((\<forall>bs. heap_inv (k_heap k) bs \<longrightarrow> (\<forall>b \<in> set bs. snd b \<longrightarrow> fst b < 32)) \<or>
      card (pmm_avail (vmm_pmm (k_vmm k))) \<le> 16)"

lemma unat_four: "unat (4 :: u64) = 4"
  by simp

lemma created_regs:
  assumes "created k xs trampoline entry arg t k'"
  shows "rsp (sched_cpu (k_sched k')) = rsp (sched_cpu (k_sched k))"
    and "rflags (sched_cpu (k_sched k')) = rflags (sched_cpu (k_sched k))"
proof -
  have "sched_cpu (k_sched k') = (sched_cpu (k_sched k))\<lparr>cpu_mem := cpu_mem (sched_cpu (k_sched k'))\<rparr>"
    using assms unfolding created_def Let_def by blast
  from arg_cong [OF this, of rsp] arg_cong [OF this, of rflags]
  show "rsp (sched_cpu (k_sched k')) = rsp (sched_cpu (k_sched k))"
    "rflags (sched_cpu (k_sched k')) = rflags (sched_cpu (k_sched k))" by simp_all
qed

lemma create_with_stack:
  assumes inv: "kernel_inv k (x # ys)" and id: "next_thread_id (k_sched k) < 2 ^ 64 - 1"
    and km: "kmalloc (k_heap k) 32 = Some (t, h)" "t \<noteq> 0" "heap_ok h"
      "32 \<le> w" "(t, w) \<notin> live (k_heap k)" "live h = insert (t, w) (live (k_heap k))"
    and va: "vmm_alloc_guarded (k_vmm k) 4 1 = Inr (Some stack, v)" "vmm_inv v" "stack \<noteq> 0"
      "stack = dynamic_next_vaddr (k_vmm k) + PAGE_SIZE" "region_mapped (k_vmm k) stack 1 0 4 v"
  shows "\<exists>k'. thread_create trampoline k entry arg = Some (Inr (t, k')) \<and>
    created k (x # ys) trampoline entry arg t k'"
proof -
  let ?c = "sched_cpu (k_sched k)" and ?sp = "stack + 16384 - 56"
  define m where "m = snd (init_stack (cpu_mem ?c) stack trampoline entry arg)"
  have st: "init_stack (cpu_mem ?c) stack trampoline entry arg = (?sp, m)"
    unfolding m_def using init_stack_result(1) [of "cpu_mem ?c" stack trampoline entry arg]
    by (simp add: prod_eq_iff)
  have s: "sched_inv (k_sched k) (x # ys)" using inv by (simp add: kernel_inv_def)
  note fresh = fresh_thread [OF inv km(6,5,4)]
  obtain s1 where s1: "sched_add_thread ((k_sched k)\<lparr>sched_cpu := ?c\<lparr>cpu_mem := m\<rparr>,
      threads := (threads (k_sched k))(t := (threads (k_sched k) t)
        \<lparr>stack_pointer := ?sp, stack_base := stack\<rparr>)\<rparr>) t = Some s1"
    and r: "sched_inv s1 (x # t # ys)" "stack_pointer (threads s1 t) = ?sp"
      "stack_base (threads s1 t) = stack" "sched_cpu s1 = ?c\<lparr>cpu_mem := m\<rparr>"
      "bootstrap_thread s1 = bootstrap_thread (k_sched k)"
    using join_ring [OF s fresh(1) id, where m = m and sp = "?sp" and stack = stack] by blast
  let ?k = "k\<lparr>k_heap := h, k_vmm := v, k_sched := s1\<rparr>"
  have "thread_create trampoline k entry arg = Some (Inr (t, ?k))"
    using km(1,2) va(1,3) st s1 by (simp add: thread_create_def)
  moreover have "kernel_inv ?k (x # t # ys)"
    using inv km va(2) r by (auto simp: kernel_inv_def)
  moreover have "parked s1 t (first_regs entry arg ?c) trampoline"
    using init_stack_result(2) [of "cpu_mem ?c" stack trampoline entry arg ?c] r
    by (simp add: parked_def m_def)
  moreover have "cpu_mem (sched_cpu s1) y = cpu_mem ?c y" if "56 \<le> y - ?sp" for y
    using init_stack_outside [OF that] r by (simp add: m_def)
  ultimately show ?thesis
    using fresh(1) km va(4,5) r unfolding created_def Let_def by (intro exI [of _ ?k]) auto
qed

lemma thread_create_cases:
  assumes inv: "kernel_inv k (x # ys)" and id: "next_thread_id (k_sched k) < 2 ^ 64 - 1"
    and map: "mappable (k_vmm k) 4" "dynamic_next_vaddr (k_vmm k) + PAGE_SIZE \<noteq> 0"
  shows "\<exists>t k'. thread_create trampoline k entry arg = Some (Inr (t, k')) \<and>
    (if t = 0 then not_created k (x # ys) k' else created k (x # ys) trampoline entry arg t k')"
proof -
  have ok: "heap_ok (k_heap k)" "vmm_inv (k_vmm k)" using inv by (simp_all add: kernel_inv_def)
  obtain t h where km: "kmalloc (k_heap k) 32 = Some (t, h)" "heap_ok h"
    and t: "t = 0 \<and> h = k_heap k \<and> (\<forall>bs. heap_inv (k_heap k) bs \<longrightarrow>
        (\<forall>b \<in> set bs. snd b \<longrightarrow> fst b < align_up 32 16)) \<or>
      t \<noteq> 0 \<and> (\<exists>w. 32 \<le> w \<and> (t, w) \<notin> live (k_heap k) \<and> live h = insert (t, w) (live (k_heap k)))"
    using kmalloc_contract [OF ok(1), of 32] by auto
  show ?thesis
  proof (cases "t = 0")
    case True
    have "thread_create trampoline k entry arg = Some (Inr (0, k))"
      using km(1) True t by (simp add: thread_create_def)
    moreover have "not_created k (x # ys) k"
      using True t inv by (simp add: not_created_def bytes_kept_def align_up_def)
    ultimately show ?thesis by auto
  next
    case False
    then obtain w where w: "32 \<le> w" "(t, w) \<notin> live (k_heap k)" "live h = insert (t, w) (live (k_heap k))"
      using t by blast
    have le: "unat (4 :: u64) + 2 \<le> 2 ^ 36" by simp
    obtain r v where va: "vmm_alloc_guarded (k_vmm k) 4 1 = Inr (r, v)" "vmm_inv v"
      and r: "case r of None \<Rightarrow> card (pmm_avail (vmm_pmm (k_vmm k))) \<le> 4 * 4
        | Some start \<Rightarrow> start = dynamic_next_vaddr (k_vmm k) + PAGE_SIZE \<and>
            region_mapped (k_vmm k) start 1 0 4 v"
      using vmm_alloc_guarded_result [OF ok(2) le, unfolded unat_four, OF map(1), of 1] by blast
    show ?thesis
    proof (cases r)
      case None
      let ?k = "k\<lparr>k_heap := kfree h t, k_vmm := v\<rparr>"
      have "thread_create trampoline k entry arg = Some (Inr (0, ?k))"
        using km(1) False va(1) None by (simp add: thread_create_def)
      moreover have "not_created k (x # ys) ?k"
        using hp.alloc_release [OF ok(1) _ _ km(1) False] inv va(2) r None
        by (simp add: not_created_def kernel_inv_def)
      ultimately show ?thesis by auto
    next
      case (Some stack)
      have "stack = dynamic_next_vaddr (k_vmm k) + PAGE_SIZE \<and> region_mapped (k_vmm k) stack 1 0 4 v"
        using r unfolding Some option.case .
      then have st: "stack = dynamic_next_vaddr (k_vmm k) + PAGE_SIZE" "region_mapped (k_vmm k) stack 1 0 4 v"
        by blast+
      then have "stack \<noteq> 0" using map(2) by simp
      from create_with_stack [OF inv id km(1) False km(2) w va(1) [unfolded Some] va(2) this st]
      obtain k' where "thread_create trampoline k entry arg = Some (Inr (t, k'))"
        "created k (x # ys) trampoline entry arg t k'" by blast
      then show ?thesis using False by (intro exI [of _ t] exI [of _ k']) simp
    qed
  qed
qed

text \<open>What a creation takes from the address space, the memory, the heap and the identifiers.\<close>

lemma sched_add_thread_id:
  assumes "sched_add_thread s t = Some s'"
  shows "next_thread_id s' = next_thread_id s + 1" and "stack_pointer (threads s' u) = stack_pointer (threads s u)"
  using assms by (auto simp: sched_add_thread_def lock_ready_def unlock_result Let_def)

lemma thread_create_takes:
  assumes "thread_create trampoline k entry arg = Some (Inr (t, k'))" and "vmm_inv (k_vmm k)" "mappable (k_vmm k) 4"
  shows "k_vmm k' = k_vmm k \<or> keeps_paths (k_vmm k) (k_vmm k') \<and>
      dynamic_next_vaddr (k_vmm k') = dynamic_next_vaddr (k_vmm k) + 6 * PAGE_SIZE"
    and "next_thread_id (k_sched k') = next_thread_id (k_sched k) \<or>
      next_thread_id (k_sched k') = next_thread_id (k_sched k) + 1"
    and "card (pmm_avail (vmm_pmm (k_vmm k))) \<le> card (pmm_avail (vmm_pmm (k_vmm k'))) + 16"
    and "t \<noteq> 0 \<Longrightarrow> kmalloc (k_heap k) 32 = Some (t, k_heap k') \<and>
      dynamic_next_vaddr (k_vmm k') = dynamic_next_vaddr (k_vmm k) + 6 * PAGE_SIZE \<and>
      next_thread_id (k_sched k') = next_thread_id (k_sched k) + 1"
    and "u \<noteq> t \<Longrightarrow> stack_pointer (threads (k_sched k') u) = stack_pointer (threads (k_sched k) u)"
proof -
  have le: "unat (4 :: u64) + 2 \<le> 2 ^ 36" by simp
  obtain r v where v: "vmm_alloc_guarded (k_vmm k) 4 1 = Inr (r, v)" "keeps_paths (k_vmm k) v"
      "dynamic_next_vaddr v = dynamic_next_vaddr (k_vmm k) + 6 * PAGE_SIZE"
      "card (pmm_avail (vmm_pmm (k_vmm k))) \<le> card (pmm_avail (vmm_pmm v)) + 16"
    using vmm_alloc_guarded_result [OF assms(2) le, unfolded unat_four, OF assms(3), of 1] by auto
  show "k_vmm k' = k_vmm k \<or> keeps_paths (k_vmm k) (k_vmm k') \<and>
      dynamic_next_vaddr (k_vmm k') = dynamic_next_vaddr (k_vmm k) + 6 * PAGE_SIZE"
    "next_thread_id (k_sched k') = next_thread_id (k_sched k) \<or>
      next_thread_id (k_sched k') = next_thread_id (k_sched k) + 1"
    "card (pmm_avail (vmm_pmm (k_vmm k))) \<le> card (pmm_avail (vmm_pmm (k_vmm k'))) + 16"
    "t \<noteq> 0 \<Longrightarrow> kmalloc (k_heap k) 32 = Some (t, k_heap k') \<and>
      dynamic_next_vaddr (k_vmm k') = dynamic_next_vaddr (k_vmm k) + 6 * PAGE_SIZE \<and>
      next_thread_id (k_sched k') = next_thread_id (k_sched k) + 1"
    "u \<noteq> t \<Longrightarrow> stack_pointer (threads (k_sched k') u) = stack_pointer (threads (k_sched k) u)"
    using assms(1) v sched_add_thread_id
    by (auto simp: thread_create_def Let_def case_prod_beta split: option.splits if_splits)
qed

section \<open>Switching\<close>

text \<open>The \<open>n\<close> bytes at \<open>lo\<close> and the six words a switch pushes below \<open>r\<close> do not overlap.\<close>

definition block_clear :: "u64 \<Rightarrow> u64 \<Rightarrow> u64 \<Rightarrow> bool" where
  "block_clear lo n r \<longleftrightarrow> n \<le> (r - 48) - lo \<and> 48 \<le> lo - (r - 48)"

lemma block_clear_outside:
  assumes "block_clear lo n r" "y - lo < n" shows "48 \<le> y - (r - 48)"
proof -
  define d where "d = lo - (r - 48)"
  have neg: "- d = (r - 48) - lo" by (simp add: d_def)
  have d: "48 \<le> unat d" "unat n \<le> unat (- d)"
    using assms(1) unfolding neg by (simp_all add: block_clear_def d_def word_le_nat_alt)
  have "unat (- d) = 2 ^ 64 - unat d"
    using d(1) by (subst unat_minus_64) auto
  then have "unat (d + (y - lo)) = unat d + unat (y - lo)"
    using d(2) assms(2) by (simp add: unat_add_64 word_less_nat_alt)
  moreover have e: "y - (r - 48) = d + (y - lo)" by (simp add: d_def)
  ultimately show ?thesis unfolding e using d(1) by (simp add: word_le_nat_alt)
qed

text \<open>The seven words of a parked thread's frame.\<close>

definition frame_clear :: "u64 \<Rightarrow> u64 \<Rightarrow> bool" where
  "frame_clear sp r \<longleftrightarrow> 56 \<le> (r - 48) - sp \<and> 48 \<le> sp - (r - 48)"

lemma frame_clear_block: "frame_clear sp r \<longleftrightarrow> block_clear sp 56 r"
  by (simp add: frame_clear_def block_clear_def)

lemmas frame_clear_outside = block_clear_outside [where n = 56, folded frame_clear_block]

lemma pushes_keep_frame:
  "frame_clear sp (rsp c) \<Longrightarrow> same_frame (cpu_mem c) (cpu_mem (push_callee_saved c)) sp"
  by (simp add: same_frame_def push_callee_saved_outside frame_clear_outside)

lemma switch_result:
  assumes "sched_inv s (x # t # ys)" "parked s t d pc" "frame_clear (stack_pointer (threads s t)) (rsp (sched_cpu s))"
  shows "\<exists>s'. sched_yield s = Some s' \<and> sched_inv s' (t # ys @ [x]) \<and>
    sched_cpu s' = (sched_cpu s)\<lparr>rsp := stack_pointer (threads s t) + 56, rbp := rbp d, rbx := rbx d,
      r12 := r12 d, r13 := r13 d, r14 := r14 d, r15 := r15 d, rip := pc,
      cpu_mem := cpu_mem (push_callee_saved (sched_cpu s))\<rparr> \<and>
    parked s' x (sched_cpu s) (load64 (cpu_mem (sched_cpu s)) (rsp (sched_cpu s))) \<and>
    (\<forall>u. u \<noteq> x \<longrightarrow> stack_pointer (threads s' u) = stack_pointer (threads s u))"
proof -
  let ?c = "sched_cpu s" and ?s1 = "s\<lparr>current := t\<rparr>"
  obtain s' where s': "sched_yield s = Some s'" "sched_inv s' (t # ys @ [x])"
    using switch_to_next_inv [OF assms(1)] by (auto simp: sched_yield_def)
  have f: "current s = x" "succ_of s x = t" "t \<noteq> x" "locked (ready_lock s) = 0"
    using assms(1) by (auto simp: sched_inv_def ring_def)
  then have e: "s' = finish_switch x t ?s1"
    using s'(1) by (simp add: sched_yield_def switch_to_next_def select_next_result)
  have "saved_at (cpu_mem (push_callee_saved ?c)) (stack_pointer (threads s t)) d pc"
    using saved_at_same pushes_keep_frame assms(2,3) unfolding parked_def by blast
  note cs = context_switch_result [OF this]
  have w: "s' = ?s1\<lparr>ticks_since_switch := 0,
      threads := (threads s)(x := (threads s x)\<lparr>stack_pointer := rsp ?c - 48\<rparr>),
      sched_cpu := snd (context_switch (stack_pointer (threads s t)) ?c)\<rparr>"
    unfolding e using f(3) cs by (simp add: finish_switch_def)
  show ?thesis
    using s' push_callee_saved_frame [of ?c] unfolding w
    by (intro exI [of _ s']) (simp add: w cs parked_def push_callee_saved_rsp)
qed

section \<open>Properties\<close>


definition demo_kernel :: kernel where
  "demo_kernel = \<lparr>k_heap = fresh_heap (\<lambda>_. 0), k_vmm = demo_vmm, k_sched = boot_sched\<rparr>"

lemma demo_kernel_ok:
  "kernel_inv demo_kernel [0x1000]" "next_thread_id (k_sched demo_kernel) < 2 ^ 64 - 1"
  "mappable (k_vmm demo_kernel) 4" "dynamic_next_vaddr (k_vmm demo_kernel) + PAGE_SIZE \<noteq> 0"
proof -
  show "kernel_inv demo_kernel [0x1000]"
    using boot_sched_inv fresh_heap_ok demo_vmm_inv
    by (simp add: kernel_inv_def demo_kernel_def boot_sched_def sched_init_def)
qed (simp_all add: demo_kernel_def boot_sched_fields demo_mappable VMM_DYNAMIC_VBASE_def)

lemma demo_not_null: "\<not> not_created demo_kernel xs k'"
proof -
  have "(HEAP_SIZE - HEADER_SIZE, True) \<in> set [(HEAP_SIZE - HEADER_SIZE, True)]" by simp
  then have "\<not> (\<forall>bs. heap_inv (fresh_heap (\<lambda>_. 0)) bs \<longrightarrow> (\<forall>b \<in> set bs. snd b \<longrightarrow> fst b < 32))"
    using fresh_heap_inv [of "\<lambda>_. 0"] by fastforce
  then show ?thesis using demo_card by (simp add: not_created_def demo_kernel_def)
qed

lemma demo_created:
  obtains t k' where "thread_create 0xffffffff80002000 demo_kernel 0xffffffff80003000 7 = Some (Inr (t, k'))"
    "t \<noteq> 0" "created demo_kernel [0x1000] 0xffffffff80002000 0xffffffff80003000 7 t k'"
  using thread_create_cases [OF demo_kernel_ok, of "0xffffffff80002000" "0xffffffff80003000" 7]
    demo_not_null by metis


text \<open>
  C10: switching. A switch to a parked thread resumes it: the callee-saved registers, the stack
  pointer above its frame and the program counter are the saved ones. The thread that called the
  switch is then parked with its own registers at its own return address, so the next switch to it
  resumes it as if the call had just returned. Only the 48 bytes below its stack pointer change,
  and every other parked thread whose frame those bytes do not touch stays parked.
\<close>

theorem switch_parks_and_resumes:
  assumes "sched_inv s (x # t # ys)" and "parked s t d pc"
    and "frame_clear (stack_pointer (threads s t)) (rsp (sched_cpu s))"
  shows "\<exists>s'. sched_yield s = Some s' \<and> sched_inv s' (t # ys @ [x]) \<and>
    sched_cpu s' = (sched_cpu s)\<lparr>rsp := stack_pointer (threads s t) + 56, rbp := rbp d, rbx := rbx d,
      r12 := r12 d, r13 := r13 d, r14 := r14 d, r15 := r15 d, rip := pc,
      cpu_mem := cpu_mem (sched_cpu s')\<rparr> \<and>
    parked s' x (sched_cpu s) (load64 (cpu_mem (sched_cpu s)) (rsp (sched_cpu s))) \<and>
    (\<forall>y. 48 \<le> y - (rsp (sched_cpu s) - 48) \<longrightarrow> cpu_mem (sched_cpu s') y = cpu_mem (sched_cpu s) y) \<and>
    (\<forall>u e q. u \<noteq> x \<longrightarrow> parked s u e q \<longrightarrow> frame_clear (stack_pointer (threads s u)) (rsp (sched_cpu s)) \<longrightarrow>
       parked s' u e q)"
proof -
  obtain s' where s': "sched_yield s = Some s'" "sched_inv s' (t # ys @ [x])"
    and c: "sched_cpu s' = (sched_cpu s)\<lparr>rsp := stack_pointer (threads s t) + 56, rbp := rbp d, rbx := rbx d,
      r12 := r12 d, r13 := r13 d, r14 := r14 d, r15 := r15 d, rip := pc,
      cpu_mem := cpu_mem (push_callee_saved (sched_cpu s))\<rparr>"
    and p: "parked s' x (sched_cpu s) (load64 (cpu_mem (sched_cpu s)) (rsp (sched_cpu s)))"
    and o: "\<forall>u. u \<noteq> x \<longrightarrow> stack_pointer (threads s' u) = stack_pointer (threads s u)"
    using switch_result [OF assms] by blast
  have m: "cpu_mem (sched_cpu s') = cpu_mem (push_callee_saved (sched_cpu s))" unfolding c by simp
  have "parked s' u e q"
    if "u \<noteq> x" "parked s u e q" "frame_clear (stack_pointer (threads s u)) (rsp (sched_cpu s))" for u e q
    using that o saved_at_same [OF _ pushes_keep_frame [OF that(3)]] by (simp add: parked_def m)
  moreover have "sched_cpu s' = (sched_cpu s)\<lparr>rsp := stack_pointer (threads s t) + 56, rbp := rbp d,
      rbx := rbx d, r12 := r12 d, r13 := r13 d, r14 := r14 d, r15 := r15 d, rip := pc,
      cpu_mem := cpu_mem (sched_cpu s')\<rparr>"
    unfolding m by (rule c)
  moreover have "\<forall>y. 48 \<le> y - (rsp (sched_cpu s) - 48) \<longrightarrow> cpu_mem (sched_cpu s') y = cpu_mem (sched_cpu s) y"
    unfolding m using push_callee_saved_outside [where c = "sched_cpu s"] by blast
  ultimately show ?thesis using s' p by blast
qed

theorem switch_parks_and_resumes_witness:
  "\<exists>s t s'. sched_inv s [0x1000, t] \<and> sched_yield s = Some s' \<and> rip (sched_cpu s') = 0xffffffff80002000 \<and>
     r12 (sched_cpu s') = 0xffffffff80003000 \<and> rsp (sched_cpu s') = 0xffffffffb0005000 \<and>
     parked s' 0x1000 (sched_cpu s) (load64 (cpu_mem (sched_cpu s)) (rsp (sched_cpu s)))"
proof -
  obtain t k' where c: "created demo_kernel [0x1000] 0xffffffff80002000 0xffffffff80003000 7 t k'"
    using demo_created by metis
  let ?s = "k_sched k'" and ?d = "first_regs 0xffffffff80003000 7 (sched_cpu boot_sched)"
  have s: "sched_inv ?s [0x1000, t]" "parked ?s t ?d 0xffffffff80002000"
    "stack_pointer (threads ?s t) = 0xffffffffb0004fc8"
    using c by (simp_all add: created_def kernel_inv_def demo_kernel_def VMM_DYNAMIC_VBASE_def)
  have "rsp (sched_cpu ?s) = rsp (sched_cpu boot_sched)"
    using created_regs(1) [OF c] by (simp add: demo_kernel_def)
  then have "rsp (sched_cpu ?s) = 0xffffffff80010000" by (simp add: boot_sched_def sched_init_def idle_cpu_def)
  then have "frame_clear (stack_pointer (threads ?s t)) (rsp (sched_cpu ?s))" by (simp add: s(3) frame_clear_def)
  from switch_parks_and_resumes [OF s(1,2) this]
  obtain s' where r: "sched_yield ?s = Some s'"
    "sched_cpu s' = (sched_cpu ?s)\<lparr>rsp := stack_pointer (threads ?s t) + 56, rbp := rbp ?d, rbx := rbx ?d,
      r12 := r12 ?d, r13 := r13 ?d, r14 := r14 ?d, r15 := r15 ?d, rip := 0xffffffff80002000,
      cpu_mem := cpu_mem (sched_cpu s')\<rparr>"
    "parked s' 0x1000 (sched_cpu ?s) (load64 (cpu_mem (sched_cpu ?s)) (rsp (sched_cpu ?s)))" by blast
  have "rip (sched_cpu s') = 0xffffffff80002000 \<and> r12 (sched_cpu s') = 0xffffffff80003000 \<and>
      rsp (sched_cpu s') = 0xffffffffb0005000"
    by (subst r(2), subst r(2), subst r(2)) (simp add: s(3) first_regs_def)
  then show ?thesis using s(1) r(1,3) by blast
qed

lemma page_sum_low: "(v :: u64) AND 15 = 0 \<Longrightarrow> w AND 15 = 0 \<Longrightarrow> (v + w) AND 15 = 0"
proof -
  have e: "x AND 15 = take_bit 4 x" for x :: u64 by (simp add: take_bit_eq_mask mask_eq_exp_minus_1)
  assume "v AND 15 = 0" "w AND 15 = 0"
  then show ?thesis unfolding e using take_bit_add_word [of 4 v w] by simp
qed

text \<open>
  C29: a thread's first run, from creation to entry. After a successful \<^verbatim>\<open>thread_create\<close> the
  next switch makes the new thread current and starts the trampoline on the new stack; the
  trampoline reaches the entry function with the argument in rdi, interrupts enabled, the
  trampoline's return address on top of the stack and the stack aligned as the calling
  convention wants it at a function's first instruction.
\<close>

theorem thread_first_run:
  assumes "kernel_inv k (x # ys)" and "next_thread_id (k_sched k) < 2 ^ 64 - 1"
    and "mappable (k_vmm k) 4" and "dynamic_next_vaddr (k_vmm k) + PAGE_SIZE \<noteq> 0"
    and "dynamic_next_vaddr (k_vmm k) AND 15 = 0"
    and "thread_create trampoline k entry arg = Some (Inr (t, k'))" and "t \<noteq> 0"
    and "frame_clear (dynamic_next_vaddr (k_vmm k) + PAGE_SIZE + 16384 - 56) (rsp (sched_cpu (k_sched k)))"
  shows "\<exists>s c. sched_yield (k_sched k') = Some s \<and> current s = t \<and> rip (sched_cpu s) = trampoline \<and>
    thread_trampoline after (sched_cpu s) = c \<and> rip c = entry \<and> rdi c = arg \<and> rflags c AND 0x200 \<noteq> 0 \<and>
    rsp c = dynamic_next_vaddr (k_vmm k) + PAGE_SIZE + 16384 - 8 \<and> load64 (cpu_mem c) (rsp c) = after \<and>
    (rsp c + 8) AND 15 = 0"
proof -
  let ?top = "dynamic_next_vaddr (k_vmm k) + PAGE_SIZE + 16384" and ?d = "first_regs entry arg (sched_cpu (k_sched k))"
  have c: "created k (x # ys) trampoline entry arg t k'"
    using thread_create_cases [OF assms(1-4), of trampoline entry arg] assms(6,7) by auto
  then have i: "sched_inv (k_sched k') (x # t # ys)" "parked (k_sched k') t ?d trampoline"
    and sp: "stack_pointer (threads (k_sched k') t) = ?top - 56"
    unfolding created_def Let_def by (simp_all add: kernel_inv_def)
  have "frame_clear (stack_pointer (threads (k_sched k') t)) (rsp (sched_cpu (k_sched k')))"
    using assms(8) unfolding sp created_regs(1) [OF c] .
  from switch_result [OF i this] obtain s m
    where s: "sched_yield (k_sched k') = Some s" "sched_inv s (t # ys @ [x])"
      and cpu: "sched_cpu s = (sched_cpu (k_sched k'))\<lparr>rsp := ?top - 56 + 56, rbp := rbp ?d, rbx := rbx ?d,
        r12 := r12 ?d, r13 := r13 ?d, r14 := r14 ?d, r15 := r15 ?d, rip := trampoline, cpu_mem := m\<rparr>"
    unfolding sp by blast
  have al: "?top AND 15 = 0"
    using assms(5) page_sum_low [of "dynamic_next_vaddr (k_vmm k)" "0x5000"] by (simp add: add.assoc)
  have "(rflags (sched_cpu (k_sched k')) OR 0x200) AND 0x200 \<noteq> 0"
    by (simp add: bit_eq_iff exI [of _ 9] bit_simps)
  then show ?thesis
    using s(1,2) al
    by (intro exI [of _ s] exI [of _ "thread_trampoline after (sched_cpu s)"])
      (simp add: cpu thread_trampoline_def push_def first_regs_def sched_inv_def)
qed

theorem thread_first_run_witness:
  "\<exists>t k' s c. thread_create 0xffffffff80002000 demo_kernel 0xffffffff80003000 7 = Some (Inr (t, k')) \<and>
     sched_yield (k_sched k') = Some s \<and> current s = t \<and>
     thread_trampoline 0xffffffff80002008 (sched_cpu s) = c \<and> rip c = 0xffffffff80003000 \<and> rdi c = 7"
proof -
  obtain t k' where r: "thread_create 0xffffffff80002000 demo_kernel 0xffffffff80003000 7 = Some (Inr (t, k'))"
    "t \<noteq> 0" using demo_created by metis
  have "dynamic_next_vaddr (k_vmm demo_kernel) AND 15 = 0"
    "frame_clear (dynamic_next_vaddr (k_vmm demo_kernel) + PAGE_SIZE + 16384 - 56) (rsp (sched_cpu (k_sched demo_kernel)))"
    by (simp_all add: demo_kernel_def VMM_DYNAMIC_VBASE_def frame_clear_def boot_sched_def sched_init_def idle_cpu_def)
  from thread_first_run [OF demo_kernel_ok this(1) r this(2), of "0xffffffff80002008"] r(1)
  show ?thesis by blast
qed

lemma context_switch_fst: "fst (context_switch sp c) = rsp c - 48"
  by (simp add: context_switch_def push_callee_saved_rsp Let_def)

text \<open>
  C31: an unprotected window. \<^verbatim>\<open>switch_to_next\<close> names the next thread and then restores the
  interrupt flag before it has switched stacks. When the tick that ends the slice arrives in
  that window, the tick's own switch, whatever the registers are then, stores the stack pointer
  of the thread that is still running into the thread that was only named: that thread's saved
  stack pointer is lost, and the running thread's own is not saved.
\<close>

theorem yield_window_loses_stack:
  assumes "sched_inv s (a # b # ys)" and "ticks_since_switch s = 9" and "select_next s = Some (a, b, s1)"
  shows "rflags (sched_cpu s1) = rflags (sched_cpu s) \<and>
    (\<exists>s2. sched_tick (s1\<lparr>sched_cpu := c\<rparr>) = Some s2 \<and> stack_pointer (threads s2 b) = rsp c - 48 \<and>
       stack_pointer (threads s2 a) = stack_pointer (threads s a))"
proof -
  have f: "current s = a" "succ_of s a = b" "b \<noteq> a" "locked (ready_lock s) = 0" "succ_of s b \<noteq> b"
    using assms(1) by (cases ys; force simp: sched_inv_def ring_def)+
  then have s1: "s1 = s\<lparr>current := b\<rparr>" using assms(3) by (simp add: select_next_result)
  let ?t = "s\<lparr>current := b, sched_cpu := c, ticks_since_switch := 10\<rparr>"
  have u: "succ_of ?t b = succ_of s b" by (simp add: succ_of_def)
  have "sched_tick (s1\<lparr>sched_cpu := c\<rparr>) = switch_to_next ?t"
    using assms(2) by (simp add: sched_tick_def s1)
  also have "\<dots> = Some (finish_switch b (succ_of s b) (?t\<lparr>current := succ_of s b\<rparr>))"
    using f(4) by (simp add: switch_to_next_def select_next_result u)
  finally show ?thesis
    using f(3,5) context_switch_fst by (simp add: s1 finish_switch_def case_prod_beta)
qed

theorem yield_window_loses_stack_witness:
  "\<exists>s t s1 s2. parked s t (first_regs 0xffffffff80003000 7 idle_cpu) 0xffffffff80002000 \<and>
     select_next s = Some (0x1000, t, s1) \<and> sched_tick (s1\<lparr>sched_cpu := idle_cpu\<rparr>) = Some s2 \<and>
     stack_pointer (threads s t) = 0xffffffffb0004fc8 \<and> stack_pointer (threads s2 t) = 0xffffffff8000ffd0"
proof -
  obtain t k' where c: "created demo_kernel [0x1000] 0xffffffff80002000 0xffffffff80003000 7 t k'"
    using demo_created by metis
  let ?s = "(k_sched k')\<lparr>ticks_since_switch := 9\<rparr>"
  have s: "sched_inv (k_sched k') [0x1000, t]" "stack_pointer (threads ?s t) = 0xffffffffb0004fc8"
    "parked (k_sched k') t (first_regs 0xffffffff80003000 7 idle_cpu) 0xffffffff80002000"
    using c by (simp_all add: created_def kernel_inv_def demo_kernel_def VMM_DYNAMIC_VBASE_def
        boot_sched_def sched_init_def)
  have p: "parked ?s t (first_regs 0xffffffff80003000 7 idle_cpu) 0xffffffff80002000"
    using s(3) by (simp add: parked_def)
  have i: "sched_inv ?s [0x1000, t]" using s(1) by simp
  then have n: "select_next ?s = Some (0x1000, t, ?s\<lparr>current := t\<rparr>)"
    by (subst select_next_result) (auto simp: sched_inv_def ring_def)
  obtain s2 where "sched_tick (?s\<lparr>current := t, sched_cpu := idle_cpu\<rparr>) = Some s2"
    "stack_pointer (threads s2 t) = rsp idle_cpu - 48"
    using yield_window_loses_stack [OF i _ n, of idle_cpu] by auto
  moreover have "rsp idle_cpu - 48 = 0xffffffff8000ffd0" by (simp add: idle_cpu_def)
  ultimately show ?thesis
    using n s(2) p by (intro exI [of _ ?s] exI [of _ t] exI [of _ "?s\<lparr>current := t\<rparr>"] exI [of _ s2]) simp
qed

end
