(* ===== verification/Arch_Gdt.thy ===== *)
theory Arch_Gdt
  imports Quin_Prelude
begin

text \<open>
  \<^verbatim>\<open>kernel/arch/x86_64/cpu/gdt.c\<close> and \<^verbatim>\<open>gdt_flush.S\<close>: the descriptor table, the
  task state segment and the segment registers loaded from them. The addresses the linker gives
  the two static objects are arguments. The second section says how the processor reads a
  selector and a descriptor.
\<close>

section \<open>State and operations\<close>

abbreviation (input) GDT_KERNEL_CODE :: u16 where "GDT_KERNEL_CODE \<equiv> 0x08"
abbreviation (input) GDT_KERNEL_DATA :: u16 where "GDT_KERNEL_DATA \<equiv> 0x10"
abbreviation (input) GDT_USER_DATA :: u16 where "GDT_USER_DATA \<equiv> 0x18"
abbreviation (input) GDT_USER_CODE :: u16 where "GDT_USER_CODE \<equiv> 0x20"
abbreviation (input) GDT_TSS :: u16 where "GDT_TSS \<equiv> 0x28"

record gdt_entry =
  ge_limit_low :: u16
  ge_base_low :: u16
  ge_base_mid :: u8
  ge_access :: u8
  ge_granularity :: u8
  ge_base_high :: u8

record tss_descriptor =
  td_limit_low :: u16
  td_base_low :: u16
  td_base_mid :: u8
  td_access :: u8
  td_granularity :: u8
  td_base_high :: u8
  td_base_upper :: u32
  td_reserved :: u32

record tss =
  tss_reserved0 :: u32
  tss_rsp0 :: u64
  tss_rsp1 :: u64
  tss_rsp2 :: u64
  tss_reserved1 :: u64
  tss_ist :: "u64 list"
  tss_reserved2 :: u64
  tss_reserved3 :: u16
  iopb_offset :: u16

record gdt_table =
  gdt_null :: gdt_entry
  kernel_code :: gdt_entry
  kernel_data :: gdt_entry
  user_data :: gdt_entry
  user_code :: gdt_entry
  gdt_tss :: tss_descriptor

record gdtr =
  gdtr_limit :: u16
  gdtr_base :: u64

record segments =
  reg_gdtr :: gdtr
  reg_cs :: u16
  reg_ds :: u16
  reg_es :: u16
  reg_fs :: u16
  reg_gs :: u16
  reg_ss :: u16
  reg_tr :: u16

record descriptors =
  gdt :: gdt_table
  the_tss :: tss
  segs :: segments

definition zero_entry :: gdt_entry where
  "zero_entry = \<lparr>ge_limit_low = 0, ge_base_low = 0, ge_base_mid = 0, ge_access = 0,
     ge_granularity = 0, ge_base_high = 0\<rparr>"

definition zero_gdt :: gdt_table where
  "zero_gdt = \<lparr>gdt_null = zero_entry, kernel_code = zero_entry, kernel_data = zero_entry,
     user_data = zero_entry, user_code = zero_entry,
     gdt_tss = \<lparr>td_limit_low = 0, td_base_low = 0, td_base_mid = 0, td_access = 0,
       td_granularity = 0, td_base_high = 0, td_base_upper = 0, td_reserved = 0\<rparr>\<rparr>"

definition zero_tss :: tss where
  "zero_tss = \<lparr>tss_reserved0 = 0, tss_rsp0 = 0, tss_rsp1 = 0, tss_rsp2 = 0, tss_reserved1 = 0,
     tss_ist = replicate 7 0, tss_reserved2 = 0, tss_reserved3 = 0, iopb_offset = 0\<rparr>"

text \<open>The sizes of the two packed structures.\<close>

abbreviation (input) SIZEOF_GDT :: u16 where "SIZEOF_GDT \<equiv> 56"
abbreviation (input) SIZEOF_TSS :: u32 where "SIZEOF_TSS \<equiv> 104"

definition set_entry :: "gdt_entry \<Rightarrow> u8 \<Rightarrow> u8 \<Rightarrow> gdt_entry" where
  "set_entry entry access flags = entry
     \<lparr>ge_limit_low := 0xffff, ge_base_low := 0, ge_base_mid := 0, ge_access := access,
      ge_granularity := ucast (push_bit 4 (ucast flags :: u32) OR 0x0f), ge_base_high := 0\<rparr>"

definition set_tss_descriptor :: "tss_descriptor \<Rightarrow> u64 \<Rightarrow> u32 \<Rightarrow> tss_descriptor" where
  "set_tss_descriptor desc base limit = desc
     \<lparr>td_limit_low := ucast (limit AND 0xffff),
      td_base_low := ucast (base AND 0xffff),
      td_base_mid := ucast (drop_bit 16 base AND 0xff),
      td_access := 0x89,
      td_granularity := ucast (drop_bit 16 limit AND 0x0f),
      td_base_high := ucast (drop_bit 24 base AND 0xff),
      td_base_upper := ucast (drop_bit 32 base),
      td_reserved := 0\<rparr>"

text \<open>\<^verbatim>\<open>lgdt\<close>, the five data segment loads and the far return that reloads CS.\<close>

definition gdt_flush :: "gdtr \<Rightarrow> u16 \<Rightarrow> u16 \<Rightarrow> segments \<Rightarrow> segments" where
  "gdt_flush gdtr code_selector data_selector r = r
     \<lparr>reg_gdtr := gdtr, reg_ds := data_selector, reg_es := data_selector, reg_fs := data_selector,
      reg_gs := data_selector, reg_ss := data_selector, reg_cs := code_selector\<rparr>"

definition gdt_init :: "u64 \<Rightarrow> u64 \<Rightarrow> descriptors \<Rightarrow> descriptors" where
  "gdt_init gdt_addr tss_addr s =
     (let g = zero_gdt;
          t = zero_tss;
          g = g\<lparr>kernel_code := set_entry (kernel_code g) 0x9a 0xa\<rparr>;
          g = g\<lparr>kernel_data := set_entry (kernel_data g) 0x92 0xc\<rparr>;
          g = g\<lparr>user_data := set_entry (user_data g) 0xf2 0xc\<rparr>;
          g = g\<lparr>user_code := set_entry (user_code g) 0xfa 0xa\<rparr>;
          t = t\<lparr>iopb_offset := ucast SIZEOF_TSS\<rparr>;
          g = g\<lparr>gdt_tss := set_tss_descriptor (gdt_tss g) tss_addr (SIZEOF_TSS - 1)\<rparr>;
          gdtr = \<lparr>gdtr_limit = SIZEOF_GDT - 1, gdtr_base = gdt_addr\<rparr>;
          r = gdt_flush gdtr GDT_KERNEL_CODE GDT_KERNEL_DATA (segs s)
      in \<lparr>gdt = g, the_tss = t, segs = r\<lparr>reg_tr := GDT_TSS\<rparr>\<rparr>)"

definition gdt_set_kernel_stack :: "descriptors \<Rightarrow> u64 \<Rightarrow> descriptors" where
  "gdt_set_kernel_stack s rsp0 = s\<lparr>the_tss := (the_tss s)\<lparr>tss_rsp0 := rsp0\<rparr>\<rparr>"

section \<open>What the processor reads\<close>

text \<open>
  A selector is an index times eight plus the requested privilege level; the descriptor is the
  entry at that byte offset of the table.
\<close>

definition selected :: "gdt_table \<Rightarrow> u16 \<Rightarrow> gdt_entry option" where
  "selected g sel =
     (let offset = sel AND NOT 7
      in if offset = 8 then Some (kernel_code g) else if offset = 16 then Some (kernel_data g)
         else if offset = 24 then Some (user_data g) else if offset = 32 then Some (user_code g)
         else None)"

definition entry_present :: "gdt_entry \<Rightarrow> bool" where "entry_present e \<longleftrightarrow> bit (ge_access e) 7"
definition entry_dpl :: "gdt_entry \<Rightarrow> u8" where "entry_dpl e = drop_bit 5 (ge_access e) AND 3"
definition entry_code :: "gdt_entry \<Rightarrow> bool" where "entry_code e \<longleftrightarrow> bit (ge_access e) 4 \<and> bit (ge_access e) 3"
definition entry_writable_data :: "gdt_entry \<Rightarrow> bool" where
  "entry_writable_data e \<longleftrightarrow> bit (ge_access e) 4 \<and> \<not> bit (ge_access e) 3 \<and> bit (ge_access e) 1"
definition entry_long_mode :: "gdt_entry \<Rightarrow> bool" where
  "entry_long_mode e \<longleftrightarrow> bit (ge_granularity e) 5 \<and> \<not> bit (ge_granularity e) 6"

definition code_segment :: "u8 \<Rightarrow> gdt_entry option \<Rightarrow> bool" where
  "code_segment dpl e \<longleftrightarrow>
     (case e of None \<Rightarrow> False
      | Some d \<Rightarrow> entry_present d \<and> entry_code d \<and> entry_long_mode d \<and> entry_dpl d = dpl)"

definition data_segment :: "u8 \<Rightarrow> gdt_entry option \<Rightarrow> bool" where
  "data_segment dpl e \<longleftrightarrow>
     (case e of None \<Rightarrow> False
      | Some d \<Rightarrow> entry_present d \<and> entry_writable_data d \<and> entry_dpl d = dpl)"

definition tss_base :: "tss_descriptor \<Rightarrow> u64" where
  "tss_base d = ucast (td_base_low d) OR push_bit 16 (ucast (td_base_mid d)) OR
     push_bit 24 (ucast (td_base_high d)) OR push_bit 32 (ucast (td_base_upper d))"

definition tss_limit :: "tss_descriptor \<Rightarrow> u32" where
  "tss_limit d = ucast (td_limit_low d) OR push_bit 16 (ucast (td_granularity d AND 0x0f))"

text \<open>The masks of the code keep the low bits.\<close>

lemma masks_take_bit:
  "(x :: 'a::len word) AND 0xffff = take_bit 16 x" "x AND 0xff = take_bit 8 x" "x AND 0xf = take_bit 4 x"
  by (simp_all add: take_bit_eq_mask mask_eq_exp_minus_1)

text \<open>The base survives being cut into four fields, and so does every limit below a mebibyte.\<close>

lemma tss_base_roundtrip: "tss_base (set_tss_descriptor d base limit) = base"
proof (rule bit_word_eqI)
  fix n assume "n < LENGTH(64)"
  moreover have "n < 32 \<or> 32 + (n - 32) = n" by arith
  ultimately show "bit (tss_base (set_tss_descriptor d base limit)) n = bit base n"
    by (auto simp: tss_base_def set_tss_descriptor_def bit_simps masks_take_bit)
qed

lemma tss_limit_roundtrip:
  assumes "take_bit 20 limit = limit"
  shows "tss_limit (set_tss_descriptor d base limit) = limit"
proof (rule bit_word_eqI)
  fix n assume "n < LENGTH(32)"
  have "bit limit n \<longleftrightarrow> n < 20 \<and> bit limit n" using assms by (metis bit_take_bit_iff)
  then show "bit (tss_limit (set_tss_descriptor d base limit)) n = bit limit n"
    using \<open>n < LENGTH(32)\<close>
    by (auto simp: tss_limit_def set_tss_descriptor_def bit_simps masks_take_bit)
qed

lemma gdt_init_segments:
  "code_segment 0 (selected (gdt (gdt_init ga ta s)) GDT_KERNEL_CODE)"
  "data_segment 0 (selected (gdt (gdt_init ga ta s)) GDT_KERNEL_DATA)"
  "data_segment 3 (selected (gdt (gdt_init ga ta s)) (GDT_USER_DATA OR 3))"
  "code_segment 3 (selected (gdt (gdt_init ga ta s)) (GDT_USER_CODE OR 3))"
  by (simp_all add: gdt_init_def Let_def selected_def code_segment_def data_segment_def set_entry_def
      entry_present_def entry_dpl_def entry_code_def entry_writable_data_def entry_long_mode_def)

lemma gdt_init_tss:
  "tss_base (gdt_tss (gdt (gdt_init ga ta s))) = ta"
  "tss_limit (gdt_tss (gdt (gdt_init ga ta s))) = 103"
  "td_access (gdt_tss (gdt (gdt_init ga ta s))) = 0x89"
  by (simp_all add: gdt_init_def Let_def tss_base_roundtrip tss_limit_roundtrip)
    (simp add: set_tss_descriptor_def)

end
