(* ===== verification/Arch_Idt.thy ===== *)
theory Arch_Idt
  imports Arch_Gdt Arch_Isr
begin

text \<open>
  \<^verbatim>\<open>kernel/arch/x86_64/cpu/idt.c\<close> and the entry stubs of \<^verbatim>\<open>isr_stubs.S\<close>: the
  interrupt descriptor table, the gate encoding, and what each stub pushes before it calls
  \<^verbatim>\<open>isr_dispatch\<close>. The address the linker gives a stub is an argument.
\<close>

section \<open>The table\<close>

record idt_entry =
  offset_low :: u16
  gate_selector :: u16
  gate_ist :: u8
  type_attr :: u8
  offset_mid :: u16
  offset_high :: u32
  gate_reserved :: u32

type_synonym idt = "u8 \<Rightarrow> idt_entry"

text \<open>The stubs the table can name: exceptions, legacy interrupt lines, and the spurious vector's.\<close>

datatype stub = Isr_stub nat | Irq_stub nat | Isr_stub_spurious

definition isr_stubs :: "stub list" where "isr_stubs = map Isr_stub [0..<32]"
definition irq_stubs :: "stub list" where "irq_stubs = map Irq_stub [0..<16]"

definition zero_gate :: idt_entry where
  "zero_gate = \<lparr>offset_low = 0, gate_selector = 0, gate_ist = 0, type_attr = 0, offset_mid = 0,
     offset_high = 0, gate_reserved = 0\<rparr>"

definition set_gate :: "idt \<Rightarrow> u8 \<Rightarrow> u64 \<Rightarrow> idt" where
  "set_gate idt vector addr = idt(vector :=
     \<lparr>offset_low = ucast (addr AND 0xffff), gate_selector = GDT_KERNEL_CODE, gate_ist = 0,
      type_attr = 0x8e, offset_mid = ucast (drop_bit 16 addr AND 0xffff),
      offset_high = ucast (drop_bit 32 addr), gate_reserved = 0\<rparr>)"

definition idt_init :: "(stub \<Rightarrow> u64) \<Rightarrow> u64 \<Rightarrow> idt \<times> gdtr" where
  "idt_init address idt_addr =
     (let t = (\<lambda>_. zero_gate);
          t = fold (\<lambda>i t. set_gate t (of_nat i) (address (isr_stubs ! i))) [0..<length isr_stubs] t;
          t = fold (\<lambda>i t. set_gate t (of_nat (32 + i)) (address (irq_stubs ! i))) [0..<length irq_stubs] t;
          t = set_gate t 0xff (address Isr_stub_spurious)
      in (t, \<lparr>gdtr_limit = 4095, gdtr_base = idt_addr\<rparr>))"

section \<open>The stubs\<close>

text \<open>
  What a stub pushes, first push first, before \<^verbatim>\<open>isr_common_stub\<close>: the dummy error code
  where the processor pushed none, and the vector. The spurious stub pushes nothing and returns.
\<close>

definition isr_err_vectors :: "nat list" where
  "isr_err_vectors = [8, 10, 11, 12, 13, 14, 17, 21, 29, 30]"

primrec stub_pushes :: "stub \<Rightarrow> u64 list option" where
  "stub_pushes (Isr_stub v) = Some (if v \<in> set isr_err_vectors then [of_nat v] else [0, of_nat v])"
| "stub_pushes (Irq_stub i) = Some [0, of_nat (32 + i)]"
| "stub_pushes Isr_stub_spurious = None"

section \<open>How the processor delivers an interrupt\<close>

text \<open>
  The gate of the vector must be present; its three offset fields are the address the processor
  continues at. Ten exceptions push an error code (SDM Vol. 3A, Table 6-1).
\<close>

definition gate_target :: "idt_entry \<Rightarrow> u64" where
  "gate_target e = ucast (offset_low e) OR push_bit 16 (ucast (offset_mid e)) OR
     push_bit 32 (ucast (offset_high e))"

definition gate_present :: "idt_entry \<Rightarrow> bool" where "gate_present e \<longleftrightarrow> bit (type_attr e) 7"

definition interrupt_gate :: "idt_entry \<Rightarrow> bool" where
  "interrupt_gate e \<longleftrightarrow> type_attr e AND 0x1f = 0x0e \<and> gate_ist e = 0"

text \<open>The entry \<^verbatim>\<open>set_gate\<close> writes.\<close>

definition gate_for :: "u64 \<Rightarrow> idt_entry" where
  "gate_for addr = set_gate (\<lambda>_. zero_gate) 0 addr 0"

lemma set_gate_eq: "set_gate t v addr = t(v := gate_for addr)"
  by (simp add: set_gate_def gate_for_def)

lemma gate_target_gate: "gate_target (gate_for addr) = addr"
proof (rule bit_word_eqI)
  fix n assume "n < LENGTH(64)"
  moreover have "n < 32 \<or> 32 + (n - 32) = n" "n < 16 \<or> 16 + (n - 16) = n" by arith+
  ultimately show "bit (gate_target (gate_for addr)) n = bit addr n"
    by (auto simp: gate_target_def gate_for_def set_gate_def bit_simps masks_take_bit)
qed

lemma gate_for_kind:
  "gate_present (gate_for addr)" "interrupt_gate (gate_for addr)"
  "gate_selector (gate_for addr) = GDT_KERNEL_CODE"
  by (simp_all add: gate_present_def interrupt_gate_def gate_for_def set_gate_def)

text \<open>The loops: the gate of each vector, by the stub that serves it.\<close>

definition stub_of :: "u8 \<Rightarrow> stub option" where
  "stub_of v = (if v < 32 then Some (Isr_stub (unat v)) else if v < 48 then Some (Irq_stub (unat v - 32))
     else if v = 0xff then Some Isr_stub_spurious else None)"

lemma fold_set_gate:
  assumes "lo + n \<le> 256"
  shows "fold (\<lambda>i t. set_gate t (of_nat (lo + i)) (f i)) [0..<n] t v =
    (if lo \<le> unat v \<and> unat v < lo + n then gate_for (f (unat v - lo)) else t v)"
  using assms
proof (induction n)
  case (Suc n)
  have "unat (of_nat (lo + n) :: u8) = lo + n" using Suc.prems by (subst unat_of_nat) simp
  then have u: "v = of_nat (lo + n) \<longleftrightarrow> unat v = lo + n" by (metis word_unat_eq_iff)
  have "fold (\<lambda>i t. set_gate t (of_nat (lo + i)) (f i)) [0..<Suc n] t v =
      (if v = of_nat (lo + n) then gate_for (f n)
       else fold (\<lambda>i t. set_gate t (of_nat (lo + i)) (f i)) [0..<n] t v)"
    by (simp add: set_gate_eq)
  then show ?case using Suc unfolding u by simp
qed auto

lemma idt_init_gate:
  "fst (idt_init address idt_addr) v =
    (case stub_of v of None \<Rightarrow> zero_gate | Some s \<Rightarrow> gate_for (address s))"
proof -
  have e: "v = 0xff \<longleftrightarrow> unat v = 255" "v < 32 \<longleftrightarrow> unat v < 32" "v < 48 \<longleftrightarrow> unat v < 48"
    by (simp_all add: word_unat_eq_iff word_less_nat_alt)
  have "fst (idt_init address idt_addr) v =
     (if v = 0xff then gate_for (address Isr_stub_spurious)
      else fold (\<lambda>i t. set_gate t (of_nat (32 + i)) (address (irq_stubs ! i))) [0..<16]
        (fold (\<lambda>i t. set_gate t (of_nat (0 + i)) (address (isr_stubs ! i))) [0..<32] (\<lambda>_. zero_gate)) v)"
    by (simp add: idt_init_def Let_def isr_stubs_def irq_stubs_def set_gate_eq)
  also have "\<dots> = (case stub_of v of None \<Rightarrow> zero_gate | Some s \<Rightarrow> gate_for (address s))"
    using unat_lt_8 [of v] by (simp only: fold_set_gate)
      (auto simp: e stub_of_def isr_stubs_def irq_stubs_def)
  finally show ?thesis .
qed

text \<open>The processor's way from a vector to the stub's pushes.\<close>

definition deliver :: "(stub \<Rightarrow> u64) \<Rightarrow> idt \<Rightarrow> u8 \<Rightarrow> stub \<Rightarrow> bool" where
  "deliver address t v s \<longleftrightarrow> gate_present (t v) \<and> gate_target (t v) = address s"

definition hardware_error_code :: "u8 \<Rightarrow> bool" where
  "hardware_error_code v \<longleftrightarrow> unat v \<in> {8, 10, 11, 12, 13, 14, 17, 21, 29, 30}"

text \<open>
  C22: every interrupt reaches its own handler code. After \<^verbatim>\<open>idt_init\<close>, exactly the
  vectors 0 to 47 and 255 have a present gate, an interrupt gate on the kernel code segment and
  the current stack, whose three address fields spell the address of the stub for that vector.
  Together with the error code the processor pushes for ten of the exceptions, every stub but the
  spurious one leaves one error code and the vector itself on the stack, which is the vector
  \<^verbatim>\<open>isr_dispatch\<close> then reads; the spurious one returns at once.
\<close>

theorem idt_init_correct:
  assumes "fst (idt_init address idt_addr) = t"
  shows "(gate_present (t v) \<longleftrightarrow> v < 48 \<or> v = 0xff) \<and>
    (v < 48 \<or> v = 0xff \<longrightarrow> interrupt_gate (t v) \<and> gate_selector (t v) = GDT_KERNEL_CODE) \<and>
    (v < 48 \<longrightarrow> (\<exists>s pushes. deliver address t v s \<and> stub_pushes s = Some pushes \<and>
       (if hardware_error_code v then pushes = [ucast v] else pushes = [0, ucast v]))) \<and>
    deliver address t 0xff Isr_stub_spurious \<and> stub_pushes Isr_stub_spurious = None"
proof -
  have t: "t w = (case stub_of w of None \<Rightarrow> zero_gate | Some s \<Rightarrow> gate_for (address s))" for w
    using assms idt_init_gate [of address idt_addr w] by simp
  have z: "\<not> gate_present zero_gate" by (simp add: gate_present_def zero_gate_def)
  have p: "gate_present (t v) \<longleftrightarrow> v < 48 \<or> v = 0xff"
    by (auto simp: t stub_of_def gate_for_kind z word_less_nat_alt)
  have g: "gate_present (t v)" "gate_target (t v) = address s" "interrupt_gate (t v)"
    "gate_selector (t v) = GDT_KERNEL_CODE" if "stub_of v = Some s" for v s
    using that by (simp_all add: t gate_for_kind gate_target_gate)
  have low: "\<exists>s pushes. stub_of v = Some s \<and> stub_pushes s = Some pushes \<and>
      (if hardware_error_code v then pushes = [ucast v] else pushes = [0, ucast v])" if "v < 48"
    using that
    by (auto simp: stub_of_def word_less_nat_alt hardware_error_code_def isr_err_vectors_def
        simp flip: of_nat_add)
  have s: "\<exists>s. stub_of v = Some s" if "v < 48 \<or> v = 0xff" using that by (auto simp: stub_of_def)
  have sp: "stub_of 0xff = Some Isr_stub_spurious" by (simp add: stub_of_def)
  show ?thesis
    using p s low g(1-4) [of v] g(1,2) [OF sp] unfolding deliver_def by (metis stub_pushes.simps(3))
qed

definition demo_address :: "stub \<Rightarrow> u64" where
  "demo_address s = (case s of Isr_stub n \<Rightarrow> 0xffffffff80001000 + 16 * of_nat n
     | Irq_stub n \<Rightarrow> 0xffffffff80002000 + 16 * of_nat n | Isr_stub_spurious \<Rightarrow> 0xffffffff80003000)"

theorem idt_init_correct_witness:
  "gate_target (fst (idt_init demo_address 0) 33) = 0xffffffff80002010 \<and>
   gate_present (fst (idt_init demo_address 0) 33) \<and> \<not> gate_present (fst (idt_init demo_address 0) 48)"
proof -
  have "gate_target (fst (idt_init demo_address 0) 33) = 0xffffffff80002010"
    by (simp add: idt_init_gate stub_of_def gate_target_gate demo_address_def)
  moreover have "\<not> gate_present (fst (idt_init demo_address 0) 48)"
      "gate_present (fst (idt_init demo_address 0) 33)"
    using idt_init_correct [OF refl, of demo_address 0 48] idt_init_correct [OF refl, of demo_address 0 33]
    by simp_all
  ultimately show ?thesis by blast
qed

end
