(* ===== verification/Arch_Entry.thy ===== *)
theory Arch_Entry
  imports Arch_Idt Sched_Context
begin

text \<open>
  The way of an interrupt through \<^verbatim>\<open>isr_stubs.S\<close>: the processor's delivery through a gate, the
  stub of the vector and the common stub, instruction by instruction, around the call of the compiled
  \<^verbatim>\<open>isr_dispatch\<close>, and the return with \<^verbatim>\<open>iretq\<close>. The compiled function is a
  parameter; what the stub relies on is the locale \<open>isr_callee\<close>. Delivery and return follow the SDM.
\<close>

section \<open>The processor\<close>

datatype reg = Rax | Rbx | Rcx | Rdx | Rsi | Rdi | Rbp | Rsp | R8 | R9 | R10 | R11 | R12 | R13 | R14 | R15

record icpu =
  ic_regs :: "reg \<Rightarrow> u64"
  ic_rip :: u64
  ic_rflags :: u64
  ic_cs :: u16
  ic_ss :: u16
  ic_mem :: mem
  ic_effects :: "isr_effect list"

datatype insn = Push_imm u64 | Push reg | Pop reg | Mov reg reg | Call_isr_dispatch | Add reg u64 | Iretq

definition set_reg :: "reg \<Rightarrow> u64 \<Rightarrow> icpu \<Rightarrow> icpu" where
  "set_reg r v c = c\<lparr>ic_regs := (ic_regs c)(r := v)\<rparr>"

definition ipush :: "u64 \<Rightarrow> icpu \<Rightarrow> icpu" where
  "ipush v c = (let a = ic_regs c Rsp - 8 in set_reg Rsp a (c\<lparr>ic_mem := store64 (ic_mem c) a v\<rparr>))"

definition ipop :: "icpu \<Rightarrow> u64 \<times> icpu" where
  "ipop c = (load64 (ic_mem c) (ic_regs c Rsp), set_reg Rsp (ic_regs c Rsp + 8) c)"

definition iretq :: "icpu \<Rightarrow> icpu" where
  "iretq c =
     (let (rip, c) = ipop c;
          (cs, c) = ipop c;
          (flags, c) = ipop c;
          (sp, c) = ipop c;
          (ss, c) = ipop c
      in set_reg Rsp sp (c\<lparr>ic_rip := rip, ic_cs := ucast cs, ic_rflags := flags, ic_ss := ucast ss\<rparr>))"

text \<open>
  One instruction; the operands are in the order of the source (\<^verbatim>\<open>mov %rsp, %rdi\<close>). The call
  and the \<^verbatim>\<open>ret\<close> that ends it are the function itself, \<open>None\<close> when it does not return.
\<close>

fun istep :: "(icpu \<Rightarrow> icpu option) \<Rightarrow> insn \<Rightarrow> icpu \<Rightarrow> icpu option" where
  "istep body (Push_imm v) c = Some (ipush v c)"
| "istep body (Push r) c = Some (ipush (ic_regs c r) c)"
| "istep body (Pop r) c = (let (v, c) = ipop c in Some (set_reg r v c))"
| "istep body (Mov src dst) c = Some (set_reg dst (ic_regs c src) c)"
| "istep body Call_isr_dispatch c = body c"
| "istep body (Add r n) c = Some (set_reg r (ic_regs c r + n) c)"
| "istep body Iretq c = Some (iretq c)"

primrec iexec :: "(icpu \<Rightarrow> icpu option) \<Rightarrow> insn list \<Rightarrow> icpu \<Rightarrow> icpu option" where
  "iexec body [] c = Some c"
| "iexec body (i # is) c = Option.bind (istep body i c) (iexec body is)"

section \<open>The stubs\<close>

definition isr_common_stub :: "insn list" where
  "isr_common_stub =
     [Push Rax, Push Rbx, Push Rcx, Push Rdx, Push Rsi, Push Rdi, Push Rbp, Push R8, Push R9, Push R10,
      Push R11, Push R12, Push R13, Push R14, Push R15,
      Mov Rsp Rdi, Call_isr_dispatch,
      Pop R15, Pop R14, Pop R13, Pop R12, Pop R11, Pop R10, Pop R9, Pop R8, Pop Rbp, Pop Rdi, Pop Rsi,
      Pop Rdx, Pop Rcx, Pop Rbx, Pop Rax,
      Add Rsp 16, Iretq]"

text \<open>The code at a stub's label: its pushes and the jump to the common stub, or the lone return.\<close>

definition stub_code :: "stub \<Rightarrow> insn list" where
  "stub_code s = (case stub_pushes s of
     None \<Rightarrow> [Iretq] | Some vs \<Rightarrow> map Push_imm vs @ isr_common_stub)"

section \<open>Delivery\<close>

text \<open>
  In 64-bit mode the processor takes the stack pointer of the TSS when the privilege level changes, aligns
  it to sixteen bytes and always saves five words; \<open>err\<close> is the error code of the exceptions that have one,
  \<open>resume\<close> whether the image of the flags it saves has the resume flag set. An interrupt gate
  clears IF, and every gate TF, NT, RF and VM.
\<close>

definition ring :: "u16 \<Rightarrow> u16" where "ring cs = cs AND 3"

definition entry_stack :: "u64 \<Rightarrow> icpu \<Rightarrow> u64" where
  "entry_stack rsp0 c = (if ring (ic_cs c) = 0 then ic_regs c Rsp else rsp0) AND NOT 15"

definition saved_rflags :: "bool \<Rightarrow> icpu \<Rightarrow> u64" where
  "saved_rflags resume c = ic_rflags c OR (if resume then 0x10000 else 0)"

definition enter_gate :: "u64 \<Rightarrow> idt \<Rightarrow> u8 \<Rightarrow> u64 \<Rightarrow> bool \<Rightarrow> icpu \<Rightarrow> icpu option" where
  "enter_gate rsp0 t v err resume c =
     (if \<not> gate_present (t v) then None
      else
        let c1 = set_reg Rsp (entry_stack rsp0 c) c;
            c1 = ipush (ucast (ic_ss c)) c1;
            c1 = ipush (ic_regs c Rsp) c1;
            c1 = ipush (saved_rflags resume c) c1;
            c1 = ipush (ucast (ic_cs c)) c1;
            c1 = ipush (ic_rip c) c1;
            c1 = (if hardware_error_code v then ipush err c1 else c1)
        in Some (c1\<lparr>ic_rip := gate_target (t v), ic_cs := gate_selector (t v),
             ic_ss := (if ring (ic_cs c) = 0 then ic_ss c else 0),
             ic_rflags := ic_rflags c AND NOT 0x34300\<rparr>))"

text \<open>An interrupt of vector \<open>v\<close>: delivery, then the code of the stub the gate leads to.\<close>

definition interrupt :: "(icpu \<Rightarrow> icpu option) \<Rightarrow> (u64 \<Rightarrow> insn list) \<Rightarrow> u64 \<Rightarrow> idt \<Rightarrow> u8 \<Rightarrow> u64 \<Rightarrow> bool \<Rightarrow> icpu \<Rightarrow> icpu option" where
  "interrupt body code rsp0 t v err resume c =
     Option.bind (enter_gate rsp0 t v err resume c) (\<lambda>c1. iexec body (code (ic_rip c1)) c1)"

section \<open>The dispatcher as a C function\<close>

text \<open>\<^verbatim>\<open>struct interrupt_frame\<close> at an address.\<close>

definition frame_from :: "mem \<Rightarrow> u64 \<Rightarrow> interrupt_frame" where
  "frame_from m a = \<lparr>if_r15 = load64 m a, if_r14 = load64 m (a + 8), if_r13 = load64 m (a + 16),
     if_r12 = load64 m (a + 24), if_r11 = load64 m (a + 32), if_r10 = load64 m (a + 40),
     if_r9 = load64 m (a + 48), if_r8 = load64 m (a + 56), if_rbp = load64 m (a + 64),
     if_rdi = load64 m (a + 72), if_rsi = load64 m (a + 80), if_rdx = load64 m (a + 88),
     if_rcx = load64 m (a + 96), if_rbx = load64 m (a + 104), if_rax = load64 m (a + 112),
     if_vector = load64 m (a + 120), if_error_code = load64 m (a + 128), if_rip = load64 m (a + 136),
     if_cs = load64 m (a + 144), if_rflags = load64 m (a + 152)\<rparr>"

definition callee_saved :: "reg set" where "callee_saved = {Rbx, Rbp, Rsp, R12, R13, R14, R15}"

text \<open>
  The compiled dispatcher: it reads its argument through rdi, leaves anything at all in the registers a
  callee may overwrite, and does not return from \<^verbatim>\<open>panic_exception\<close>.
\<close>

definition call_isr_dispatch :: "handlers \<Rightarrow> (reg \<Rightarrow> u64) \<Rightarrow> icpu \<Rightarrow> icpu option" where
  "call_isr_dispatch hs left c =
     (case isr_dispatch hs (frame_from (ic_mem c) (ic_regs c Rdi)) of
        None \<Rightarrow> None
      | Some effs \<Rightarrow>
          if Panic_exception \<in> set effs then None
          else Some (c\<lparr>ic_regs := (\<lambda>r. if r \<in> callee_saved then ic_regs c r else left r),
                 ic_effects := ic_effects c @ effs\<rparr>))"

section \<open>Words on the stack\<close>

lemma frame_at_append: "frame_at m a (xs @ ys) \<longleftrightarrow> frame_at m a xs \<and> frame_at m (a + of_nat (8 * length xs)) ys"
  by (induction xs arbitrary: a) (simp_all add: add.assoc)

lemma frame_at_cong:
  assumes "8 * length vs < 2 ^ 63" and "\<And>i. unat i < 8 * length vs \<Longrightarrow> m' (a + i) = m (a + i)"
  shows "frame_at m' a vs = frame_at m a vs"
  using assms
proof (induction vs arbitrary: a)
  case (Cons v vs)
  have "load64 m' a = load64 m a" by (rule load64_cong) (simp add: Cons.prems(2) word_less_nat_alt)
  moreover have "m' (a + 8 + i) = m (a + 8 + i)" if "unat i < 8 * length vs" for i
  proof -
    have "unat (8 + i) = 8 + unat i" using that Cons.prems(1) by (simp add: unat_add_64)
    then show ?thesis using Cons.prems(2) [of "8 + i"] that by (simp add: add.assoc)
  qed
  ultimately show ?case using Cons by simp
qed simp

text \<open>Pushing a list of words, first push first: they lie below the old top in reverse.\<close>

primrec push_words :: "mem \<Rightarrow> u64 \<Rightarrow> u64 list \<Rightarrow> mem" where
  "push_words m a [] = m"
| "push_words m a (v # vs) = push_words (store64 m (a - 8) v) (a - 8) vs"

lemma push_words_append: "push_words m a (xs @ ys) = push_words (push_words m a xs) (a - of_nat (8 * length xs)) ys"
  by (induction xs arbitrary: m a) (simp_all add: algebra_simps)

lemma push_words_outside:
  assumes "8 * length vs < 2 ^ 63" and "of_nat (8 * length vs) \<le> x - (a - of_nat (8 * length vs))"
  shows "push_words m a vs x = m x"
  using assms
proof (induction vs arbitrary: m a)
  case (Cons v vs)
  define n where "n = 8 * length vs"
  have len: "8 * length (v # vs) = n + 8" by (simp add: n_def)
  define d where "d = x - (a - of_nat (n + 8))"
  have n: "n + 8 < 2 ^ 63" using Cons.prems(1) by (simp add: n_def)
  have u: "unat (of_nat (n + 8) :: u64) = n + 8" "unat (of_nat n :: u64) = n" using n by (simp_all add: unat_of_nat_64 del: of_nat_add)
  have d: "n + 8 \<le> unat d" using Cons.prems(2) unfolding len d_def [symmetric] word_le_nat_alt u(1) .
  have e: "x - (a - 8 - of_nat n) = d" "x - (a - 8) = d - of_nat n" by (simp_all add: d_def algebra_simps)
  have "unat (d - of_nat n) = unat d - n" using d u(2) by (simp add: unat_sub_64 word_le_nat_alt)
  then have "\<not> x - (a - 8) < 8" using d unfolding e by (simp add: word_less_nat_alt)
  moreover have "of_nat n \<le> x - (a - 8 - of_nat n)" using d u(2) unfolding e by (simp add: word_le_nat_alt)
  ultimately show ?case using Cons.IH [of "a - 8" "store64 m (a - 8) v"] n by (simp add: store64_outside n_def)
qed simp

lemma push_words_frame:
  assumes "8 * length vs < 2 ^ 63"
  shows "frame_at (push_words m a vs) (a - of_nat (8 * length vs)) (rev vs)"
  using assms
proof (induction vs arbitrary: m a)
  case (Cons v vs)
  define n where "n = 8 * length vs"
  let ?m = "store64 m (a - 8) v"
  have n: "n + 8 < 2 ^ 63" using Cons.prems by (simp add: n_def)
  have "load64 (push_words ?m (a - 8) vs) (a - 8) = load64 ?m (a - 8)"
  proof (rule load64_cong)
    fix i :: u64 assume "i < 8"
    then have "unat (of_nat n + i) = n + unat i" using n by (simp add: unat_add_64 unat_of_nat_64 word_less_nat_alt)
    then have "of_nat n \<le> a - 8 + i - (a - 8 - of_nat n)" using n by (simp add: word_le_nat_alt unat_of_nat_64 algebra_simps)
    then show "push_words ?m (a - 8) vs (a - 8 + i) = ?m (a - 8 + i)"
      using n push_words_outside [of vs "a - 8 + i" "a - 8"] by (simp add: n_def)
  qed
  moreover have "frame_at (push_words ?m (a - 8) vs) (a - 8 - of_nat n) (rev vs)"
    using Cons.IH [of ?m "a - 8"] n by (simp add: n_def)
  ultimately show ?case by (simp add: frame_at_append n_def diff_diff_eq)
qed simp

section \<open>Sequences of instructions\<close>

lemma iexec_append: "iexec body (is @ js) c = Option.bind (iexec body is c) (iexec body js)"
proof (induction "is" arbitrary: c)
  case (Cons i "is") then show ?case by (cases "istep body i c") simp_all
qed simp

definition pushed :: "u64 list \<Rightarrow> icpu \<Rightarrow> icpu" where
  "pushed vs c = c\<lparr>ic_regs := (ic_regs c)(Rsp := ic_regs c Rsp - of_nat (8 * length vs)),
     ic_mem := push_words (ic_mem c) (ic_regs c Rsp) vs\<rparr>"

lemma pushed_simps [simp]:
  "pushed [] c = c" "pushed vs (ipush v c) = pushed (v # vs) c" "ipush v c = pushed [v] c"
  "pushed vs (pushed us c) = pushed (us @ vs) c"
  by (simp_all add: pushed_def ipush_def set_reg_def Let_def push_words_append algebra_simps)

lemma iexec_push_imm: "iexec body (map Push_imm vs @ is) c = iexec body is (pushed vs c)"
  by (induction vs arbitrary: c) simp_all

lemma iexec_push:
  "Rsp \<notin> set rs \<Longrightarrow> iexec body (map Push rs @ is) c = iexec body is (pushed (map (ic_regs c) rs) c)"
proof (induction rs arbitrary: c)
  case (Cons r rs)
  have m: "map (ic_regs (pushed [ic_regs c r] c)) rs = map (ic_regs c) rs"
    using Cons.prems by (auto simp: pushed_def)
  show ?case using Cons.prems by (simp add: Cons.IH m)
qed simp

lemma iexec_pop:
  assumes "Rsp \<notin> set rs" and "frame_at (ic_mem c) (ic_regs c Rsp) (map f rs)"
  shows "iexec body (map Pop rs @ is) c = iexec body is (c\<lparr>ic_regs := (\<lambda>r. if r \<in> set rs then f r
    else if r = Rsp then ic_regs c Rsp + of_nat (8 * length rs) else ic_regs c r)\<rparr>)"
  using assms
proof (induction rs arbitrary: c)
  case (Cons r rs)
  define c1 where "c1 = set_reg r (f r) (set_reg Rsp (ic_regs c Rsp + 8) c)"
  have c1: "ic_regs c1 = (ic_regs c)(Rsp := ic_regs c Rsp + 8, r := f r)" "ic_mem c1 = ic_mem c" "ic_regs c1 Rsp = ic_regs c Rsp + 8"
    using Cons.prems(1) by (auto simp: c1_def set_reg_def)
  have "iexec body (map Pop (r # rs) @ is) c = iexec body (map Pop rs @ is) c1"
    using Cons.prems by (simp add: ipop_def c1_def)
  also have "\<dots> = iexec body is (c1\<lparr>ic_regs := (\<lambda>x. if x \<in> set rs then f x
      else if x = Rsp then ic_regs c1 Rsp + of_nat (8 * length rs) else ic_regs c1 x)\<rparr>)"
    using Cons.prems c1 by (intro Cons.IH) simp_all
  also have "c1\<lparr>ic_regs := (\<lambda>x. if x \<in> set rs then f x
      else if x = Rsp then ic_regs c1 Rsp + of_nat (8 * length rs) else ic_regs c1 x)\<rparr> =
    c\<lparr>ic_regs := (\<lambda>x. if x \<in> set (r # rs) then f x
      else if x = Rsp then ic_regs c Rsp + of_nat (8 * length (r # rs)) else ic_regs c x)\<rparr>"
    using Cons.prems(1) by (auto simp: c1_def set_reg_def algebra_simps fun_eq_iff)
  finally show ?case .
next
  case Nil
  have "(\<lambda>r. if r \<in> set [] then f r else if r = Rsp then ic_regs c Rsp + of_nat (8 * length ([] :: reg list)) else ic_regs c r) = ic_regs c"
    by auto
  then show ?case by (simp only: list.map append_Nil) simp
qed

lemma iretq_frame:
  assumes "frame_at (ic_mem c) (ic_regs c Rsp) [ip, cs, flags, sp, ss]"
  shows "iretq c = c\<lparr>ic_regs := (ic_regs c)(Rsp := sp), ic_rip := ip, ic_cs := ucast cs, ic_rflags := flags, ic_ss := ucast ss\<rparr>"
  using assms by (simp add: iretq_def ipop_def set_reg_def Let_def add.assoc)

section \<open>The common stub\<close>

definition saved_regs :: "reg list" where
  "saved_regs = [Rax, Rbx, Rcx, Rdx, Rsi, Rdi, Rbp, R8, R9, R10, R11, R12, R13, R14, R15]"

lemma isr_common_stub_eq:
  "isr_common_stub = map Push saved_regs @ [Mov Rsp Rdi, Call_isr_dispatch] @ map Pop (rev saved_regs) @ [Add Rsp 16, Iretq]"
  by (simp add: isr_common_stub_def saved_regs_def)

lemma set_saved_regs: "r \<in> set saved_regs \<longleftrightarrow> r \<noteq> Rsp"
  by (cases r) (simp_all add: saved_regs_def)

text \<open>What the processor saves, first push first, and what the stub adds to it.\<close>

definition processor_words :: "bool \<Rightarrow> icpu \<Rightarrow> u64 list" where
  "processor_words resume c = [ucast (ic_ss c), ic_regs c Rsp, saved_rflags resume c, ucast (ic_cs c), ic_rip c]"

definition frame_words :: "u8 \<Rightarrow> u64 \<Rightarrow> bool \<Rightarrow> icpu \<Rightarrow> u64 list" where
  "frame_words v code resume c = processor_words resume c @ [code, ucast v] @ map (ic_regs c) saved_regs"

definition error_code_of :: "u8 \<Rightarrow> u64 \<Rightarrow> u64" where
  "error_code_of v err = (if hardware_error_code v then err else 0)"

text \<open>The frame the dispatcher is given, by its fields.\<close>

definition interrupted_frame :: "u8 \<Rightarrow> u64 \<Rightarrow> bool \<Rightarrow> icpu \<Rightarrow> interrupt_frame" where
  "interrupted_frame v err resume c =
     \<lparr>if_r15 = ic_regs c R15, if_r14 = ic_regs c R14, if_r13 = ic_regs c R13, if_r12 = ic_regs c R12,
      if_r11 = ic_regs c R11, if_r10 = ic_regs c R10, if_r9 = ic_regs c R9, if_r8 = ic_regs c R8,
      if_rbp = ic_regs c Rbp, if_rdi = ic_regs c Rdi, if_rsi = ic_regs c Rsi, if_rdx = ic_regs c Rdx,
      if_rcx = ic_regs c Rcx, if_rbx = ic_regs c Rbx, if_rax = ic_regs c Rax, if_vector = ucast v,
      if_error_code = error_code_of v err, if_rip = ic_rip c, if_cs = ucast (ic_cs c),
      if_rflags = saved_rflags resume c\<rparr>"

lemma frame_from_words:
  assumes "frame_at m a (rev (frame_words v (error_code_of v err) resume c))"
  shows "frame_from m a = interrupted_frame v err resume c"
  using assms by (simp add: frame_words_def processor_words_def saved_regs_def frame_from_def interrupted_frame_def add.assoc)

text \<open>Delivery and the stub's own pushes: the processor at the first instruction of the common stub.\<close>

definition at_gate :: "u64 \<Rightarrow> u64 \<Rightarrow> icpu \<Rightarrow> icpu" where
  "at_gate rsp0 address c = c\<lparr>ic_regs := (ic_regs c)(Rsp := entry_stack rsp0 c), ic_rip := address, ic_cs := GDT_KERNEL_CODE,
     ic_ss := (if ring (ic_cs c) = 0 then ic_ss c else 0), ic_rflags := ic_rflags c AND NOT 0x34300\<rparr>"

lemma enter_gate_pushed:
  "enter_gate rsp0 t v err resume c =
     (if \<not> gate_present (t v) then None
      else Some ((pushed (processor_words resume c @ (if hardware_error_code v then [err] else []))
         (set_reg Rsp (entry_stack rsp0 c) c))\<lparr>ic_rip := gate_target (t v), ic_cs := gate_selector (t v),
             ic_ss := (if ring (ic_cs c) = 0 then ic_ss c else 0), ic_rflags := ic_rflags c AND NOT 0x34300\<rparr>))"
  by (cases "hardware_error_code v") (simp_all only: enter_gate_def processor_words_def Let_def pushed_simps append.simps if_True if_False)

lemma enter_gate_init:
  assumes "stub_of v = Some s"
  shows "enter_gate rsp0 (fst (idt_init address idt_addr)) v err resume c =
    Some (pushed (processor_words resume c @ (if hardware_error_code v then [err] else [])) (at_gate rsp0 (address s) c))"
proof -
  have "(pushed vs (set_reg Rsp (entry_stack rsp0 c) c))\<lparr>ic_rip := a, ic_cs := GDT_KERNEL_CODE, ic_ss := ss, ic_rflags := f\<rparr> =
      pushed vs (c\<lparr>ic_regs := (ic_regs c)(Rsp := entry_stack rsp0 c), ic_rip := a, ic_cs := GDT_KERNEL_CODE, ic_ss := ss, ic_rflags := f\<rparr>)"
    for vs a ss f by (simp add: pushed_def set_reg_def)
  then show ?thesis
    using assms by (simp only: enter_gate_pushed idt_init_gate gate_for_kind gate_target_gate at_gate_def option.case simp_thms if_False)
qed

lemma stub_reaches_common:
  assumes "stub_of v = Some s" "v \<noteq> 0xff"
  obtains pushes where "stub_code s = map Push_imm pushes @ isr_common_stub"
    "(if hardware_error_code v then [err] else []) @ pushes = [error_code_of v err, ucast v]"
  using assms
  by (auto simp: stub_of_def stub_code_def word_less_nat_alt hardware_error_code_def isr_err_vectors_def error_code_of_def
      split: if_splits simp flip: of_nat_add)

section \<open>What the stub relies on\<close>

text \<open>
  The function called: it does what \<^verbatim>\<open>isr_dispatch\<close> does with the frame its argument points to, returns
  unless that ends in \<^verbatim>\<open>panic_exception\<close>, with the stack pointer it was entered with, and writes
  none of the 176 bytes the interrupted state is saved in.
\<close>

locale isr_callee =
  fixes hs :: handlers and body :: "icpu \<Rightarrow> icpu option"
  assumes dispatches: "isr_dispatch hs (frame_from (ic_mem c) (ic_regs c Rdi)) = Some effs \<Longrightarrow>
      if Panic_exception \<in> set effs then body c = None
      else \<exists>c'. body c = Some c' \<and> ic_effects c' = ic_effects c @ effs"
    and keeps_rsp: "body c = Some c' \<Longrightarrow> ic_regs c' Rsp = ic_regs c Rsp"
    and keeps_frame: "body c = Some c' \<Longrightarrow> unat i < 176 \<Longrightarrow> ic_mem c' (ic_regs c Rsp + i) = ic_mem c (ic_regs c Rsp + i)"

text \<open>The processor when the dispatcher is called, and after the interrupt when it has returned in \<open>d\<close>.\<close>

definition at_call :: "u64 \<Rightarrow> u64 \<Rightarrow> u8 \<Rightarrow> u64 \<Rightarrow> bool \<Rightarrow> icpu \<Rightarrow> icpu" where
  "at_call rsp0 address v err resume c =
     (let c1 = pushed (frame_words v (error_code_of v err) resume c) (at_gate rsp0 address c)
      in set_reg Rdi (ic_regs c1 Rsp) c1)"

definition resumed :: "bool \<Rightarrow> icpu \<Rightarrow> icpu \<Rightarrow> icpu" where
  "resumed resume c d = c\<lparr>ic_mem := ic_mem d, ic_effects := ic_effects d, ic_rflags := saved_rflags resume c\<rparr>"

lemma length_frame_words: "length (frame_words v code resume c) = 22"
  by (simp add: frame_words_def processor_words_def saved_regs_def)

lemma at_call_simps:
  "ic_regs (at_call rsp0 address v err resume c) Rsp = entry_stack rsp0 c - 176"
  "ic_regs (at_call rsp0 address v err resume c) Rdi = entry_stack rsp0 c - 176"
  "ic_mem (at_call rsp0 address v err resume c) = push_words (ic_mem c) (entry_stack rsp0 c) (frame_words v (error_code_of v err) resume c)"
  "ic_rflags (at_call rsp0 address v err resume c) = ic_rflags c AND NOT 0x34300"
  "ic_cs (at_call rsp0 address v err resume c) = GDT_KERNEL_CODE"
  "ic_effects (at_call rsp0 address v err resume c) = ic_effects c"
  by (simp_all add: at_call_def pushed_def set_reg_def at_gate_def length_frame_words Let_def)

lemma at_call_frame:
  "frame_at (ic_mem (at_call rsp0 address v err resume c)) (entry_stack rsp0 c - 176) (rev (frame_words v (error_code_of v err) resume c))"
  using push_words_frame [of "frame_words v (error_code_of v err) resume c" "ic_mem c" "entry_stack rsp0 c"]
  by (simp add: at_call_simps length_frame_words)

lemma ucast_16_64_16: "ucast (ucast (x :: u16) :: u64) = x"
  by (rule bit_word_eqI) (simp add: bit_simps)

lemma stub_restores:
  assumes f: "frame_at (ic_mem d) (ic_regs d Rsp) (rev (frame_words v code resume c))"
  shows "iexec body (map Pop (rev saved_regs) @ [Add Rsp 16, Iretq]) d = Some (resumed resume c d)"
proof -
  let ?sp = "ic_regs d Rsp"
  have g: "(\<lambda>r. if r \<in> set (rev saved_regs) then ic_regs c r
    else if r = Rsp then ?sp + of_nat (8 * length (rev saved_regs)) else ic_regs d r) = (ic_regs c)(Rsp := ?sp + 120)"
    by (rule ext) (simp add: set_saved_regs, simp add: saved_regs_def)
  define e where "e = d\<lparr>ic_regs := (ic_regs c)(Rsp := ?sp + 136)\<rparr>"
  have w: "frame_at (ic_mem d) ?sp (map (ic_regs c) (rev saved_regs))"
    "frame_at (ic_mem d) (?sp + 136) [ic_rip c, ucast (ic_cs c), saved_rflags resume c, ic_regs c Rsp, ucast (ic_ss c)]"
    using f by (simp_all add: frame_words_def processor_words_def frame_at_append rev_map saved_regs_def ac_simps)
  have "Rsp \<notin> set (rev saved_regs)" by (simp add: set_saved_regs)
  from iexec_pop [OF this w(1), unfolded g]
  have "iexec body (map Pop (rev saved_regs) @ [Add Rsp 16, Iretq]) d = Some (iretq e)"
    by (simp add: e_def set_reg_def add.commute)
  moreover have "frame_at (ic_mem e) (ic_regs e Rsp) [ic_rip c, ucast (ic_cs c), saved_rflags resume c, ic_regs c Rsp, ucast (ic_ss c)]"
    using w(2) by (simp add: e_def)
  from iretq_frame [OF this] have "iretq e = resumed resume c d"
    by (cases c; cases d) (simp add: e_def resumed_def ucast_16_64_16)
  ultimately show ?thesis by simp
qed

text \<open>An interrupt, for any function called at all: the call, and the rest of the common stub after it.\<close>

lemma stub_runs:
  "iexec body isr_common_stub (pushed (processor_words resume c @ [error_code_of v err, ucast v]) (at_gate rsp0 address c)) =
     Option.bind (body (at_call rsp0 address v err resume c)) (iexec body (map Pop (rev saved_regs) @ [Add Rsp 16, Iretq]))"
proof -
  let ?c1 = "pushed (processor_words resume c @ [error_code_of v err, ucast v]) (at_gate rsp0 address c)"
  have m: "map (ic_regs ?c1) saved_regs = map (ic_regs c) saved_regs"
    by (auto simp: pushed_def at_gate_def set_saved_regs)
  have "pushed (map (ic_regs ?c1) saved_regs) ?c1 = pushed (frame_words v (error_code_of v err) resume c) (at_gate rsp0 address c)"
    unfolding m by (simp add: frame_words_def)
  moreover have "Rsp \<notin> set saved_regs" by (simp add: set_saved_regs)
  ultimately show ?thesis unfolding isr_common_stub_eq by (simp add: iexec_push at_call_def Let_def)
qed

lemma interrupt_runs:
  assumes "stub_of v = Some s" "v \<noteq> 0xff" "code (address s) = stub_code s"
  shows "interrupt body code rsp0 (fst (idt_init address idt_addr)) v err resume c =
     Option.bind (body (at_call rsp0 (address s) v err resume c)) (iexec body (map Pop (rev saved_regs) @ [Add Rsp 16, Iretq]))"
proof -
  obtain pushes where p: "stub_code s = map Push_imm pushes @ isr_common_stub"
    "(if hardware_error_code v then [err] else []) @ pushes = [error_code_of v err, ucast v]"
    by (rule stub_reaches_common [OF assms(1,2), of err])
  let ?w = "processor_words resume c @ (if hardware_error_code v then [err] else [])"
  have "interrupt body code rsp0 (fst (idt_init address idt_addr)) v err resume c =
      iexec body (stub_code s) (pushed ?w (at_gate rsp0 (address s) c))"
    by (simp add: interrupt_def enter_gate_init [OF assms(1)] pushed_def at_gate_def assms(3))
  also have "\<dots> = iexec body isr_common_stub (pushed (?w @ pushes) (at_gate rsp0 (address s) c))"
    unfolding p(1) iexec_push_imm by (simp only: pushed_simps(4))
  also have "?w @ pushes = processor_words resume c @ [error_code_of v err, ucast v]"
    using p(2) by simp
  finally show ?thesis using stub_runs by metis
qed

context isr_callee begin

lemma keeps_words:
  assumes "body c = Some d" "length vs \<le> 22" "frame_at (ic_mem c) (ic_regs c Rsp) vs"
  shows "frame_at (ic_mem d) (ic_regs d Rsp) vs"
proof -
  have "frame_at (ic_mem d) (ic_regs c Rsp) vs = frame_at (ic_mem c) (ic_regs c Rsp) vs"
    using assms(2) by (intro frame_at_cong keeps_frame [OF assms(1)]) auto
  then show ?thesis using assms(3) keeps_rsp [OF assms(1)] by simp
qed

lemma interrupt_result:
  assumes "stub_of v = Some s" "v \<noteq> 0xff" "code (address s) = stub_code s"
  shows "interrupt body code rsp0 (fst (idt_init address idt_addr)) v err resume c =
     map_option (resumed resume c) (body (at_call rsp0 (address s) v err resume c))"
proof (cases "body (at_call rsp0 (address s) v err resume c)")
  case (Some d)
  have "frame_at (ic_mem d) (ic_regs d Rsp) (rev (frame_words v (error_code_of v err) resume c))"
    by (rule keeps_words [OF Some]) (simp_all add: length_frame_words at_call_simps(1) at_call_frame)
  then show ?thesis using Some by (simp only: interrupt_runs [of v s code address, OF assms] Option.bind.simps option.map stub_restores)
qed (simp add: interrupt_runs [of v s code address, OF assms])

end

text \<open>The spurious vector: the gate leads to a lone return, and nothing is acknowledged.\<close>

lemma interrupt_spurious:
  assumes "code (address Isr_stub_spurious) = stub_code Isr_stub_spurious"
  shows "interrupt body code rsp0 (fst (idt_init address idt_addr)) 0xff err resume c =
    Some (c\<lparr>ic_mem := push_words (ic_mem c) (entry_stack rsp0 c) (processor_words resume c), ic_rflags := saved_rflags resume c\<rparr>)"
proof -
  let ?c1 = "pushed (processor_words resume c) (at_gate rsp0 (address Isr_stub_spurious) c)"
  have e: "enter_gate rsp0 (fst (idt_init address idt_addr)) 0xff err resume c = Some ?c1"
    by (subst enter_gate_init) (simp_all add: stub_of_def hardware_error_code_def)
  have "frame_at (ic_mem ?c1) (ic_regs ?c1 Rsp) [ic_rip c, ucast (ic_cs c), saved_rflags resume c, ic_regs c Rsp, ucast (ic_ss c)]"
    using push_words_frame [of "processor_words resume c" "ic_mem c" "entry_stack rsp0 c"]
    by (simp add: pushed_def at_gate_def processor_words_def del: push_words.simps frame_at.simps)
  from iretq_frame [OF this] have "iretq ?c1 = c\<lparr>ic_mem := push_words (ic_mem c) (entry_stack rsp0 c) (processor_words resume c),
      ic_rflags := saved_rflags resume c\<rparr>"
    by (simp add: pushed_def at_gate_def ucast_16_64_16)
  moreover have "ic_rip ?c1 = address Isr_stub_spurious" by (simp add: pushed_def at_gate_def)
  ultimately show ?thesis by (simp add: interrupt_def e assms stub_code_def)
qed

section \<open>The dispatcher keeps the contract\<close>

interpretation disp: isr_callee hs "call_isr_dispatch hs left" for hs left
  by unfold_locales (auto simp: call_isr_dispatch_def callee_saved_def split: option.splits if_splits)

section \<open>Properties\<close>

text \<open>What an interrupt with a handler does, in order.\<close>

definition handled :: "handlers \<Rightarrow> u8 \<Rightarrow> isr_effect list" where
  "handled hs v = (if v = 0xff then [] else (if 32 \<le> v then [Send_eoi] else []) @
     (case hs v of None \<Rightarrow> [] | Some h \<Rightarrow> [Run_handler h]))"

definition ends_in_panic :: "handlers \<Rightarrow> u8 \<Rightarrow> bool" where
  "ends_in_panic hs v \<longleftrightarrow> v < 32 \<and> hs v = None"

lemma dispatch_interrupted:
  assumes "v \<noteq> 0xff"
  shows "isr_dispatch hs (interrupted_frame v err resume c) =
    Some (if ends_in_panic hs v then [Panic_exception] else handled hs v)"
proof -
  have u: "unat (ucast v :: u64) = unat v" by (rule unat_ucast_8_64)
  have "\<not> 256 \<le> (ucast v :: u64)" "(ucast v :: u64) < 32 \<longleftrightarrow> v < 32"
    using unat_lt_8 [of v] by (simp_all add: word_le_nat_alt word_less_nat_alt u)
  moreover have "ucast (ucast v :: u64) = v" by (rule bit_word_eqI) (simp add: bit_simps)
  ultimately show ?thesis using assms
    by (auto simp: isr_dispatch_def interrupted_frame_def ends_in_panic_def handled_def Let_def not_le split: option.splits)
qed

lemma no_panic_handled: "Panic_exception \<notin> set (handled hs v)"
  by (auto simp: handled_def split: option.splits)

lemma entry_stack_aligned: "(entry_stack rsp0 c - 176) AND 15 = 0"
proof -
  have "entry_stack rsp0 c = align_down (if ring (ic_cs c) = 0 then ic_regs c Rsp else rsp0) (2 ^ 4)"
    by (simp add: entry_stack_def align_down_def)
  then have "16 dvd unat (entry_stack rsp0 c)" by (simp only: unat_align_down_pow2) simp
  then have "16 dvd unat (entry_stack rsp0 c - 176)"
    by (auto simp: unat_sub_if' word_size intro!: dvd_diff_nat)
  moreover have "unat (x AND 15) = unat x mod 16" for x :: u64
    using take_bit_eq_mask [of 4 "unat x"] by (simp add: unsigned_and_eq mask_numeral take_bit_eq_mod)
  ultimately show ?thesis by (simp add: word_unat_eq_iff)
qed

context isr_callee begin

lemma call_result:
  assumes v: "v \<noteq> 0xff" and d: "frame_from (ic_mem d) (ic_regs d Rdi) = interrupted_frame v err resume c"
    and e: "ic_effects d = ic_effects c"
  shows "case map_option (resumed resume c) (body d) of
      None \<Rightarrow> ends_in_panic hs v
    | Some c' \<Rightarrow> \<not> ends_in_panic hs v \<and> c' = c\<lparr>ic_mem := ic_mem c', ic_effects := ic_effects c @ handled hs v,
        ic_rflags := saved_rflags resume c\<rparr>"
  using dispatches [of d] no_panic_handled [of hs v]
  by (auto simp: d dispatch_interrupted [OF v] e resumed_def split: if_splits)

end

text \<open>
  C11: an interrupt is invisible to the code it interrupts. With the table of \<^verbatim>\<open>idt_init\<close> and the
  stubs at the addresses the table was given, an interrupt of any vector that has a gate, in ring 0
  or ring 3, with any registers and any stack, returns unless it is an exception without a handler, for any
  compiled dispatcher that keeps its contract. Every register, the stack pointer and the instruction pointer, both
  selectors and the flags are then as they were, up to the resume flag in the image the processor saved.
  A vector from 32 on is acknowledged once, before its handler runs; an exception and the spurious vector never are.
  The dispatcher is called with interrupts off, on a stack aligned as the calling convention asks, with a
  pointer to the interrupted registers, the vector and the error code, zero where the processor pushed none;
  nothing but the 176 bytes below the aligned top of the stack has been written.
\<close>

theorem interrupt_transparent:
  assumes "isr_callee hs body" and "stub_of v = Some s" and "code (address s) = stub_code s"
  shows "(case interrupt body code rsp0 (fst (idt_init address idt_addr)) v err resume c of
      None \<Rightarrow> ends_in_panic hs v
    | Some c' \<Rightarrow> \<not> ends_in_panic hs v \<and> c' = c\<lparr>ic_mem := ic_mem c', ic_effects := ic_effects c @ handled hs v,
        ic_rflags := saved_rflags resume c\<rparr>) \<and>
    (v \<noteq> 0xff \<longrightarrow> (\<exists>d. interrupt body code rsp0 (fst (idt_init address idt_addr)) v err resume c = map_option (resumed resume c) (body d) \<and>
       frame_from (ic_mem d) (ic_regs d Rdi) = interrupted_frame v err resume c \<and>
       ic_regs d Rsp = ic_regs d Rdi \<and> ic_regs d Rsp AND 15 = 0 \<and> ic_rflags d AND 0x200 = 0 \<and> ic_cs d = GDT_KERNEL_CODE \<and>
       (\<forall>x. 176 \<le> x - ic_regs d Rsp \<longrightarrow> ic_mem d x = ic_mem c x)))"
proof (cases "v = 0xff")
  case True
  then have "s = Isr_stub_spurious" using assms(2) by (simp add: stub_of_def)
  then show ?thesis using assms(3) True interrupt_spurious [of code address body]
    by (simp add: ends_in_panic_def handled_def)
next
  case False
  let ?d = "at_call rsp0 (address s) v err resume c"
  note r = isr_callee.interrupt_result [where code = code and address = address, OF assms(1,2) False assms(3)]
  have f: "frame_from (ic_mem ?d) (ic_regs ?d Rdi) = interrupted_frame v err resume c"
    unfolding at_call_simps(2) by (rule frame_from_words [OF at_call_frame])
  have "(ic_rflags c AND NOT 0x34300) AND 0x200 = 0" by (simp add: and.assoc)
  moreover have "ic_mem ?d x = ic_mem c x" if "176 \<le> x - (entry_stack rsp0 c - 176)" for x
    using push_words_outside that by (simp add: at_call_simps length_frame_words)
  ultimately show ?thesis
    using isr_callee.call_result [OF assms(1) False f] f entry_stack_aligned
    by (auto simp: r at_call_simps)
qed

definition demo_handlers :: handlers where
  "demo_handlers = interrupt_register_handler Map.empty 33 Keyboard_isr"

definition user_cpu :: icpu where
  "user_cpu = \<lparr>ic_regs = (\<lambda>_. 7)(Rsp := 0x500ff3, Rax := 0x1234), ic_rip = 0x400002, ic_rflags = 0x202, ic_cs = 0x23,
     ic_ss = 0x1b, ic_mem = (\<lambda>_. 0), ic_effects = []\<rparr>"

text \<open>A key pressed while ring 3 runs, its stack pointer not even aligned to a word.\<close>

theorem interrupt_transparent_witness:
  "\<exists>c'. interrupt (call_isr_dispatch demo_handlers (\<lambda>_. 0xdead)) (\<lambda>_. stub_code (Irq_stub 1)) 0xffffc00000005000
       (fst (idt_init demo_address 0)) 33 0 False user_cpu = Some c' \<and>
     ic_regs c' Rax = 0x1234 \<and> ic_regs c' Rsp = 0x500ff3 \<and> ic_rip c' = 0x400002 \<and> ic_cs c' = 0x23 \<and> ic_rflags c' = 0x202 \<and>
     ic_effects c' = [Send_eoi, Run_handler Keyboard_isr]"
proof -
  let ?i = "interrupt (call_isr_dispatch demo_handlers (\<lambda>_. 0xdead)) (\<lambda>_. stub_code (Irq_stub 1)) 0xffffc00000005000
       (fst (idt_init demo_address 0)) 33 0 False user_cpu"
  have "stub_of 33 = Some (Irq_stub 1)" by (simp add: stub_of_def)
  from interrupt_transparent [where code = "\<lambda>_. stub_code (Irq_stub 1)" and address = demo_address and ?rsp0.0 = "0xffffc00000005000"
      and idt_addr = 0 and err = 0 and resume = False and c = user_cpu,
      OF disp.isr_callee_axioms [where hs = demo_handlers and left = "\<lambda>_. 0xdead"] this refl, THEN conjunct1]
  obtain c' where "?i = Some c'" and c': "c' = user_cpu\<lparr>ic_mem := ic_mem c', ic_effects := [Send_eoi, Run_handler Keyboard_isr], ic_rflags := 0x202\<rparr>"
    by (auto simp: ends_in_panic_def handled_def demo_handlers_def interrupt_register_handler_def saved_rflags_def user_cpu_def
        split: option.splits)
  moreover have "ic_regs c' Rax = 0x1234" "ic_regs c' Rsp = 0x500ff3" "ic_rip c' = 0x400002" "ic_cs c' = 0x23" "ic_rflags c' = 0x202"
    "ic_effects c' = [Send_eoi, Run_handler Keyboard_isr]"
    by (subst c', simp add: user_cpu_def)+
  ultimately show ?thesis by blast
qed

end
