(* ===== verification/Sched_Preempt.thy ===== *)
theory Sched_Preempt
  imports Sched_Thread Arch_Entry
begin

text \<open>
  Preemption. A thread switched out by the timer's interrupt has its registers on its own
  stack, in the frame of the interrupt and in that of \<^verbatim>\<open>context_switch\<close>; other threads run until
  the scheduler comes round to it. This theory composes \<open>Arch_Entry\<close> with the scheduler: what the others may do
  is a step relation that leaves the bytes of the thread's stack alone.
\<close>

text \<open>Distances from two bases.\<close>

lemma unat_shift:
  fixes y b k :: u64
  assumes "unat (y - b) + unat k < 18446744073709551616" shows "unat (y - (b - k)) = unat (y - b) + unat k"
proof -
  have "y - (b - k) = (y - b) + k" by (simp add: algebra_simps)
  with unat_add_64 [OF assms] show ?thesis by (simp only:)
qed

section \<open>While a thread is switched out\<close>

definition untouched :: "u64 \<Rightarrow> u64 \<Rightarrow> mem \<Rightarrow> mem \<Rightarrow> bool" where
  "untouched lo n m m' \<longleftrightarrow> (\<forall>y. y - lo < n \<longrightarrow> m' y = m y)"

text \<open>
  What happens to the scheduler while thread \<open>t\<close> with the \<open>n\<close> bytes of stack at \<open>lo\<close> is switched out: the
  running thread computes, leaving those bytes alone; it prepares another thread's structure and adds a thread to the
  ring; the timer ticks and threads yield, without coming to \<open>t\<close>, from stacks that do not overlap.
\<close>

definition passes_by :: "u64 \<Rightarrow> u64 \<Rightarrow> u64 \<Rightarrow> sched \<Rightarrow> bool" where
  "passes_by t lo n s \<longleftrightarrow> succ_of s (current s) \<noteq> t \<and> block_clear lo n (rsp (sched_cpu s))"

inductive others :: "u64 \<Rightarrow> u64 \<Rightarrow> u64 \<Rightarrow> sched \<Rightarrow> sched \<Rightarrow> bool" for t lo n s where
  others_refl: "others t lo n s s"
| others_run: "others t lo n s s1 \<Longrightarrow> current s1 \<noteq> t \<Longrightarrow> untouched lo n (cpu_mem (sched_cpu s1)) (cpu_mem c) \<Longrightarrow>
    others t lo n s (s1\<lparr>sched_cpu := c\<rparr>)"
| others_prepare: "others t lo n s s1 \<Longrightarrow> current s1 \<noteq> t \<Longrightarrow> u \<noteq> t \<Longrightarrow>
    others t lo n s (s1\<lparr>threads := (threads s1)(u := r)\<rparr>)"
| others_add: "others t lo n s s1 \<Longrightarrow> current s1 \<noteq> t \<Longrightarrow> sched_add_thread s1 u = Some s2 \<Longrightarrow> others t lo n s s2"
| others_tick: "others t lo n s s1 \<Longrightarrow> current s1 \<noteq> t \<Longrightarrow> ticks_since_switch s1 < 9 \<or> passes_by t lo n s1 \<Longrightarrow>
    sched_tick s1 = Some s2 \<Longrightarrow> others t lo n s s2"
| others_yield: "others t lo n s s1 \<Longrightarrow> current s1 \<noteq> t \<Longrightarrow> passes_by t lo n s1 \<Longrightarrow>
    sched_yield s1 = Some s2 \<Longrightarrow> others t lo n s s2"

lemma untouched_refl [simp]: "untouched lo n m m"
  by (simp add: untouched_def)

lemma untouched_trans: "untouched lo n m m1 \<Longrightarrow> untouched lo n m1 m2 \<Longrightarrow> untouched lo n m m2"
  by (simp add: untouched_def)

text \<open>What \<open>t\<close> needs: its saved stack pointer and its bytes.\<close>

definition keeps_thread :: "u64 \<Rightarrow> u64 \<Rightarrow> u64 \<Rightarrow> sched \<Rightarrow> sched \<Rightarrow> bool" where
  "keeps_thread t lo n s s' \<longleftrightarrow> stack_pointer (threads s' t) = stack_pointer (threads s t) \<and>
     untouched lo n (cpu_mem (sched_cpu s)) (cpu_mem (sched_cpu s'))"

lemma keeps_thread_trans: "keeps_thread t lo n s s1 \<Longrightarrow> keeps_thread t lo n s1 s2 \<Longrightarrow> keeps_thread t lo n s s2"
  by (auto simp: keeps_thread_def intro: untouched_trans)

lemma lock_ready_some: "lock_ready s = Some r \<Longrightarrow> locked (ready_lock s) = 0"
  using lock_ready_held by fastforce

lemma context_switch_mem: "cpu_mem (snd (context_switch sp c)) = cpu_mem (push_callee_saved c)"
  by (simp add: context_switch_def ret_def pop_callee_saved_def pop_def Let_def)

lemma switch_keeps_thread:
  assumes "switch_to_next s = Some s'" "current s \<noteq> t" "block_clear lo n (rsp (sched_cpu s))"
  shows "keeps_thread t lo n s s'"
proof -
  have "locked (ready_lock s) = 0"
    using assms(1) lock_ready_some by (auto simp: switch_to_next_def select_next_def)
  then have "s' = finish_switch (current s) (succ_of s (current s)) (s\<lparr>current := succ_of s (current s)\<rparr>)"
    using assms(1) by (simp add: switch_to_next_def select_next_result)
  moreover have "untouched lo n (cpu_mem (sched_cpu s)) (cpu_mem (push_callee_saved (sched_cpu s)))"
    using block_clear_outside [OF assms(3)] push_callee_saved_outside by (auto simp: untouched_def)
  ultimately show ?thesis
    using assms(2) by (auto simp: keeps_thread_def finish_switch_def context_switch_mem case_prod_beta Let_def)
qed

lemma add_keeps_thread: "sched_add_thread s u = Some s' \<Longrightarrow> keeps_thread t lo n s s'"
  by (auto simp: sched_add_thread_def lock_ready_def unlock_result keeps_thread_def Let_def)

lemma tick_keeps_thread:
  assumes "sched_tick s = Some s'" "current s \<noteq> t" "ticks_since_switch s < 9 \<or> block_clear lo n (rsp (sched_cpu s))"
  shows "keeps_thread t lo n s s'"
proof (cases "10 \<le> ticks_since_switch s + 1")
  case True
  have "\<not> ticks_since_switch s < 9"
    using True by (auto simp: word_le_nat_alt word_less_nat_alt unat_add_64)
  then show ?thesis
    using switch_keeps_thread [of "s\<lparr>ticks_since_switch := ticks_since_switch s + 1\<rparr>" s' t lo n] assms True
    by (simp add: sched_tick_def keeps_thread_def)
qed (use assms(1) in \<open>auto simp: sched_tick_def keeps_thread_def\<close>)

lemma others_keep: "others t lo n s s' \<Longrightarrow> keeps_thread t lo n s s'"
proof (induction rule: others.induct)
  case (others_run s1 c)
  then show ?case by (auto simp: keeps_thread_def intro: untouched_trans)
next
  case (others_add s1 u s2)
  then show ?case using add_keeps_thread keeps_thread_trans by blast
next
  case (others_tick s1 s2)
  then show ?case using tick_keeps_thread keeps_thread_trans unfolding passes_by_def by blast
next
  case (others_yield s1 s2)
  then show ?case using switch_keeps_thread keeps_thread_trans unfolding passes_by_def sched_yield_def by blast
qed (auto simp: keeps_thread_def)

text \<open>A thread that is parked there stays parked.\<close>

lemma keeps_parked:
  assumes "keeps_thread t lo n s s'" "stack_pointer (threads s t) = lo" "56 \<le> n" "parked s t d pc"
  shows "parked s' t d pc"
proof -
  have "same_frame (cpu_mem (sched_cpu s)) (cpu_mem (sched_cpu s')) lo"
    using assms(1,3) by (auto simp: same_frame_def keeps_thread_def untouched_def)
  then show ?thesis using assms saved_at_same by (simp add: parked_def keeps_thread_def)
qed

section \<open>Away and back\<close>

lemma parked_sp:
  assumes "switch_to_next s = Some s1" "sched_inv s (t # x # ys)"
  shows "stack_pointer (threads s1 t) = rsp (sched_cpu s) - 48" "cpu_mem (sched_cpu s1) = cpu_mem (push_callee_saved (sched_cpu s))"
proof -
  have f: "current s = t" "succ_of s t = x" "x \<noteq> t" "locked (ready_lock s) = 0"
    using assms(2) by (auto simp: sched_inv_def Sched_Sched.ring_def)
  then show "stack_pointer (threads s1 t) = rsp (sched_cpu s) - 48" "cpu_mem (sched_cpu s1) = cpu_mem (push_callee_saved (sched_cpu s))"
    using assms(1) by (auto simp: switch_to_next_def select_next_result finish_switch_def context_switch_mem context_switch_fst
        case_prod_beta Let_def)
qed

lemma push_untouched:
  assumes "48 \<le> n"
  shows "y - rsp c < n - 48 \<Longrightarrow> y - (rsp c - 48) < n \<and> cpu_mem (push_callee_saved c) y = cpu_mem c y"
proof -
  assume y: "y - rsp c < n - 48"
  have "unat (y - rsp c) < unat n - 48" using y assms by (simp add: word_less_nat_alt word_le_nat_alt unat_sub_64)
  then have "unat (y - (rsp c - 48)) = unat (y - rsp c) + 48" "unat (y - rsp c) + 48 < unat n"
    using unat_lt_64 [of n] unat_shift [of y "rsp c" 48] by simp_all
  then show ?thesis using push_callee_saved_outside [of y c] by (simp add: word_less_nat_alt word_le_nat_alt)
qed

lemma switch_back:
  assumes s: "sched_inv s (t # x # ys)" "parked s x p pc" "frame_clear (stack_pointer (threads s x)) (rsp (sched_cpu s))"
    and s1: "switch_to_next s = Some s1"
    and k: "keeps_thread t (rsp (sched_cpu s) - 48) n s1 s2" and o: "56 \<le> n"
    and s2: "sched_inv s2 (y # t # zs)" "block_clear (rsp (sched_cpu s) - 48) n (rsp (sched_cpu s2))"
  shows "\<exists>s3. switch_to_next s2 = Some s3 \<and> sched_inv s3 (t # zs @ [y]) \<and>
    sched_cpu s3 = (sched_cpu s2)\<lparr>rsp := rsp (sched_cpu s) + 8, rbp := rbp (sched_cpu s), rbx := rbx (sched_cpu s),
      r12 := r12 (sched_cpu s), r13 := r13 (sched_cpu s), r14 := r14 (sched_cpu s), r15 := r15 (sched_cpu s),
      rip := load64 (cpu_mem (sched_cpu s)) (rsp (sched_cpu s)), cpu_mem := cpu_mem (sched_cpu s3)\<rparr> \<and>
    untouched (rsp (sched_cpu s)) (n - 48) (cpu_mem (sched_cpu s)) (cpu_mem (sched_cpu s3))"
proof -
  let ?c = "sched_cpu s" and ?ra = "load64 (cpu_mem (sched_cpu s)) (rsp (sched_cpu s))"
  have p1: "parked s1 t ?c ?ra" "cpu_mem (sched_cpu s1) = cpu_mem (push_callee_saved ?c)" "stack_pointer (threads s1 t) = rsp ?c - 48"
    using switch_result [OF s] s1 parked_sp [OF s1 s(1)] by (auto simp: sched_yield_def)
  have sp: "stack_pointer (threads s2 t) = rsp ?c - 48" using k p1(3) by (simp add: keeps_thread_def)
  have n: "48 \<le> n" using o by (simp add: word_le_nat_alt)
  have fc: "frame_clear (stack_pointer (threads s2 t)) (rsp (sched_cpu s2))"
    using s2(2) o unfolding sp frame_clear_block block_clear_def by (meson order_trans)
  obtain s3 where s3: "switch_to_next s2 = Some s3" "sched_inv s3 (t # zs @ [y])"
    "sched_cpu s3 = (sched_cpu s2)\<lparr>rsp := rsp ?c - 48 + 56, rbp := rbp ?c, rbx := rbx ?c, r12 := r12 ?c, r13 := r13 ?c,
      r14 := r14 ?c, r15 := r15 ?c, rip := ?ra, cpu_mem := cpu_mem (push_callee_saved (sched_cpu s2))\<rparr>"
    using switch_result [OF s2(1) keeps_parked [OF k p1(3) o p1(1)] fc] unfolding sp sched_yield_def by blast
  have "cpu_mem (sched_cpu s3) z = cpu_mem ?c z" if z: "z - rsp ?c < n - 48" for z
  proof -
    note a = push_untouched [OF n z]
    have "cpu_mem (sched_cpu s3) z = cpu_mem (sched_cpu s2) z"
      using push_callee_saved_outside block_clear_outside [OF s2(2)] a by (simp add: s3(3))
    also have "\<dots> = cpu_mem (sched_cpu s1) z" using k a by (simp add: keeps_thread_def untouched_def)
    finally show ?thesis using a p1(2) by simp
  qed
  then have "untouched (rsp ?c) (n - 48) (cpu_mem ?c) (cpu_mem (sched_cpu s3))" by (simp add: untouched_def)
  moreover have "cpu_mem (sched_cpu s3) = cpu_mem (push_callee_saved (sched_cpu s2))" by (simp add: s3(3))
  ultimately show ?thesis using s3 by simp
qed

section \<open>The interrupted code\<close>

definition to_cpu :: "icpu \<Rightarrow> cpu" where
  "to_cpu c = \<lparr>rsp = ic_regs c Rsp, rbp = ic_regs c Rbp, rbx = ic_regs c Rbx, r12 = ic_regs c R12, r13 = ic_regs c R13,
     r14 = ic_regs c R14, r15 = ic_regs c R15, rdi = ic_regs c Rdi, rip = ic_rip c, rflags = ic_rflags c, cpu_mem = ic_mem c\<rparr>"

lemma to_cpu_simps [simp]:
  "rsp (to_cpu c) = ic_regs c Rsp" "rbp (to_cpu c) = ic_regs c Rbp" "rbx (to_cpu c) = ic_regs c Rbx" "r12 (to_cpu c) = ic_regs c R12"
  "r13 (to_cpu c) = ic_regs c R13" "r14 (to_cpu c) = ic_regs c R14" "r15 (to_cpu c) = ic_regs c R15" "cpu_mem (to_cpu c) = ic_mem c"
  "rflags (to_cpu c) = ic_rflags c"
  by (simp_all add: to_cpu_def)

text \<open>
  The compiled code between the call of the dispatcher, entered in \<open>d\<close>, and the call of
  \<^verbatim>\<open>context_switch\<close>, entered in \<open>e\<close> with its return address on top of the stack, and from that return to the
  dispatcher's own: by the calling convention it leaves its caller's 176 bytes alone and, given back the
  registers a callee saves and its own part of the stack, ends with the stack pointer it was called with.
\<close>

definition calls_switch :: "icpu \<Rightarrow> icpu \<Rightarrow> (icpu \<Rightarrow> icpu) \<Rightarrow> bool" where
  "calls_switch d e leave \<longleftrightarrow>
     8 \<le> ic_regs d Rsp - ic_regs e Rsp \<and> ic_regs d Rsp - ic_regs e Rsp < 0x10000 \<and>
     untouched (ic_regs d Rsp) 176 (ic_mem d) (ic_mem e) \<and>
     (\<forall>e'. (\<forall>r \<in> callee_saved - {Rsp}. ic_regs e' r = ic_regs e r) \<longrightarrow> ic_regs e' Rsp = ic_regs e Rsp + 8 \<longrightarrow>
        untouched (ic_regs e Rsp) (ic_regs d Rsp - ic_regs e Rsp) (ic_mem e) (ic_mem e') \<longrightarrow>
        ic_regs (leave e') Rsp = ic_regs d Rsp \<and> untouched (ic_regs d Rsp) 176 (ic_mem e') (ic_mem (leave e')))"

text \<open>The bytes a preempted thread depends on: the frame of the switch, the dispatcher's, and the interrupted state.\<close>

definition preempted_bytes :: "icpu \<Rightarrow> icpu \<Rightarrow> u64" where
  "preempted_bytes d e = ic_regs d Rsp - ic_regs e Rsp + 224"

lemma untouched_parts:
  assumes u: "untouched a (k + 176) m m'" and k: "k < 0x10000"
  shows "untouched a k m m'" and "untouched (a + k) 176 m m'"
proof -
  have s: "unat (k + 176) = unat k + 176" using k by (simp add: unat_add_64 word_less_nat_alt)
  show "untouched a k m m'" using u by (simp add: untouched_def word_less_nat_alt s)
  have "y - a < k + 176" if y: "y - (a + k) < 176" for y
  proof -
    have "unat (y - a) = unat (y - (a + k)) + unat k"
      using y k unat_shift [of y "a + k" k] by (simp add: word_less_nat_alt)
    then show ?thesis using y by (simp add: word_less_nat_alt s)
  qed
  then show "untouched (a + k) 176 m m'" using u by (simp add: untouched_def)
qed

lemma untouched_frame:
  assumes "untouched a 176 m m'" "length vs = 22" shows "frame_at m' a vs = frame_at m a vs"
proof (rule frame_at_cong)
  show "8 * length vs < 2 ^ 63" using assms(2) by simp
  show "m' (a + i) = m (a + i)" if "unat i < 8 * length vs" for i
    using assms that by (simp add: untouched_def word_less_nat_alt)
qed

lemma dispatcher_returns:
  assumes d: "d = at_call rsp0 address v err resume c" and c: "calls_switch d e leave"
    and e': "\<forall>r \<in> callee_saved - {Rsp}. ic_regs e' r = ic_regs e r" "ic_regs e' Rsp = ic_regs e Rsp + 8"
    and u: "untouched (ic_regs e Rsp) (preempted_bytes d e - 48) (ic_mem e) (ic_mem e')"
  shows "frame_at (ic_mem (leave e')) (ic_regs (leave e') Rsp) (rev (frame_words v (error_code_of v err) resume c))"
proof -
  define k where "k = ic_regs d Rsp - ic_regs e Rsp"
  have k: "k < 0x10000" "ic_regs e Rsp + k = ic_regs d Rsp" using c by (simp_all add: calls_switch_def k_def)
  have "untouched (ic_regs e Rsp) (k + 176) (ic_mem e) (ic_mem e')" using u by (simp add: preempted_bytes_def k_def algebra_simps)
  note parts = untouched_parts [OF this k(1), unfolded k(2)]
  have l: "ic_regs (leave e') Rsp = ic_regs d Rsp" "untouched (ic_regs d Rsp) 176 (ic_mem e') (ic_mem (leave e'))"
    using c e' parts(1) unfolding calls_switch_def k_def by blast+
  moreover have "untouched (ic_regs d Rsp) 176 (ic_mem d) (ic_mem e)" using c by (simp add: calls_switch_def)
  ultimately have "untouched (ic_regs d Rsp) 176 (ic_mem d) (ic_mem (leave e'))"
    using parts(2) untouched_trans by blast
  from untouched_frame [OF this] show ?thesis
    using at_call_frame [of rsp0 address v err resume c] by (simp add: l(1) d at_call_simps(1) length_frame_words)
qed

section \<open>Properties\<close>


text \<open>
  At work: the bootstrap thread is preempted on its first tick, the thread created before runs, and the next switch leads back.
\<close>

definition preempted_cpu :: "mem \<Rightarrow> icpu" where
  "preempted_cpu m = \<lparr>ic_regs = (\<lambda>_. 7)(Rsp := 0xffffffff80010000, Rax := 0x1234), ic_rip = 0xffffffff80001000, ic_rflags = 0x202,
     ic_cs = 8, ic_ss = 0x10, ic_mem = m, ic_effects = []\<rparr>"

definition handler_called :: "mem \<Rightarrow> icpu" where
  "handler_called m = at_call 0 (demo_address (Irq_stub 0)) 32 0 False (preempted_cpu m)"

definition switch_called :: "mem \<Rightarrow> icpu" where
  "switch_called m = ipush 0xffffffff80004000 (handler_called m)"

definition of_cpu :: "cpu \<Rightarrow> icpu" where
  "of_cpu c = \<lparr>ic_regs = (\<lambda>_. 0xdead)(Rsp := rsp c, Rbp := rbp c, Rbx := rbx c, R12 := r12 c, R13 := r13 c, R14 := r14 c,
     R15 := r15 c, Rdi := rdi c), ic_rip = rip c, ic_rflags = rflags c, ic_cs = 8, ic_ss = 0x10, ic_mem = cpu_mem c, ic_effects = []\<rparr>"

lemma to_of_cpu: "to_cpu (of_cpu c) = c"
  by (simp add: to_cpu_def of_cpu_def)

lemma handler_called_rsp: "ic_regs (handler_called m) Rsp = 0xffffffff8000ff50"
  by (simp add: handler_called_def at_call_simps entry_stack_def ring_def preempted_cpu_def)

lemma preempted_mem: "ic_mem (preempted_cpu m) = m"
  by (simp add: preempted_cpu_def)

lemma switch_called_state:
  shows "ic_regs (switch_called m) Rsp = 0xffffffff8000ff48"
    and "184 \<le> y - 0xffffffff8000ff48 \<Longrightarrow> ic_mem (switch_called m) y = m y"
    and "calls_switch (handler_called m) (switch_called m) id"
proof -
  let ?ws = "frame_words 32 (error_code_of 32 0) False (preempted_cpu m) @ [0xffffffff80004000]"
  have "entry_stack 0 (preempted_cpu m) = 0xffffffff80010000" by (simp add: entry_stack_def ring_def preempted_cpu_def)
  then have m: "ic_mem (switch_called m) = push_words m 0xffffffff80010000 ?ws"
    by (simp add: switch_called_def pushed_def push_words_append handler_called_def at_call_simps length_frame_words preempted_mem)
  show "ic_mem (switch_called m) y = m y" if "184 \<le> y - 0xffffffff8000ff48"
    using push_words_outside [of ?ws y "0xffffffff80010000" m] that unfolding m by (simp add: length_frame_words)
  show r: "ic_regs (switch_called m) Rsp = 0xffffffff8000ff48"
    by (simp add: switch_called_def pushed_def handler_called_rsp)
  have "ic_mem (switch_called m) y = ic_mem (handler_called m) y" if "y - 0xffffffff8000ff50 < 176" for y
  proof -
    have "unat (y - 0xffffffff8000ff48) = unat (y - 0xffffffff8000ff50) + 8"
      using that unat_shift [of y "0xffffffff8000ff50" 8] by (simp add: word_less_nat_alt)
    then have "\<not> y - 0xffffffff8000ff48 < 8" by (simp add: word_less_nat_alt)
    then show ?thesis by (simp add: switch_called_def pushed_def handler_called_rsp store64_outside)
  qed
  then show "calls_switch (handler_called m) (switch_called m) id"
    by (simp add: calls_switch_def r handler_called_rsp untouched_def)
qed

text \<open>The scheduler once a second thread has been created, and its saved frame.\<close>

lemma demo_two_threads:
  obtains s t where "sched_inv s [0x1000, t]" "parked s t (first_regs 0xffffffff80003000 7 idle_cpu) 0xffffffff80002000"
    "stack_pointer (threads s t) = 0xffffffffb0004fc8"
    "rsp (sched_cpu s) = 0xffffffff80010000" "rflags (sched_cpu s) = 0x202"
proof -
  obtain t k' where c: "created demo_kernel [0x1000] 0xffffffff80002000 0xffffffff80003000 7 t k'"
    using demo_created by metis
  have b: "sched_cpu (k_sched demo_kernel) = idle_cpu" by (simp add: demo_kernel_def boot_sched_def sched_init_def)
  show thesis
    by (rule that [of "k_sched k'" t])
      (use c created_regs [OF c] in \<open>simp_all add: b created_def kernel_inv_def demo_kernel_def VMM_DYNAMIC_VBASE_def idle_cpu_def
          boot_sched_def sched_init_def\<close>)
qed


text \<open>
  C30: a thread that yielded with interrupts on can come back with interrupts off. \<^verbatim>\<open>context_switch\<close> leaves the flags
  alone, a handler runs with interrupts off, and a thread that gave up the processor by \<^verbatim>\<open>sched_yield\<close> has no frame of
  an interrupt to return through. When the tick that ends another thread's slice switches to it, it resumes after
  its call with all its callee-saved registers, and with the interrupt flag cleared.
\<close>

theorem yielded_thread_loses_interrupts:
  assumes "sched_inv s (t # x # ys)" and "rflags (sched_cpu s) AND 0x200 \<noteq> 0"
    and "parked s x p pc" and "frame_clear (stack_pointer (threads s x)) (rsp (sched_cpu s))"
    and "sched_yield s = Some s1" and "others t (rsp (sched_cpu s) - 48) 56 s1 s2"
    and "sched_inv s2 (y # t # zs)" and "block_clear (rsp (sched_cpu s) - 48) 56 (rsp (sched_cpu s2))"
    and "ticks_since_switch s2 = 9" and "rflags (sched_cpu s2) AND 0x200 = 0"
  shows "\<exists>s3. sched_tick s2 = Some s3 \<and> sched_inv s3 (t # zs @ [y]) \<and>
    sched_cpu s3 = (sched_cpu s)\<lparr>rsp := rsp (sched_cpu s) + 8, rip := load64 (cpu_mem (sched_cpu s)) (rsp (sched_cpu s)),
      rdi := rdi (sched_cpu s2), rflags := rflags (sched_cpu s2), cpu_mem := cpu_mem (sched_cpu s3)\<rparr> \<and>
    rflags (sched_cpu s3) AND 0x200 = 0"
proof -
  let ?s2 = "s2\<lparr>ticks_since_switch := 10\<rparr>" and ?r = "rsp (sched_cpu s)"
  have k: "keeps_thread t (?r - 48) 56 s1 ?s2"
    using others_keep [OF assms(6)] by (simp add: keeps_thread_def)
  have "sched_tick s2 = switch_to_next ?s2" using assms(9) by (simp add: sched_tick_def)
  then obtain s3 where s3: "sched_tick s2 = Some s3" "sched_inv s3 (t # zs @ [y])"
    "sched_cpu s3 = (sched_cpu s2)\<lparr>rsp := ?r + 8, rbp := rbp (sched_cpu s), rbx := rbx (sched_cpu s),
      r12 := r12 (sched_cpu s), r13 := r13 (sched_cpu s), r14 := r14 (sched_cpu s), r15 := r15 (sched_cpu s),
      rip := load64 (cpu_mem (sched_cpu s)) ?r, cpu_mem := cpu_mem (sched_cpu s3)\<rparr>"
    using switch_back [OF assms(1,3,4) assms(5) [unfolded sched_yield_def] k _ sched_inv_update(2) [THEN iffD2, OF assms(7)]] assms(8) by auto
  have "rflags (sched_cpu s3) = rflags (sched_cpu s2)" by (subst s3(3)) simp
  moreover have "sched_cpu s3 = (sched_cpu s)\<lparr>rsp := ?r + 8, rip := load64 (cpu_mem (sched_cpu s)) ?r,
      rdi := rdi (sched_cpu s2), rflags := rflags (sched_cpu s2), cpu_mem := cpu_mem (sched_cpu s3)\<rparr>"
    by (subst s3(3)) simp
  ultimately show ?thesis using s3(1,2) assms(10) by simp
qed

lemma others_ticks:
  assumes "others t lo n s s1" "current s1 \<noteq> t" "ticks_since_switch s1 = 0"
  shows "k \<le> 9 \<Longrightarrow> others t lo n s (s1\<lparr>ticks_since_switch := of_nat k\<rparr>)"
proof (induction k)
  case 0
  then show ?case using assms(1,3) by (cases s1) simp
next
  case (Suc k)
  have k: "unat (of_nat k :: u64) = k" using Suc.prems by (simp add: unat_of_nat_64)
  have "\<not> 10 \<le> (of_nat k + 1 :: u64)" using Suc.prems by (simp add: word_le_nat_alt unat_add_64 k)
  then have "sched_tick (s1\<lparr>ticks_since_switch := of_nat k\<rparr>) = Some (s1\<lparr>ticks_since_switch := of_nat (Suc k)\<rparr>)"
    by (simp add: sched_tick_def add.commute)
  moreover have "(of_nat k :: u64) < 9" using Suc.prems by (simp add: word_less_nat_alt k)
  ultimately show ?case using Suc assms(2) by (intro others_tick [OF Suc.IH]) simp_all
qed

theorem yielded_thread_loses_interrupts_witness:
  "\<exists>s t s1 s2 s3. rflags (sched_cpu s) = 0x202 \<and> sched_yield s = Some s1 \<and> current s1 = t \<and> t \<noteq> 0x1000 \<and>
     others 0x1000 0xffffffff8000ffd0 56 s1 s2 \<and> sched_tick s2 = Some s3 \<and>
     current s3 = 0x1000 \<and> rflags (sched_cpu s3) AND 0x200 = 0"
proof -
  obtain s t where s: "sched_inv s [0x1000, t]" "parked s t (first_regs 0xffffffff80003000 7 idle_cpu) 0xffffffff80002000"
    "stack_pointer (threads s t) = 0xffffffffb0004fc8" "rsp (sched_cpu s) = 0xffffffff80010000" "rflags (sched_cpu s) = 0x202"
    by (rule demo_two_threads)
  have f: "frame_clear (stack_pointer (threads s t)) (rsp (sched_cpu s))" by (simp add: s(3,4) frame_clear_def)
  obtain s1 where s1: "sched_yield s = Some s1" "sched_inv s1 [t, 0x1000]" "rsp (sched_cpu s1) = 0xffffffffb0005000"
    using switch_result [OF s(1,2) f] by (auto simp: s(3))
  have z: "ticks_since_switch s1 = 0" "current s1 = t" "t \<noteq> 0x1000"
    using switch_to_next_inv [OF s(1)] s1(1,2) by (auto simp: sched_yield_def sched_inv_def Sched_Sched.ring_def)
  define s2 where "s2 = s1\<lparr>ticks_since_switch := 9, sched_cpu := (sched_cpu s1)\<lparr>rflags := 0\<rparr>\<rparr>"
  have o: "others 0x1000 (rsp (sched_cpu s) - 48) 56 s1 s2"
    using others_run [OF others_ticks [OF others_refl, of s1 "0x1000" 9 "rsp (sched_cpu s) - 48" 56],
        of "(sched_cpu s1)\<lparr>rflags := 0\<rparr>"] z by (simp add: s2_def)
  have i: "sched_inv s2 [t, 0x1000]" using s1(2) by (simp add: s2_def)
  have b: "block_clear (rsp (sched_cpu s) - 48) 56 (rsp (sched_cpu s2))" by (simp add: block_clear_def s(4) s1(3) s2_def)
  have g: "rflags (sched_cpu s) AND 0x200 \<noteq> 0" "ticks_since_switch s2 = 9" "rflags (sched_cpu s2) AND 0x200 = 0"
    by (simp_all add: s(5) s2_def)
  obtain s3 where "sched_tick s2 = Some s3" "sched_inv s3 [0x1000, t]" "rflags (sched_cpu s3) AND 0x200 = 0"
    using yielded_thread_loses_interrupts [OF s(1) g(1) s(2) f s1(1) o i b g(2,3)] by auto
  moreover from this have "current s3 = 0x1000" by (simp add: sched_inv_def)
  ultimately show ?thesis
    using s(4,5) s1(1) z(2,3) o by (intro exI [of _ s] exI [of _ t] exI [of _ s1] exI [of _ s2] exI [of _ s3]) simp
qed

end
