(* ===== verification/Acpi_Tables.thy ===== *)
theory Acpi_Tables
  imports Boot_Info
begin

text \<open>
  \<^verbatim>\<open>kernel/acpi/acpi.h\<close> and \<^verbatim>\<open>acpi.c\<close>: validating the RSDP and the root table the
  firmware left in memory and finding a table by its signature. Tables are bytes of memory,
  read through the direct map at the offsets of the packed structures.
\<close>

section \<open>State and operations\<close>

abbreviation (input) SIZEOF_HEADER :: u32 where "SIZEOF_HEADER \<equiv> 36"

record acpi =
  acpi_hhdm_offset :: u64
  root_table :: u64
  root_entry_count :: u32
  root_entries_are_64bit :: bool

definition acpi_phys_to_virt :: "acpi \<Rightarrow> u64 \<Rightarrow> u64" where
  "acpi_phys_to_virt s phys = phys + acpi_hhdm_offset s"

text \<open>The loop of \<^verbatim>\<open>checksum_ok\<close>.\<close>

function checksum_from :: "mem \<Rightarrow> u64 \<Rightarrow> u32 \<Rightarrow> u32 \<Rightarrow> u8 \<Rightarrow> u8" where
  "checksum_from m data i n acc =
     (if i < n then checksum_from m data (i + 1) n (acc + m (data + ucast i)) else acc)"
  by pat_completeness auto
termination
  by (relation "measure (\<lambda>(m, a, i, n, s). unat n - unat i)")
    (auto simp: word_less_nat_alt unat_plus_one_32)

declare checksum_from.simps [simp del]

definition checksum_ok :: "mem \<Rightarrow> u64 \<Rightarrow> u32 \<Rightarrow> bool" where
  "checksum_ok m data n \<longleftrightarrow> checksum_from m data 0 n 0 = 0"

text \<open>\<^verbatim>\<open>memcmp(table->signature, signature, n) == 0\<close> for a literal of \<open>n\<close> characters.\<close>

definition signature_is :: "mem \<Rightarrow> u64 \<Rightarrow> string \<Rightarrow> bool" where
  "signature_is m a sig \<longleftrightarrow> list_all (\<lambda>i. m (a + of_nat i) = of_char (sig ! i)) [0..<length sig]"

definition rsdp_revision :: "mem \<Rightarrow> u64 \<Rightarrow> u8" where "rsdp_revision m p = m (p + 15)"
definition rsdp_rsdt_address :: "mem \<Rightarrow> u64 \<Rightarrow> u32" where "rsdp_rsdt_address m p = load32 m (p + 16)"
definition rsdp_xsdt_address :: "mem \<Rightarrow> u64 \<Rightarrow> u64" where "rsdp_xsdt_address m p = load64 m (p + 24)"
definition table_length :: "mem \<Rightarrow> u64 \<Rightarrow> u32" where "table_length m t = load32 m (t + 4)"

definition acpi_init :: "limine_responses \<Rightarrow> mem \<Rightarrow> acpi \<Rightarrow> acpi kresult" where
  "acpi_init lim m s =
     (case boot_get_hhdm_offset lim of
        Inl e \<Rightarrow> Inl e
      | Inr off \<Rightarrow>
          let s1 = s\<lparr>acpi_hhdm_offset := off\<rparr>
          in (case boot_get_rsdp lim of
               None \<Rightarrow> Inl (Panic ''acpi: bootloader did not answer the RSDP request'' [])
             | Some rsdp \<Rightarrow>
                 if \<not> signature_is m rsdp ''RSD PTR '' then Inl (Panic ''acpi: RSDP signature mismatch'' [])
                 else if \<not> checksum_ok m rsdp 20 then Inl (Panic ''acpi: RSDP (v1) checksum mismatch'' [])
                 else if 2 \<le> rsdp_revision m rsdp \<and> checksum_ok m rsdp 36 then
                   let xsdt = acpi_phys_to_virt s1 (rsdp_xsdt_address m rsdp)
                   in if \<not> signature_is m xsdt ''XSDT'' \<or> \<not> checksum_ok m xsdt (table_length m xsdt)
                      then Inl (Panic ''acpi: XSDT signature or checksum mismatch'' [])
                      else Inr (s1\<lparr>root_table := xsdt,
                             root_entry_count := (table_length m xsdt - SIZEOF_HEADER) div 8,
                             root_entries_are_64bit := True\<rparr>)
                 else
                   let rsdt = acpi_phys_to_virt s1 (ucast (rsdp_rsdt_address m rsdp))
                   in if \<not> signature_is m rsdt ''RSDT'' \<or> \<not> checksum_ok m rsdt (table_length m rsdt)
                      then Inl (Panic ''acpi: RSDT signature or checksum mismatch'' [])
                      else Inr (s1\<lparr>root_table := rsdt,
                             root_entry_count := (table_length m rsdt - SIZEOF_HEADER) div 4,
                             root_entries_are_64bit := False\<rparr>)))"

text \<open>The \<open>i\<close>-th entry of the root table; the offset is computed in 32 bits.\<close>

definition root_entry :: "mem \<Rightarrow> acpi \<Rightarrow> u32 \<Rightarrow> u64" where
  "root_entry m s i =
     (let entries = root_table s + ucast SIZEOF_HEADER
      in if root_entries_are_64bit s then load64 m (entries + ucast (i * 8))
         else ucast (load32 m (entries + ucast (i * 4))))"

function find_table_from :: "mem \<Rightarrow> acpi \<Rightarrow> string \<Rightarrow> u32 \<Rightarrow> u64 kresult" where
  "find_table_from m s sig i =
     (if i < root_entry_count s then
        let table = acpi_phys_to_virt s (root_entry m s i)
        in if signature_is m table sig then
             (if \<not> checksum_ok m table (table_length m table)
              then Inl (Panic ''acpi: %s table checksum mismatch'' [])
              else Inr table)
           else find_table_from m s sig (i + 1)
      else Inr 0)"
  by pat_completeness auto
termination
  by (relation "measure (\<lambda>(m, s, sig, i). unat (root_entry_count s) - unat i)")
    (auto simp: word_less_nat_alt unat_plus_one_32)

declare find_table_from.simps [simp del]

definition acpi_find_table :: "mem \<Rightarrow> acpi \<Rightarrow> string \<Rightarrow> u64 kresult" where
  "acpi_find_table m s sig = find_table_from m s sig 0"

section \<open>Checksums and lookups\<close>

lemma checksum_from_sum:
  "checksum_from m data i n acc =
     acc + (\<Sum>k \<in> {unat i..<unat n}. m (data + of_nat k))"
proof (induction m data i n acc rule: checksum_from.induct)
  case (1 m data i n acc)
  show ?case
  proof (cases "i < n")
    case True
    then have u: "unat (i + 1) = Suc (unat i)" "unat i < unat n" by (simp_all add: unat_plus_one_32 word_less_nat_alt)
    have "ucast i = (of_nat (unat i) :: u64)" by simp
    then show ?thesis
      using 1 [OF True] True u by (subst checksum_from.simps) (simp add: sum.atLeast_Suc_lessThan add.assoc)
  next
    case False
    then show ?thesis by (subst checksum_from.simps) (simp add: word_less_nat_alt)
  qed
qed

lemma checksum_ok_sum:
  "checksum_ok m data n \<longleftrightarrow> (\<Sum>k<unat n. m (data + of_nat k)) = 0"
  by (simp add: checksum_ok_def checksum_from_sum lessThan_atLeast0)

definition root_table_entry :: "mem \<Rightarrow> acpi \<Rightarrow> u32 \<Rightarrow> u64" where
  "root_table_entry m s i = acpi_phys_to_virt s (root_entry m s i)"

definition table_valid :: "mem \<Rightarrow> u64 \<Rightarrow> bool" where
  "table_valid m t \<longleftrightarrow> (\<Sum>k<unat (table_length m t). m (t + of_nat k)) = 0"

lemma find_table_from_result:
  "case find_table_from m s sig i of
     Inl e \<Rightarrow> e = Panic ''acpi: %s table checksum mismatch'' [] \<and>
       (\<exists>j. i \<le> j \<and> j < root_entry_count s \<and> signature_is m (root_table_entry m s j) sig \<and>
          \<not> table_valid m (root_table_entry m s j) \<and>
          (\<forall>k. i \<le> k \<and> k < j \<longrightarrow> \<not> signature_is m (root_table_entry m s k) sig))
   | Inr t \<Rightarrow>
       (\<exists>j. i \<le> j \<and> j < root_entry_count s \<and> t = root_table_entry m s j \<and> signature_is m t sig \<and>
          table_valid m t \<and> (\<forall>k. i \<le> k \<and> k < j \<longrightarrow> \<not> signature_is m (root_table_entry m s k) sig)) \<or>
       t = 0 \<and> (\<forall>j. i \<le> j \<and> j < root_entry_count s \<longrightarrow> \<not> signature_is m (root_table_entry m s j) sig)"
  (is "?P i")
proof (induction m s sig i rule: find_table_from.induct)
  case (1 m s sig i)
  let ?t = "root_table_entry m s i" and ?is = "\<lambda>j. signature_is m (root_table_entry m s j) sig"
  note step = find_table_from.simps [of m s sig i, folded root_table_entry_def, unfolded Let_def checksum_ok_sum,
      folded table_valid_def]
  show ?case
  proof (cases "i < root_entry_count s \<and> \<not> ?is i")
    case False
    then show ?thesis unfolding step by (cases "i < root_entry_count s") (auto intro!: exI [of _ i])
  next
    case True
    then have eq: "find_table_from m s sig i = find_table_from m s sig (i + 1)" unfolding step by simp
    have split: "i \<le> k \<longleftrightarrow> k = i \<or> i + 1 \<le> k" for k
      using unat_plus_one_32 [of i "root_entry_count s"] True
      by (auto simp: word_le_nat_alt word_unat_eq_iff)
    have "\<And>k. i + 1 \<le> k \<Longrightarrow> i \<le> k" using split by blast
    moreover note IH = 1 [unfolded root_table_entry_def [symmetric], OF _ refl]
    ultimately show ?thesis
      using True IH unfolding eq by (auto simp: split root_table_entry_def split: sum.splits)
  qed
qed

section \<open>A small machine\<close>

text \<open>Memory holding given bytes from an address on.\<close>

definition bytes_at :: "u64 \<Rightarrow> u8 list \<Rightarrow> mem \<Rightarrow> mem" where
  "bytes_at a bs m = (\<lambda>x. if x - a < of_nat (length bs) then bs ! unat (x - a) else m x)"

text \<open>An ACPI 1.0 RSDP at 0x1000 that names an RSDT at 0x2000 with one table, a MADT at 0x3000.\<close>

definition demo_acpi_mem :: mem where
  "demo_acpi_mem =
     bytes_at 0x1000 (map of_char ''RSD PTR '' @ [0xc1, 0, 0, 0, 0, 0, 0, 0, 0, 0x20, 0, 0])
       (bytes_at 0x2000 (map of_char ''RSDT'' @ [40, 0, 0, 0, 1, 0x6a] @ replicate 26 0 @ [0, 0x30, 0, 0])
         (bytes_at 0x3000 (map of_char ''APIC'' @ [64, 0, 0, 0, 1, 0xec] @ replicate 26 0 @
             [0, 0, 0xe0, 0xfe, 0, 0, 0, 0, 0, 8, 1, 1, 1, 0, 0, 0, 1, 12, 2, 0, 0, 0, 0xc0, 0xfe, 0, 0, 0, 0])
           (\<lambda>_. 0)))"

definition demo_acpi_responses :: limine_responses where
  "demo_acpi_responses = \<lparr>framebuffer_response = None, hhdm_response = Some 0, memmap_response = None,
     executable_address_response = None, rsdp_response = Some 0x1000\<rparr>"

definition acpi_blank :: acpi where
  "acpi_blank = \<lparr>acpi_hhdm_offset = 0, root_table = 0, root_entry_count = 0, root_entries_are_64bit = False\<rparr>"

lemma demo_acpi_init:
  "acpi_init demo_acpi_responses demo_acpi_mem acpi_blank =
     Inr \<lparr>acpi_hhdm_offset = 0, root_table = 0x2000, root_entry_count = 1, root_entries_are_64bit = False\<rparr>"
  by code_simp

section \<open>Properties\<close>

text \<open>
  C33: what a started ACPI layer rests on. When \<^verbatim>\<open>acpi_init\<close> does not panic, the RSDP the
  bootloader reported has the right signature and its first twenty bytes sum to zero; the root
  table has the signature of its kind and sums to zero over its whole length; and the 64-bit table
  is used exactly when the RSDP is of revision 2 or later and all its 36 bytes sum to zero. The
  entry count is computed without a lower bound on the length: a root table shorter than its own
  header, length 0 included, leaves more than 536 million entries to search.
\<close>

theorem acpi_init_validates:
  assumes "acpi_init lim m s = Inr s'"
  shows "\<exists>rsdp. boot_get_rsdp lim = Some rsdp \<and> boot_get_hhdm_offset lim = Inr (acpi_hhdm_offset s') \<and>
    signature_is m rsdp ''RSD PTR '' \<and> (\<Sum>k<20. m (rsdp + of_nat k)) = 0 \<and>
    signature_is m (root_table s') (if root_entries_are_64bit s' then ''XSDT'' else ''RSDT'') \<and>
    table_valid m (root_table s') \<and>
    (root_entries_are_64bit s' \<longleftrightarrow> 2 \<le> rsdp_revision m rsdp \<and> (\<Sum>k<36. m (rsdp + of_nat k)) = 0) \<and>
    (table_length m (root_table s') < 36 \<longrightarrow> 536870907 \<le> root_entry_count s')"
proof -
  have d: "536870907 \<le> (n - 36) div 8 \<and> 536870907 \<le> (n - 36) div 4" if "n < (36 :: u32)" for n
  proof -
    have "unat (36 - n) = 36 - unat n" "unat n < 36" using that by (simp_all add: unat_sub word_less_nat_alt word_le_nat_alt)
    then have "unat (n - 36) = 2 ^ 32 - (36 - unat n)"
      by (simp add: unat_sub_if_size word_size)
    then have "2 ^ 32 - 36 \<le> unat (n - 36)" by simp
    then have "536870907 \<le> unat (n - 36) div 8" "536870907 \<le> unat (n - 36) div 4" by simp_all
    then show ?thesis by (simp add: word_le_nat_alt unat_div)
  qed
  obtain off rsdp where o: "boot_get_hhdm_offset lim = Inr off" "boot_get_rsdp lim = Some rsdp"
    using assms by (auto simp: acpi_init_def Let_def split: sum.splits option.splits)
  then show ?thesis
    using assms d unfolding acpi_init_def Let_def
    by (auto simp: checksum_ok_sum table_valid_def acpi_phys_to_virt_def split: if_splits)
qed

theorem acpi_init_validates_witness:
  "\<exists>s'. acpi_init demo_acpi_responses demo_acpi_mem acpi_blank = Inr s' \<and> table_valid demo_acpi_mem (root_table s') \<and>
     signature_is demo_acpi_mem (root_table s') ''RSDT''"
  using acpi_init_validates [OF demo_acpi_init] demo_acpi_init by auto


lemma demo_find: "acpi_find_table demo_acpi_mem
    \<lparr>acpi_hhdm_offset = 0, root_table = 0x2000, root_entry_count = 1, root_entries_are_64bit = False\<rparr> ''APIC'' =
    Inr 0x3000"
  by code_simp


end
