(* ===== verification/Acpi_Madt.thy ===== *)
theory Acpi_Madt
  imports Acpi_Tables
begin

text \<open>
  \<^verbatim>\<open>kernel/acpi/madt.c\<close>: reading the interrupt controllers and processors from the
  Multiple APIC Description Table, a stream of variable-length entries. The loop is modelled
  over addresses as the code has it; it is proved to end, and to read back exactly what a
  firmware encodes, whatever unknown entries stand between.
\<close>

section \<open>Parsing\<close>

abbreviation (input) SIZEOF_MADT :: u64 where "SIZEOF_MADT \<equiv> 44"

record madt_info =
  local_apic_address :: u64
  enabled_cpu_count :: u32
  have_ioapic :: bool
  ioapic_address :: u64
  ioapic_gsi_base :: u32

definition zero_madt :: madt_info where
  "zero_madt = \<lparr>local_apic_address = 0, enabled_cpu_count = 0, have_ioapic = False, ioapic_address = 0,
     ioapic_gsi_base = 0\<rparr>"

text \<open>What one entry at \<open>cursor\<close> does to the result.\<close>

definition madt_entry_step :: "mem \<Rightarrow> u64 \<Rightarrow> madt_info \<Rightarrow> madt_info" where
  "madt_entry_step m cursor out =
     (if m cursor = 0 then
        (if load32 m (cursor + 4) AND 1 \<noteq> 0 then out\<lparr>enabled_cpu_count := enabled_cpu_count out + 1\<rparr> else out)
      else if m cursor = 1 \<and> \<not> have_ioapic out then
        out\<lparr>have_ioapic := True, ioapic_address := ucast (load32 m (cursor + 4)),
            ioapic_gsi_base := load32 m (cursor + 8)\<rparr>
      else out)"

text \<open>The loop; \<open>None\<close> if it does not end.\<close>

partial_function (option) madt_loop :: "mem \<Rightarrow> u64 \<Rightarrow> u64 \<Rightarrow> madt_info \<Rightarrow> madt_info option" where
  "madt_loop m cursor end_addr out =
     (if cursor + 2 \<le> end_addr then
        let entry_length = (ucast (m (cursor + 1)) :: u64)
        in if entry_length = 0 \<or> cursor + entry_length > end_addr then Some out
           else madt_loop m (cursor + entry_length) end_addr (madt_entry_step m cursor out)
      else Some out)"

definition madt_parse :: "mem \<Rightarrow> acpi \<Rightarrow> (bool \<times> madt_info) kresult option" where
  "madt_parse m s =
     (case acpi_find_table m s ''APIC'' of
        Inl e \<Rightarrow> Some (Inl e)
      | Inr table \<Rightarrow>
          if table = 0 then Some (Inr (False, zero_madt))
          else
            let out = zero_madt\<lparr>local_apic_address := ucast (load32 m (table + 36))\<rparr>
            in map_option (\<lambda>out1. Inr (True, out1))
                 (madt_loop m (table + SIZEOF_MADT) (table + ucast (table_length m table)) out))"

section \<open>What a firmware encodes\<close>

datatype madt_entry =
    Local_apic u8 u8 u32
  | Io_apic u8 u32 u32
  | Other_entry u8 "u8 list"

definition bytes32 :: "u32 \<Rightarrow> u8 list" where
  "bytes32 v = [ucast v, ucast (drop_bit 8 v), ucast (drop_bit 16 v), ucast (drop_bit 24 v)]"

fun encode :: "madt_entry \<Rightarrow> u8 list" where
  "encode (Local_apic pid aid flags) = [0, 8, pid, aid] @ bytes32 flags"
| "encode (Io_apic i addr gsi) = [1, 12, i, 0] @ bytes32 addr @ bytes32 gsi"
| "encode (Other_entry t body) = [t, of_nat (length body + 2)] @ body"

fun entry_ok :: "madt_entry \<Rightarrow> bool" where
  "entry_ok (Other_entry t body) \<longleftrightarrow> t \<noteq> 0 \<and> t \<noteq> 1 \<and> length body \<le> 253"
| "entry_ok _ \<longleftrightarrow> True"

fun absorb_entry :: "madt_entry \<Rightarrow> madt_info \<Rightarrow> madt_info" where
  "absorb_entry (Local_apic pid aid flags) out =
     (if flags AND 1 \<noteq> 0 then out\<lparr>enabled_cpu_count := enabled_cpu_count out + 1\<rparr> else out)"
| "absorb_entry (Io_apic i addr gsi) out =
     (if have_ioapic out then out
      else out\<lparr>have_ioapic := True, ioapic_address := ucast addr, ioapic_gsi_base := gsi\<rparr>)"
| "absorb_entry (Other_entry t body) out = out"

text \<open>The bytes of a list from an address on.\<close>

definition holds :: "mem \<Rightarrow> u64 \<Rightarrow> u8 list \<Rightarrow> bool" where
  "holds m a bs \<longleftrightarrow> (\<forall>i < length bs. m (a + of_nat i) = bs ! i)"

lemma holds_append: "holds m a (xs @ ys) \<longleftrightarrow> holds m a xs \<and> holds m (a + of_nat (length xs)) ys"
proof -
  have "(\<forall>i < length xs + length ys. m (a + of_nat i) = (xs @ ys) ! i) \<longleftrightarrow>
      (\<forall>i < length xs. m (a + of_nat i) = xs ! i) \<and> (\<forall>j < length ys. m (a + of_nat (length xs + j)) = ys ! j)"
    (is "?l \<longleftrightarrow> ?r")
  proof
    assume ?l
    then show ?r by (auto simp: nth_append dest: spec [of _ "length xs + _"])
  next
    assume r: ?r
    show ?l
    proof (intro allI impI)
      fix i assume "i < length xs + length ys"
      then show "m (a + of_nat i) = (xs @ ys) ! i"
        using r by (cases "i < length xs") (auto simp: nth_append dest: spec [of _ "i - length xs"])
    qed
  qed
  then show ?thesis by (simp add: holds_def add.assoc)
qed

lemma holds_Cons: "holds m a (x # xs) \<longleftrightarrow> m a = x \<and> holds m (a + 1) xs"
  using holds_append [of m a "[x]" xs] by (simp add: holds_def)

lemma holds_Nil: "holds m a []"
  by (simp add: holds_def)

lemma load32_bytes32: "holds m a (bytes32 v) \<Longrightarrow> load32 m a = v"
proof -
  assume "holds m a (bytes32 v)"
  then have b: "m a = ucast v" "m (a + 1) = ucast (drop_bit 8 v)" "m (a + 2) = ucast (drop_bit 16 v)"
    "m (a + 3) = ucast (drop_bit 24 v)"
    by (simp_all add: bytes32_def holds_Cons add.assoc)
  show "load32 m a = v"
  proof (rule bit_word_eqI)
    fix n assume "n < LENGTH(32)"
    then consider "n < 8" | "8 \<le> n" "n < 16" | "16 \<le> n" "n < 24" | "24 \<le> n" "n < 32" by force
    then show "bit (load32 m a) n = bit v n" by cases (auto simp: load32_def b bit_simps)
  qed
qed

lemma length_bytes32: "length (bytes32 v) = 4"
  by (simp add: bytes32_def)

lemma encode_length:
  assumes "entry_ok e" shows "2 \<le> length (encode e)" "length (encode e) \<le> 255"
  using assms by (cases e; simp add: bytes32_def)+

lemma encode_header:
  assumes "entry_ok e" "holds m a (encode e)"
  shows "unat (m (a + 1)) = length (encode e)"
proof (cases e)
  case (Other_entry t body)
  then have "m (a + 1) = of_nat (length body + 2)" "length body \<le> 253"
    using assms by (simp_all add: holds_Cons)
  moreover have "unat (of_nat (length body + 2) :: u8) = length body + 2"
    using calculation(2) by (simp add: unat_of_nat del: of_nat_add of_nat_Suc)
  ultimately show ?thesis by (simp only: Other_entry encode.simps) simp
qed (use assms in \<open>simp_all add: holds_Cons bytes32_def\<close>)

lemma step_encode:
  assumes "entry_ok e" "holds m a (encode e)"
  shows "madt_entry_step m a out = absorb_entry e out"
proof (cases e)
  case (Local_apic pid aid flags)
  then have "holds m (a + 4) (bytes32 flags)" "m a = 0" using assms(2) by (simp_all add: holds_Cons add.assoc)
  then show ?thesis using load32_bytes32 by (simp add: Local_apic madt_entry_step_def)
next
  case (Io_apic i addr gsi)
  then have "holds m (a + 4) (bytes32 addr)" "holds m (a + 8) (bytes32 gsi)" "m a = 1"
    using assms(2) by (simp_all add: holds_Cons holds_append add.assoc length_bytes32)
  then show ?thesis using load32_bytes32 by (simp add: Io_apic madt_entry_step_def)
next
  case (Other_entry t body)
  then show ?thesis using assms by (simp add: madt_entry_step_def holds_Cons)
qed

section \<open>The loop\<close>

lemma madt_loop_encoded:
  assumes "\<forall>e \<in> set es. entry_ok e" "holds m a (concat (map encode es))"
    and "unat end_addr = unat a + length (concat (map encode es))" "unat end_addr + 256 \<le> 2 ^ 64"
  shows "madt_loop m a end_addr out = Some (fold absorb_entry es out)"
  using assms
proof (induction es arbitrary: a out)
  case Nil
  then have "unat (a + 2) = unat a + 2" "end_addr = a" by (simp_all add: unat_add_64 word_unat_eq_iff)
  then have "\<not> a + 2 \<le> end_addr" by (simp add: word_le_nat_alt)
  then show ?case by (simp add: madt_loop.simps [of m a])
next
  case (Cons e es)
  let ?L = "length (encode e)"
  have ok: "entry_ok e" "holds m a (encode e)" "holds m (a + of_nat ?L) (concat (map encode es))"
    using Cons.prems by (simp_all add: holds_append)
  note L = encode_length [OF ok(1)] and hd = encode_header [OF ok(1,2)]
  have l: "ucast (m (a + 1)) = (of_nat ?L :: u64)" unfolding hd [symmetric] by simp
  have u: "unat (a + of_nat ?L) = unat a + ?L" "unat (a + 2) = unat a + 2"
    using Cons.prems(3,4) L by (simp_all add: unat_add_of_nat_64 unat_add_64)
  have "a + 2 \<le> end_addr" "(of_nat ?L :: u64) \<noteq> 0" "\<not> end_addr < a + of_nat ?L"
    using Cons.prems(3) L u unat_of_nat_64 [of ?L]
    by (auto simp: word_le_nat_alt word_less_nat_alt word_unat_eq_iff)
  then have "madt_loop m a end_addr out = madt_loop m (a + of_nat ?L) end_addr (absorb_entry e out)"
    unfolding step_encode [OF ok(1,2), symmetric] by (subst madt_loop.simps) (simp add: l)
  also have "\<dots> = Some (fold absorb_entry es (absorb_entry e out))"
    using Cons.prems u by (intro Cons.IH) (simp_all add: ok)
  finally show ?case by simp
qed

lemma madt_loop_ends:
  assumes "unat a \<le> unat end_addr" "unat end_addr + 256 \<le> 2 ^ 64"
  shows "\<exists>r. madt_loop m a end_addr out = Some r"
  using assms
proof (induction "unat end_addr - unat a" arbitrary: a out rule: less_induct)
  case less
  let ?l = "ucast (m (a + 1)) :: u64"
  have s: "unat ?l < 256" unfolding unat_ucast_8_64 by (rule unat_lt_8)
  then have u: "unat (a + ?l) = unat a + unat ?l" using less.prems by (simp add: unat_add_64)
  show ?case
  proof (cases "a + 2 \<le> end_addr \<and> ?l \<noteq> 0 \<and> a + ?l \<le> end_addr")
    case True
    then have "unat (a + ?l) \<le> unat end_addr" "unat end_addr - unat (a + ?l) < unat end_addr - unat a"
      using u unfolding word_le_nat_alt by (auto simp: unat_eq_0 [symmetric] word_le_nat_alt)
    then have "\<exists>r. madt_loop m (a + ?l) end_addr (madt_entry_step m a out) = Some r"
      using less.hyps less.prems(2) by blast
    then show ?thesis using True by (subst madt_loop.simps) (simp add: Let_def not_less [symmetric])
  next
    case False
    then show ?thesis by (subst madt_loop.simps) (auto simp: not_less Let_def)
  qed
qed

section \<open>Properties\<close>

fun enabled_lapic :: "madt_entry \<Rightarrow> bool" where
  "enabled_lapic (Local_apic pid aid flags) \<longleftrightarrow> flags AND 1 \<noteq> 0"
| "enabled_lapic _ \<longleftrightarrow> False"

fun first_ioapic :: "madt_entry list \<Rightarrow> (u32 \<times> u32) option" where
  "first_ioapic [] = None"
| "first_ioapic (Io_apic i addr gsi # es) = Some (addr, gsi)"
| "first_ioapic (e # es) = first_ioapic es"

lemma absorb_keeps:
  "local_apic_address (fold absorb_entry es out) = local_apic_address out"
  "have_ioapic out \<Longrightarrow> have_ioapic (fold absorb_entry es out) \<and>
     ioapic_address (fold absorb_entry es out) = ioapic_address out \<and>
     ioapic_gsi_base (fold absorb_entry es out) = ioapic_gsi_base out"
proof (induction es arbitrary: out)
  case (Cons e es)
  { case 1 show ?case using Cons(1) by (cases e) auto }
  { case 2 then show ?case using Cons(2) [of "absorb_entry e out"] by (cases e) auto }
qed simp_all

lemma absorb_count:
  "enabled_cpu_count (fold absorb_entry es out) =
     enabled_cpu_count out + of_nat (length (filter enabled_lapic es))"
proof (induction es arbitrary: out)
  case (Cons e es)
  then show ?case by (cases e) auto
qed simp

lemma absorb_ioapic:
  "\<not> have_ioapic out \<Longrightarrow> case first_ioapic es of
     None \<Rightarrow> \<not> have_ioapic (fold absorb_entry es out)
   | Some (addr, gsi) \<Rightarrow> have_ioapic (fold absorb_entry es out) \<and>
       ioapic_address (fold absorb_entry es out) = ucast addr \<and> ioapic_gsi_base (fold absorb_entry es out) = gsi"
proof (induction es arbitrary: out)
  case (Cons e es)
  show ?case
  proof (cases e)
    case (Io_apic i addr gsi)
    then show ?thesis using absorb_keeps(2) [of "absorb_entry e out" es] Cons.prems by simp
  next
    case (Local_apic pid aid flags)
    then have "\<not> have_ioapic (absorb_entry e out)" using Cons.prems by simp
    from Cons.IH [OF this] show ?thesis by (simp only: Local_apic first_ioapic.simps fold_simps)
  next
    case (Other_entry t body)
    then show ?thesis using Cons by (simp only: first_ioapic.simps fold_simps absorb_entry.simps)
  qed
qed simp

text \<open>
  C25: reading the MADT back. Whatever its bytes, the parse of a table that does not reach
  the end of the address space ends without a panic. When the bytes after the fixed part are
  the encoding of a list of entries, known and unknown ones in any order, the result has the
  table's local APIC address, the number of enabled processors and the first I/O APIC of the list.
\<close>

theorem madt_parse_correct:
  assumes "acpi_find_table m s ''APIC'' = Inr t" and "t \<noteq> 0"
    and "unat t + unat (table_length m t) + 256 \<le> 2 ^ 64" and "44 \<le> unat (table_length m t)"
  shows "(\<exists>info. madt_parse m s = Some (Inr (True, info))) \<and>
    (\<forall>es. (\<forall>e \<in> set es. entry_ok e) \<longrightarrow> holds m (t + 44) (concat (map encode es)) \<longrightarrow>
       unat (table_length m t) = 44 + length (concat (map encode es)) \<longrightarrow>
       (\<exists>info. madt_parse m s = Some (Inr (True, info)) \<and>
          local_apic_address info = ucast (load32 m (t + 36)) \<and>
          enabled_cpu_count info = of_nat (length (filter enabled_lapic es)) \<and>
          (case first_ioapic es of None \<Rightarrow> \<not> have_ioapic info
           | Some (addr, gsi) \<Rightarrow> have_ioapic info \<and> ioapic_address info = ucast addr \<and>
               ioapic_gsi_base info = gsi)))"
proof (intro conjI allI impI)
  let ?L = "table_length m t" and ?out = "zero_madt\<lparr>local_apic_address := ucast (load32 m (t + 36))\<rparr>"
  have L: "unat (ucast ?L :: u64) = unat ?L"
    using unat_lt_32 [of ?L] by (simp add: unsigned_ucast_eq take_bit_nat_eq_self)
  have u: "unat (t + 44) = unat t + 44" "unat (t + ucast ?L) = unat t + unat ?L"
    using assms(3,4) L by (simp_all add: unat_add_64)
  have p: "madt_parse m s = map_option (\<lambda>i. Inr (True, i)) (madt_loop m (t + 44) (t + ucast ?L) ?out)"
    using assms(1,2) by (simp add: madt_parse_def Let_def)
  show "\<exists>info. madt_parse m s = Some (Inr (True, info))"
    unfolding p using madt_loop_ends [of "t + 44" "t + ucast ?L" m ?out] u assms(3,4) by auto
  fix es
  assume es: "\<forall>e \<in> set es. entry_ok e" "holds m (t + 44) (concat (map encode es))"
    and len: "unat ?L = 44 + length (concat (map encode es))"
  have "madt_loop m (t + 44) (t + ucast ?L) ?out = Some (fold absorb_entry es ?out)"
    using madt_loop_encoded [OF es, of "t + ucast ?L" ?out] u len assms(3) by simp
  then show "\<exists>info. madt_parse m s = Some (Inr (True, info)) \<and>
      local_apic_address info = ucast (load32 m (t + 36)) \<and>
      enabled_cpu_count info = of_nat (length (filter enabled_lapic es)) \<and>
      (case first_ioapic es of None \<Rightarrow> \<not> have_ioapic info
       | Some (addr, gsi) \<Rightarrow> have_ioapic info \<and> ioapic_address info = ucast addr \<and> ioapic_gsi_base info = gsi)"
    unfolding p using absorb_keeps(1) [of es ?out] absorb_count [of es ?out] absorb_ioapic [of ?out es]
    by (intro exI [of _ "fold absorb_entry es ?out"]) (simp add: zero_madt_def)
qed

lemma demo_madt:
  "table_length demo_acpi_mem 0x3000 = 64"
  "list_all (\<lambda>i. demo_acpi_mem (0x302c + of_nat i) =
     concat (map encode [Local_apic 1 1 1, Io_apic 2 0xfec00000 0]) ! i) [0..<20]"
  by code_simp+

theorem madt_parse_correct_witness:
  "\<exists>info. madt_parse demo_acpi_mem
       \<lparr>acpi_hhdm_offset = 0, root_table = 0x2000, root_entry_count = 1, root_entries_are_64bit = False\<rparr> =
       Some (Inr (True, info)) \<and>
     enabled_cpu_count info = 1 \<and> have_ioapic info \<and> ioapic_address info = 0xfec00000"
proof -
  let ?es = "[Local_apic 1 1 1, Io_apic 2 0xfec00000 0]"
  have n: "length (concat (map encode ?es)) = 20" by (simp add: bytes32_def)
  have h: "holds demo_acpi_mem (0x3000 + 44) (concat (map encode ?es))"
    using demo_madt(2) unfolding holds_def n by (simp add: list_all_iff)
  have "(0x3000 :: u64) \<noteq> 0" "unat (0x3000 :: u64) + unat (table_length demo_acpi_mem 0x3000) + 256 \<le> 2 ^ 64"
    "44 \<le> unat (table_length demo_acpi_mem 0x3000)" by (simp_all add: demo_madt(1))
  moreover have "\<forall>e \<in> set ?es. entry_ok e" by simp
  moreover have "unat (table_length demo_acpi_mem 0x3000) = 44 + length (concat (map encode ?es))"
    unfolding n by (simp add: demo_madt(1))
  moreover have "length (filter enabled_lapic ?es) = 1" "first_ioapic ?es = Some (0xfec00000, 0)" by simp_all
  ultimately show ?thesis using madt_parse_correct [OF demo_find] h by fastforce
qed

end
