(* ===== verification/Arch_Apic.thy ===== *)
theory Arch_Apic
  imports Arch_Paging Arch_Io
begin

text \<open>
  \<^verbatim>\<open>kernel/arch/x86_64/cpu/lapic.c\<close> and \<^verbatim>\<open>ioapic.c\<close>: the interrupt controllers.
  Their registers are device memory: every 32-bit write is recorded in order, what a read returns is
  a parameter. The second section replays the recorded writes on the register pair of an I/O APIC.
\<close>

section \<open>Device memory\<close>

record mmio =
  mmio_answers :: "nat \<Rightarrow> u64 \<Rightarrow> u32"
  mmio_reads :: nat
  mmio_writes :: "(u64 \<times> u32) list"

definition mmio_write :: "u64 \<Rightarrow> u32 \<Rightarrow> mmio \<Rightarrow> mmio" where
  "mmio_write a v d = d\<lparr>mmio_writes := mmio_writes d @ [(a, v)]\<rparr>"

definition mmio_read :: "u64 \<Rightarrow> mmio \<Rightarrow> u32 \<times> mmio" where
  "mmio_read a d = (mmio_answers d (mmio_reads d) a, d\<lparr>mmio_reads := mmio_reads d + 1\<rparr>)"

record apic =
  apic_vmm :: vmm
  apic_msrs :: msrs
  apic_ports :: ports
  apic_mmio :: mmio
  lapic_base :: u64
  ioapic_base :: u64

section \<open>The local APIC\<close>

abbreviation (input) IA32_APIC_BASE_MSR :: u32 where "IA32_APIC_BASE_MSR \<equiv> 0x1b"
abbreviation (input) APIC_BASE_ENABLE :: u64 where "APIC_BASE_ENABLE \<equiv> 0x800"
abbreviation (input) APIC_BASE_ADDR_MASK :: u64 where "APIC_BASE_ADDR_MASK \<equiv> 0xfffff000"
abbreviation (input) LAPIC_REG_ID :: u32 where "LAPIC_REG_ID \<equiv> 0x20"
abbreviation (input) LAPIC_REG_EOI :: u32 where "LAPIC_REG_EOI \<equiv> 0xb0"
abbreviation (input) LAPIC_REG_SVR :: u32 where "LAPIC_REG_SVR \<equiv> 0xf0"
abbreviation (input) LAPIC_REG_LVT_TIMER :: u32 where "LAPIC_REG_LVT_TIMER \<equiv> 0x320"
abbreviation (input) LAPIC_REG_LVT_LINT0 :: u32 where "LAPIC_REG_LVT_LINT0 \<equiv> 0x350"
abbreviation (input) LAPIC_REG_LVT_LINT1 :: u32 where "LAPIC_REG_LVT_LINT1 \<equiv> 0x360"
abbreviation (input) LAPIC_REG_LVT_ERROR :: u32 where "LAPIC_REG_LVT_ERROR \<equiv> 0x370"
abbreviation (input) LAPIC_REG_INITIAL_COUNT :: u32 where "LAPIC_REG_INITIAL_COUNT \<equiv> 0x380"
abbreviation (input) LAPIC_REG_CURRENT_COUNT :: u32 where "LAPIC_REG_CURRENT_COUNT \<equiv> 0x390"
abbreviation (input) LAPIC_REG_DIVIDE_CONFIG :: u32 where "LAPIC_REG_DIVIDE_CONFIG \<equiv> 0x3e0"
abbreviation (input) LAPIC_TIMER_PERIODIC :: u32 where "LAPIC_TIMER_PERIODIC \<equiv> 0x20000"
abbreviation (input) LAPIC_TIMER_DIVIDE_16 :: u32 where "LAPIC_TIMER_DIVIDE_16 \<equiv> 0x3"
abbreviation (input) LAPIC_SVR_SOFTWARE_ENABLE :: u32 where "LAPIC_SVR_SOFTWARE_ENABLE \<equiv> 0x100"
abbreviation (input) LAPIC_SPURIOUS_VECTOR :: u32 where "LAPIC_SPURIOUS_VECTOR \<equiv> 0xff"
abbreviation (input) LAPIC_LVT_MASKED :: u32 where "LAPIC_LVT_MASKED \<equiv> 0x10000"

text \<open>\<^verbatim>\<open>&base[reg / 4]\<close> of an array of 32-bit registers.\<close>

definition reg_addr :: "u64 \<Rightarrow> u32 \<Rightarrow> u64" where
  "reg_addr base reg = base + 4 * ucast (reg div 4)"

definition lapic_read :: "u32 \<Rightarrow> apic \<Rightarrow> u32 \<times> apic" where
  "lapic_read reg s = (let (v, d) = mmio_read (reg_addr (lapic_base s) reg) (apic_mmio s) in (v, s\<lparr>apic_mmio := d\<rparr>))"

definition lapic_write :: "u32 \<Rightarrow> u32 \<Rightarrow> apic \<Rightarrow> apic" where
  "lapic_write reg value s = s\<lparr>apic_mmio := mmio_write (reg_addr (lapic_base s) reg) value (apic_mmio s)\<rparr>"

definition lapic_init :: "apic \<Rightarrow> apic kresult" where
  "lapic_init s =
     (let apic_base_msr = rdmsr IA32_APIC_BASE_MSR (apic_msrs s);
          phys_base = apic_base_msr AND APIC_BASE_ADDR_MASK;
          s = s\<lparr>apic_msrs := wrmsr IA32_APIC_BASE_MSR (apic_base_msr OR APIC_BASE_ENABLE) (apic_msrs s)\<rparr>
      in case vmm_map_mmio (apic_vmm s) phys_base of
           Inl e \<Rightarrow> Inl e
         | Inr (virt, v) \<Rightarrow>
             let s = s\<lparr>apic_vmm := v, lapic_base := virt\<rparr>;
                 s = lapic_write LAPIC_REG_LVT_TIMER LAPIC_LVT_MASKED s;
                 s = lapic_write LAPIC_REG_LVT_LINT0 LAPIC_LVT_MASKED s;
                 s = lapic_write LAPIC_REG_LVT_LINT1 LAPIC_LVT_MASKED s;
                 s = lapic_write LAPIC_REG_LVT_ERROR LAPIC_LVT_MASKED s
             in Inr (lapic_write LAPIC_REG_SVR (LAPIC_SVR_SOFTWARE_ENABLE OR LAPIC_SPURIOUS_VECTOR) s))"

definition lapic_send_eoi :: "apic \<Rightarrow> apic" where "lapic_send_eoi s = lapic_write LAPIC_REG_EOI 0 s"

definition lapic_get_id :: "apic \<Rightarrow> u32 \<times> apic" where
  "lapic_get_id s = (let (v, s) = lapic_read LAPIC_REG_ID s in (drop_bit 24 v, s))"

definition lapic_timer_set_lvt :: "u8 \<Rightarrow> bool \<Rightarrow> bool \<Rightarrow> apic \<Rightarrow> apic" where
  "lapic_timer_set_lvt vector periodic masked s =
     (let value = ucast vector;
          value = (if periodic then value OR LAPIC_TIMER_PERIODIC else value);
          value = (if masked then value OR LAPIC_LVT_MASKED else value)
      in lapic_write LAPIC_REG_LVT_TIMER value s)"

definition lapic_timer_set_divide_16 :: "apic \<Rightarrow> apic" where
  "lapic_timer_set_divide_16 s = lapic_write LAPIC_REG_DIVIDE_CONFIG LAPIC_TIMER_DIVIDE_16 s"

definition lapic_timer_set_initial_count :: "u32 \<Rightarrow> apic \<Rightarrow> apic" where
  "lapic_timer_set_initial_count count s = lapic_write LAPIC_REG_INITIAL_COUNT count s"

definition lapic_timer_get_current_count :: "apic \<Rightarrow> u32 \<times> apic" where
  "lapic_timer_get_current_count s = lapic_read LAPIC_REG_CURRENT_COUNT s"

section \<open>The I/O APIC\<close>

abbreviation (input) IOAPIC_REG_SELECT :: u32 where "IOAPIC_REG_SELECT \<equiv> 0x00"
abbreviation (input) IOAPIC_REG_WINDOW :: u32 where "IOAPIC_REG_WINDOW \<equiv> 0x10"
abbreviation (input) IOAPIC_REG_VERSION :: u32 where "IOAPIC_REG_VERSION \<equiv> 0x01"
abbreviation (input) IOAPIC_REDIR_MASKED :: u32 where "IOAPIC_REDIR_MASKED \<equiv> 0x10000"

definition IOAPIC_REG_REDIRECTION :: "u32 \<Rightarrow> u32" where "IOAPIC_REG_REDIRECTION irq = 0x10 + 2 * irq"

definition ioapic_read :: "u32 \<Rightarrow> apic \<Rightarrow> u32 \<times> apic" where
  "ioapic_read reg s =
     (let d = mmio_write (reg_addr (ioapic_base s) IOAPIC_REG_SELECT) reg (apic_mmio s);
          (v, d) = mmio_read (reg_addr (ioapic_base s) IOAPIC_REG_WINDOW) d
      in (v, s\<lparr>apic_mmio := d\<rparr>))"

definition ioapic_write :: "u32 \<Rightarrow> u32 \<Rightarrow> apic \<Rightarrow> apic" where
  "ioapic_write reg value s =
     s\<lparr>apic_mmio := mmio_write (reg_addr (ioapic_base s) IOAPIC_REG_WINDOW) value
        (mmio_write (reg_addr (ioapic_base s) IOAPIC_REG_SELECT) reg (apic_mmio s))\<rparr>"

text \<open>The loop over the redirection entries; \<open>max_entry\<close> is below 256, so it ends.\<close>

function mask_entries :: "u32 \<Rightarrow> u8 \<Rightarrow> apic \<Rightarrow> apic" where
  "mask_entries irq max_entry s =
     (if irq \<le> ucast max_entry then
        mask_entries (irq + 1) max_entry
          (ioapic_write (IOAPIC_REG_REDIRECTION irq + 1) 0
            (ioapic_write (IOAPIC_REG_REDIRECTION irq) IOAPIC_REDIR_MASKED s))
      else s)"
  by pat_completeness auto
termination
proof (relation "measure (\<lambda>(irq, n, s). 257 - unat irq)")
  fix irq :: u32 and max_entry :: u8 and s
  assume "irq \<le> ucast max_entry"
  moreover have "unat (ucast max_entry :: u32) = unat max_entry"
    using unat_lt_8 [of max_entry] by (simp add: unsigned_ucast_eq take_bit_nat_eq_self)
  ultimately have "unat irq < 256" using unat_lt_8 [of max_entry] by (simp add: word_le_nat_alt)
  then have "unat (irq + 1) = unat irq + 1" by (simp add: unat_word_ariths)
  then show "((irq + 1, max_entry, x), irq, max_entry, s) \<in> measure (\<lambda>(irq, n, s). 257 - unat irq)" for x
    using \<open>unat irq < 256\<close> by simp
qed simp

declare mask_entries.simps [simp del]

definition ioapic_init :: "u64 \<Rightarrow> apic \<Rightarrow> apic kresult" where
  "ioapic_init phys_base s =
     (case vmm_map_mmio (apic_vmm s) phys_base of
        Inl e \<Rightarrow> Inl e
      | Inr (virt, v) \<Rightarrow>
          let (version, s) = ioapic_read IOAPIC_REG_VERSION (s\<lparr>apic_vmm := v, ioapic_base := virt\<rparr>);
              max_entry = drop_bit 16 version AND 0xff
          in Inr (mask_entries 0 (ucast max_entry) s))"

definition ioapic_set_irq :: "u8 \<Rightarrow> u8 \<Rightarrow> u8 \<Rightarrow> bool \<Rightarrow> apic \<Rightarrow> apic" where
  "ioapic_set_irq irq vector dest_apic_id masked s =
     (let low = ucast vector;
          low = (if masked then low OR IOAPIC_REDIR_MASKED else low);
          high = push_bit 24 (ucast dest_apic_id);
          s = ioapic_write (IOAPIC_REG_REDIRECTION (ucast irq) + 1) high s
      in ioapic_write (IOAPIC_REG_REDIRECTION (ucast irq)) low s)"

section \<open>What the I/O APIC does with the writes\<close>

text \<open>
  The documented register pair (OSDev, "IOAPIC"): a write to the first word selects a register, a write
  to the word at offset 16 goes to the selected one.
\<close>

record ioapic_device =
  dev_select :: u32
  dev_regs :: "u32 \<Rightarrow> u32"

definition dev_step :: "u64 \<Rightarrow> u64 \<times> u32 \<Rightarrow> ioapic_device \<Rightarrow> ioapic_device" where
  "dev_step base w d =
     (if fst w = base then d\<lparr>dev_select := snd w\<rparr>
      else if fst w = base + 0x10 then d\<lparr>dev_regs := (dev_regs d)(dev_select d := snd w)\<rparr> else d)"

definition replay :: "u64 \<Rightarrow> (u64 \<times> u32) list \<Rightarrow> ioapic_device \<Rightarrow> ioapic_device" where
  "replay base ws d = fold (dev_step base) ws d"

definition writes_since :: "apic \<Rightarrow> apic \<Rightarrow> (u64 \<times> u32) list" where
  "writes_since s s' = drop (length (mmio_writes (apic_mmio s))) (mmio_writes (apic_mmio s'))"

definition entry_low :: "ioapic_device \<Rightarrow> nat \<Rightarrow> u32" where "entry_low d k = dev_regs d (of_nat (0x10 + 2 * k))"
definition entry_high :: "ioapic_device \<Rightarrow> nat \<Rightarrow> u32" where "entry_high d k = dev_regs d (of_nat (0x11 + 2 * k))"

text \<open>One register write of the driver, and what it does to the device.\<close>

definition reg_writes :: "u64 \<Rightarrow> u32 \<Rightarrow> u32 \<Rightarrow> (u64 \<times> u32) list" where
  "reg_writes base reg value = [(base, reg), (base + 0x10, value)]"

lemma reg_addr_pair: "reg_addr base 0 = base" "reg_addr base 0x10 = base + 0x10"
  by (simp_all add: reg_addr_def)

lemma ioapic_write_log:
  "mmio_writes (apic_mmio (ioapic_write reg v s)) = mmio_writes (apic_mmio s) @ reg_writes (ioapic_base s) reg v"
  "ioapic_base (ioapic_write reg v s) = ioapic_base s" "apic_vmm (ioapic_write reg v s) = apic_vmm s"
  by (simp_all add: ioapic_write_def mmio_write_def reg_addr_pair reg_writes_def)

lemma replay_append: "replay base (xs @ ys) d = replay base ys (replay base xs d)"
  by (simp add: replay_def)

lemma replay_reg: "replay base (reg_writes base reg v) d = \<lparr>dev_select = reg, dev_regs = (dev_regs d)(reg := v)\<rparr>"
  by (simp add: replay_def reg_writes_def dev_step_def)

lemma small_reg_inj:
  assumes "m < 1024" "n < 1024"
  shows "(of_nat m = (of_nat n :: u32)) \<longleftrightarrow> m = n"
proof -
  have "unat (of_nat m :: u32) = m" "unat (of_nat n :: u32) = n" using assms by (simp_all add: unat_of_nat)
  then show ?thesis by metis
qed

text \<open>What masking one entry, and the whole loop, leaves in the device.\<close>

definition masked_between :: "nat \<Rightarrow> nat \<Rightarrow> ioapic_device \<Rightarrow> ioapic_device \<Rightarrow> bool" where
  "masked_between i n d d' \<longleftrightarrow> (\<forall>k < 256.
     entry_low d' k = (if i \<le> k \<and> k \<le> n then IOAPIC_REDIR_MASKED else entry_low d k) \<and>
     entry_high d' k = (if i \<le> k \<and> k \<le> n then 0 else entry_high d k))"

lemma redirection_regs:
  assumes "unat irq = j"
  shows "IOAPIC_REG_REDIRECTION irq = of_nat (0x10 + 2 * j)" "IOAPIC_REG_REDIRECTION irq + 1 = of_nat (0x11 + 2 * j)"
proof -
  have "irq = of_nat j" using assms by auto
  then show "IOAPIC_REG_REDIRECTION irq = of_nat (0x10 + 2 * j)" "IOAPIC_REG_REDIRECTION irq + 1 = of_nat (0x11 + 2 * j)"
    by (simp_all add: IOAPIC_REG_REDIRECTION_def)
qed

lemma entry_after:
  assumes "j < 256" "k < 256"
  shows "entry_low (replay base (reg_writes base (of_nat (0x10 + 2 * j)) v) d) k = (if k = j then v else entry_low d k)"
    "entry_high (replay base (reg_writes base (of_nat (0x10 + 2 * j)) v) d) k = entry_high d k"
    "entry_high (replay base (reg_writes base (of_nat (0x11 + 2 * j)) v) d) k = (if k = j then v else entry_high d k)"
    "entry_low (replay base (reg_writes base (of_nat (0x11 + 2 * j)) v) d) k = entry_low d k"
proof -
  have n: "0x11 + 2 * j < 1024" "0x11 + 2 * k < 1024" "0x10 + 2 * j < 1024" "0x10 + 2 * k < 1024" using assms by simp_all
  have p: "0x11 + 2 * k \<noteq> 0x10 + 2 * j" "0x10 + 2 * k \<noteq> 0x11 + 2 * j" by presburger+
  have r: "dev_regs (replay base (reg_writes base (of_nat a) v) d) (of_nat b) = (if b = a then v else dev_regs d (of_nat b))"
    if "a < 1024" "b < 1024" for a b
    using small_reg_inj [OF that(2,1)] unfolding replay_reg by simp
  show "entry_low (replay base (reg_writes base (of_nat (0x10 + 2 * j)) v) d) k = (if k = j then v else entry_low d k)"
    "entry_high (replay base (reg_writes base (of_nat (0x10 + 2 * j)) v) d) k = entry_high d k"
    "entry_high (replay base (reg_writes base (of_nat (0x11 + 2 * j)) v) d) k = (if k = j then v else entry_high d k)"
    "entry_low (replay base (reg_writes base (of_nat (0x11 + 2 * j)) v) d) k = entry_low d k"
    unfolding entry_low_def entry_high_def r [OF n(3,4)] r [OF n(3,2)] r [OF n(1,2)] r [OF n(1,4)]
    using p by simp_all
qed

lemma mask_entries_result:
  assumes "unat irq \<le> 256"
  shows "ioapic_base (mask_entries irq n s) = ioapic_base s \<and> apic_vmm (mask_entries irq n s) = apic_vmm s \<and>
    (\<exists>w. mmio_writes (apic_mmio (mask_entries irq n s)) = mmio_writes (apic_mmio s) @ w \<and>
      (\<forall>d. masked_between (unat irq) (unat n) d (replay (ioapic_base s) w d)))"
  using assms
proof (induction irq n s rule: mask_entries.induct)
  case (1 irq n s)
  have c: "irq \<le> ucast n \<longleftrightarrow> unat irq \<le> unat n"
    using unat_lt_8 [of n] by (simp add: word_le_nat_alt unsigned_ucast_eq take_bit_nat_eq_self)
  show ?case
  proof (cases "irq \<le> ucast n")
    case True
    let ?b = "ioapic_base s" and ?j = "unat irq"
    let ?s = "ioapic_write (IOAPIC_REG_REDIRECTION irq + 1) 0 (ioapic_write (IOAPIC_REG_REDIRECTION irq) IOAPIC_REDIR_MASKED s)"
    have j: "?j < 256" using True c unat_lt_8 [of n] by simp
    have u: "unat (irq + 1) = ?j + 1" using j by (simp add: unat_word_ariths)
    obtain w where w: "mmio_writes (apic_mmio (mask_entries (irq + 1) n ?s)) = mmio_writes (apic_mmio ?s) @ w"
      and m: "\<And>d. masked_between (unat (irq + 1)) (unat n) d (replay ?b w d)"
      and f: "ioapic_base (mask_entries (irq + 1) n ?s) = ?b" "apic_vmm (mask_entries (irq + 1) n ?s) = apic_vmm s"
      using "1.IH" [OF True] j u by (auto simp: ioapic_write_log)
    let ?w = "reg_writes ?b (of_nat (0x10 + 2 * ?j)) IOAPIC_REDIR_MASKED @ reg_writes ?b (of_nat (0x11 + 2 * ?j)) 0 @ w"
    have "mmio_writes (apic_mmio (mask_entries irq n s)) = mmio_writes (apic_mmio s) @ ?w"
      using w True by (subst mask_entries.simps) (simp add: ioapic_write_log IOAPIC_REG_REDIRECTION_def add.commute)
    moreover have "masked_between ?j (unat n) d (replay ?b ?w d)" for d
      using m [of "replay ?b (reg_writes ?b (of_nat (0x11 + 2 * ?j)) 0) (replay ?b (reg_writes ?b (of_nat (0x10 + 2 * ?j)) IOAPIC_REDIR_MASKED) d)"]
        True c j entry_after [OF j]
      unfolding masked_between_def replay_append u by (auto simp del: of_nat_add)
    ultimately show ?thesis using f True by (subst (1 2) mask_entries.simps) auto
  next
    case False
    then show ?thesis using c by (subst (1 2 3) mask_entries.simps) (auto simp: masked_between_def replay_def)
  qed
qed

text \<open>The number of entries the version register reports, as the driver reads it.\<close>

definition last_entry :: "apic \<Rightarrow> nat" where
  "last_entry s = unat (drop_bit 16 (mmio_answers (apic_mmio s) (mmio_reads (apic_mmio s))
     (mmio_next_vaddr (apic_vmm s) + 0x10)) AND 0xff)"

lemma ioapic_init_result:
  assumes "ioapic_init phys s = Inr s1"
  shows "\<exists>v w. vmm_map_mmio (apic_vmm s) phys = Inr (ioapic_base s1, v) \<and> apic_vmm s1 = v \<and>
    mmio_writes (apic_mmio s1) = mmio_writes (apic_mmio s) @ w \<and>
    (ioapic_base s1 = mmio_next_vaddr (apic_vmm s) \<longrightarrow>
       (\<forall>d. masked_between 0 (last_entry s) d (replay (ioapic_base s1) w d)))"
proof -
  obtain virt v where v: "vmm_map_mmio (apic_vmm s) phys = Inr (virt, v)"
    using assms by (auto simp: ioapic_init_def split: sum.splits)
  let ?s = "s\<lparr>apic_vmm := v, ioapic_base := virt\<rparr>"
  obtain version s2 where r: "ioapic_read IOAPIC_REG_VERSION ?s = (version, s2)" by fastforce
  then have s2: "ioapic_base s2 = virt" "apic_vmm s2 = v" "mmio_writes (apic_mmio s2) = mmio_writes (apic_mmio s) @ [(virt, 1)]"
      "version = mmio_answers (apic_mmio s) (mmio_reads (apic_mmio s)) (virt + 0x10)"
    by (auto simp: ioapic_read_def mmio_write_def mmio_read_def reg_addr_pair Let_def)
  let ?n = "ucast (drop_bit 16 version AND 0xff) :: u8"
  have s1: "s1 = mask_entries 0 ?n s2" using assms v r by (simp add: ioapic_init_def Let_def)
  obtain w where w: "ioapic_base s1 = virt" "apic_vmm s1 = v"
      "mmio_writes (apic_mmio s1) = mmio_writes (apic_mmio s2) @ w" "\<And>d. masked_between 0 (unat ?n) d (replay virt w d)"
    using mask_entries_result [of 0 ?n s2] s2(1,2) unfolding s1 by auto
  have "unat ?n = unat (drop_bit 16 version AND 0xff)"
  proof -
    have "drop_bit 16 version AND 0xff = take_bit 8 (drop_bit 16 version)"
      by (simp add: take_bit_eq_mask mask_eq_exp_minus_1)
    then show ?thesis by (simp add: unsigned_ucast_eq unsigned_take_bit_eq)
  qed
  then have n: "unat ?n = last_entry s" if "virt = mmio_next_vaddr (apic_vmm s)" using s2(4) that by (simp add: last_entry_def)
  have sel: "masked_between 0 m d (replay virt ((virt, 1) # w) d)" if "\<And>d. masked_between 0 m d (replay virt w d)" for m d
    using that [of "dev_step virt (virt, 1) d"]
    by (simp add: masked_between_def replay_def entry_low_def entry_high_def dev_step_def)
  show ?thesis
    using v w sel [of "unat ?n"] n s2(3) by (intro exI [of _ v] exI [of _ "(virt, 1) # w"]) auto
qed

lemma set_irq_log:
  fixes irq :: u8
  shows "mmio_writes (apic_mmio (ioapic_set_irq irq vec dest masked s)) = mmio_writes (apic_mmio s) @
     reg_writes (ioapic_base s) (of_nat (0x11 + 2 * unat irq)) (push_bit 24 (ucast dest)) @
     reg_writes (ioapic_base s) (of_nat (0x10 + 2 * unat irq)) (if masked then ucast vec OR IOAPIC_REDIR_MASKED else ucast vec)"
proof -
  have u: "unat (ucast irq :: u32) = unat irq"
    using unat_lt_8 [of irq] by (simp add: unsigned_ucast_eq take_bit_nat_eq_self)
  show ?thesis
    unfolding ioapic_set_irq_def Let_def ioapic_write_log redirection_regs(2) [OF u] redirection_regs(1) [OF u] by simp
qed

text \<open>The entry of a line before, between and after the two register writes that route it.\<close>

lemma replay_select:
  "entry_low (replay base (xs @ [(base, r)]) d) k = entry_low (replay base xs d) k"
  "entry_high (replay base (xs @ [(base, r)]) d) k = entry_high (replay base xs d) k"
  by (simp_all add: replay_def dev_step_def entry_low_def entry_high_def)

lemma take_two_writes:
  "take n (reg_writes base r1 v1 @ reg_writes base r2 v2) \<in>
     {[], [] @ [(base, r1)], reg_writes base r1 v1, reg_writes base r1 v1 @ [(base, r2)],
      reg_writes base r1 v1 @ reg_writes base r2 v2}"
proof -
  have "n = 0 \<or> n = 1 \<or> n = 2 \<or> n = 3 \<or> 4 \<le> n" by arith
  then show ?thesis by (elim disjE) (simp_all add: reg_writes_def)
qed

lemma routing_steps:
  assumes "j < 256" "k < 256" "w = reg_writes base (of_nat (0x11 + 2 * j)) high @ reg_writes base (of_nat (0x10 + 2 * j)) low"
    and "entry_low d k = IOAPIC_REDIR_MASKED"
  shows "entry_low (replay base (take n w) d) k = IOAPIC_REDIR_MASKED \<or>
     k = j \<and> entry_low (replay base (take n w) d) k = low \<and> entry_high (replay base (take n w) d) k = high"
    and "entry_low (replay base w d) j = low \<and> entry_high (replay base w d) j = high"
proof -
  note e = entry_after [OF assms(1,2)] entry_after [OF assms(1,1)]
  show "entry_low (replay base w d) j = low \<and> entry_high (replay base w d) j = high"
    unfolding assms(3) replay_append e by simp
  show "entry_low (replay base (take n w) d) k = IOAPIC_REDIR_MASKED \<or>
     k = j \<and> entry_low (replay base (take n w) d) k = low \<and> entry_high (replay base (take n w) d) k = high"
    using take_two_writes [of n base "of_nat (0x11 + 2 * j)" high "of_nat (0x10 + 2 * j)" low] assms(4)
    unfolding assms(3) insert_iff empty_iff
    by (elim disjE FalseE; simp only: replay_select; simp only: replay_append e; simp add: replay_def)
qed


definition demo_apic :: apic where
  "demo_apic = \<lparr>apic_vmm = demo_vmm, apic_msrs = (\<lambda>_. 0xfee00900),
     apic_ports = \<lparr>port_answers = (\<lambda>n p. 0x20), port_reads = 0, port_writes = []\<rparr>,
     apic_mmio = \<lparr>mmio_answers = (\<lambda>n a. 0x00170020), mmio_reads = 0, mmio_writes = []\<rparr>,
     lapic_base = 0, ioapic_base = 0\<rparr>"

lemma demo_apic_ok:
  "vmm_inv (apic_vmm demo_apic)" "small_to (apic_vmm demo_apic) (va_path (mmio_next_vaddr (apic_vmm demo_apic)))"
  "last_entry demo_apic = 23"
  using demo_vmm_inv demo_small by (simp_all add: demo_apic_def last_entry_def)

lemma demo_ioapic_started: "\<exists>s1. ioapic_init phys demo_apic = Inr s1"
proof -
  have "\<exists>r. vmm_map_mmio (apic_vmm demo_apic) phys = Inr r"
    using vmm_map_mmio_result [OF demo_apic_ok(1,2), of phys] demo_card
    by (auto simp: demo_apic_def split: sum.splits)
  then show ?thesis by (auto simp: ioapic_init_def case_prod_beta Let_def)
qed


section \<open>The local APIC after initialisation\<close>

text \<open>
  Every local vector is masked before the controller is enabled in software, with the spurious
  vector for which \<^verbatim>\<open>idt_init\<close> installs the stub that never acknowledges.
\<close>

lemma lapic_init_result:
  assumes "lapic_init s = Inr s1"
  shows "\<exists>v b. vmm_map_mmio (apic_vmm s) (apic_msrs s 0x1b AND 0xfffff000) = Inr (b, v) \<and> apic_vmm s1 = v \<and>
    lapic_base s1 = b \<and> apic_msrs s1 = (apic_msrs s)(0x1b := apic_msrs s 0x1b OR 0x800) \<and>
    mmio_writes (apic_mmio s1) = mmio_writes (apic_mmio s) @
      [(b + 0x320, 0x10000), (b + 0x350, 0x10000), (b + 0x360, 0x10000), (b + 0x370, 0x10000), (b + 0xf0, 0x1ff)]"
  using assms
  by (auto simp: lapic_init_def Let_def lapic_write_def mmio_write_def reg_addr_def split: sum.splits)

end
