(* ===== verification/Drv_Timer.thy ===== *)
theory Drv_Timer
  imports Arch_Apic Lib_Log Sched_Sched
begin

text \<open>
  \<^verbatim>\<open>kernel/arch/x86_64/cpu/lapic_timer.c\<close> and \<^verbatim>\<open>kernel/drivers/timer/timer.c\<close>: measuring
  the local APIC timer against the PIT, starting it, and the tick. The wait for the PIT need not end
  (\<open>None\<close>); a division by a frequency of 0 is the divide error, vector 0.
\<close>

section \<open>Calibration\<close>

abbreviation (input) PIT_FREQUENCY_HZ :: u32 where "PIT_FREQUENCY_HZ \<equiv> 1193182"
abbreviation (input) PIT_CHANNEL2_PORT :: u16 where "PIT_CHANNEL2_PORT \<equiv> 0x42"
abbreviation (input) PIT_COMMAND_PORT :: u16 where "PIT_COMMAND_PORT \<equiv> 0x43"
abbreviation (input) PIT_GATE_SPEAKER_PORT :: u16 where "PIT_GATE_SPEAKER_PORT \<equiv> 0x61"
abbreviation (input) CALIBRATION_MS :: u32 where "CALIBRATION_MS \<equiv> 10"

definition apic_outb :: "u16 \<Rightarrow> u8 \<Rightarrow> apic \<Rightarrow> apic" where
  "apic_outb port value s = s\<lparr>apic_ports := outb port value (apic_ports s)\<rparr>"

definition lapic_timer_calibrate_and_start :: "u8 \<Rightarrow> u32 \<Rightarrow> apic \<Rightarrow> (u32 \<times> apic) kresult option" where
  "lapic_timer_calibrate_and_start vector frequency_hz s =
     (let s = lapic_timer_set_divide_16 s;
          s = lapic_timer_set_lvt vector True True s;
          pit_count = ucast ((PIT_FREQUENCY_HZ div 1000) * CALIBRATION_MS) :: u16;
          (gate, p) = inb PIT_GATE_SPEAKER_PORT (apic_ports s);
          s = s\<lparr>apic_ports := p\<rparr>;
          s = apic_outb PIT_GATE_SPEAKER_PORT ((gate AND 0xfc) OR 0x01) s;
          s = apic_outb PIT_COMMAND_PORT 0xb0 s;
          s = apic_outb PIT_CHANNEL2_PORT (ucast (pit_count AND 0xff)) s;
          s = apic_outb PIT_CHANNEL2_PORT (ucast (drop_bit 8 pit_count)) s;
          s = lapic_timer_set_initial_count 0xffffffff s
      in case poll_port PIT_GATE_SPEAKER_PORT 0x20 (apic_ports s) of
           None \<Rightarrow> None
         | Some p \<Rightarrow>
             let s = s\<lparr>apic_ports := p\<rparr>;
                 (count, s) = lapic_timer_get_current_count s;
                 elapsed_ticks = 0xffffffff - count;
                 lapic_frequency_hz = elapsed_ticks * (1000 div CALIBRATION_MS)
             in if frequency_hz = 0 then Some (Inl (PanicException 0 0))
                else
                  let periodic_count = lapic_frequency_hz div frequency_hz;
                      s = lapic_timer_set_initial_count periodic_count s;
                      s = lapic_timer_set_lvt vector True False s
                  in Some (Inr (lapic_frequency_hz, s)))"

section \<open>The timer driver\<close>

abbreviation (input) TIMER_VECTOR :: u8 where "TIMER_VECTOR \<equiv> 32"
abbreviation (input) TIMER_FREQUENCY_HZ :: u32 where "TIMER_FREQUENCY_HZ \<equiv> 1000"

record timer =
  timer_ticks :: u64
  timer_sched :: sched
  timer_handlers :: handlers
  timer_apic :: apic
  timer_log :: logger

definition timer_tick_handler :: "timer \<Rightarrow> timer option" where
  "timer_tick_handler s =
     (let s = s\<lparr>timer_ticks := timer_ticks s + 1\<rparr>
      in map_option (\<lambda>r. s\<lparr>timer_sched := r\<rparr>) (sched_tick (timer_sched s)))"

text \<open>A log call that faults in a conversion has no defined continuation either.\<close>

definition timer_init :: "timer \<Rightarrow> timer kresult option" where
  "timer_init s =
     (let s = s\<lparr>timer_handlers := interrupt_register_handler (timer_handlers s) TIMER_VECTOR Timer_tick_handler\<rparr>
      in case lapic_timer_calibrate_and_start TIMER_VECTOR TIMER_FREQUENCY_HZ (timer_apic s) of
           None \<Rightarrow> None
         | Some (Inl e) \<Rightarrow> Some (Inl e)
         | Some (Inr (measured_hz, a)) \<Rightarrow>
             (case log_write LOG_LEVEL_INFO ''timer: lapic calibrated at %u Hz, ticking at %u Hz''
                     [Arg_int measured_hz, Arg_int TIMER_FREQUENCY_HZ] (timer_log s) of
                Inl fault \<Rightarrow> None
              | Inr None \<Rightarrow> None
              | Inr (Some l) \<Rightarrow> Some (Inr (s\<lparr>timer_apic := a, timer_log := l\<rparr>))))"

definition timer_get_ticks :: "timer \<Rightarrow> u64" where "timer_get_ticks s = timer_ticks s"

section \<open>What calibration computes and programs\<close>

lemma reg_addr_values:
  "reg_addr b 0x3e0 = b + 0x3e0" "reg_addr b 0x320 = b + 0x320" "reg_addr b 0x380 = b + 0x380" "reg_addr b 0x390 = b + 0x390"
  by (simp_all add: reg_addr_def)

definition calibrated :: "u8 \<Rightarrow> u32 \<Rightarrow> apic \<Rightarrow> u32 \<Rightarrow> apic \<Rightarrow> bool" where
  "calibrated vector hz s f s' \<longleftrightarrow>
     f = (0xffffffff - mmio_answers (apic_mmio s) (mmio_reads (apic_mmio s)) (lapic_base s + 0x390)) * 100 \<and>
     apic_vmm s' = apic_vmm s \<and> lapic_base s' = lapic_base s \<and> ioapic_base s' = ioapic_base s \<and>
     port_writes (apic_ports s') = port_writes (apic_ports s) @
       [(0x61, (port_answers (apic_ports s) (port_reads (apic_ports s)) 0x61 AND 0xfc) OR 1), (0x43, 0xb0), (0x42, 0x9a), (0x42, 0x2e)] \<and>
     mmio_writes (apic_mmio s') = mmio_writes (apic_mmio s) @
       [(lapic_base s + 0x3e0, 3), (lapic_base s + 0x320, ucast vector OR 0x30000), (lapic_base s + 0x380, 0xffffffff),
        (lapic_base s + 0x380, f div hz), (lapic_base s + 0x320, ucast vector OR 0x20000)]"

lemma calibration_result:
  assumes "\<exists>k > port_reads (apic_ports s). port_answers (apic_ports s) k 0x61 AND 0x20 \<noteq> 0" and "hz \<noteq> 0"
  shows "\<exists>f s'. lapic_timer_calibrate_and_start vector hz s = Some (Inr (f, s')) \<and> calibrated vector hz s f s'"
proof -
  obtain k where k: "answered (port_answers (apic_ports s)) 0x61 0x20 (Suc (port_reads (apic_ports s))) k"
    using eventually_answered assms(1) by (metis Suc_le_eq)
  have "poll_port 0x61 0x20 p = Some (p\<lparr>port_reads := k + 1\<rparr>)"
    if "port_answers p = port_answers (apic_ports s)" "port_reads p = Suc (port_reads (apic_ports s))" for p
    using k poll_port_result [of p "0x61" "0x20" k] that by simp
  then show ?thesis
    using assms(2)
    by (simp add: lapic_timer_calibrate_and_start_def Let_def case_prod_beta calibrated_def apic_outb_def outb_def inb_def
        lapic_timer_set_divide_16_def lapic_timer_set_lvt_def lapic_timer_set_initial_count_def lapic_write_def mmio_write_def
        lapic_timer_get_current_count_def lapic_read_def mmio_read_def reg_addr_values or.assoc)
qed

lemma render_calibrated:
  "render ''timer: lapic calibrated at %u Hz, ticking at %u Hz'' [Arg_int f, Arg_int hz] =
   Inr (''timer: lapic calibrated at '' @ unsigned_text (ucast f) 10 False 0 False @ '' Hz, ticking at '' @
     unsigned_text (ucast hz) 10 False 0 False @ '' Hz'')"
  by (simp add: rendering)

text \<open>The bounds of the 32-bit arithmetic.\<close>

lemma period_bounds:
  assumes "unat elapsed < 42949673" "f = elapsed * 100"
  shows "unat f = 100 * unat elapsed" "1000 * unat (f div 1000 :: u32) \<le> 100 * unat elapsed"
    "100 * unat elapsed < 1000 * (unat (f div 1000) + 1)" "10 \<le> unat elapsed \<Longrightarrow> f div 1000 \<noteq> 0"
proof -
  show f: "unat f = 100 * unat elapsed" using assms by (simp add: unat_word_ariths)
  have d: "unat (f div 1000) = 100 * unat elapsed div 1000" using f by (simp add: unat_div)
  have x: "1000 * (x div 1000) \<le> x" "x < 1000 * (x div 1000 + 1)" for x :: nat
    using mult_div_mod_eq [of 1000 x] mod_less_divisor [of 1000 x] by (simp_all add: distrib_left)
  show "1000 * unat (f div 1000 :: u32) \<le> 100 * unat elapsed" "100 * unat elapsed < 1000 * (unat (f div 1000) + 1)"
    unfolding d by (rule x)+
  show "10 \<le> unat elapsed \<Longrightarrow> f div 1000 \<noteq> 0" using d by (auto simp: word_unat_eq_iff)
qed

lemma timer_init_result:
  assumes "\<exists>k > port_reads (apic_ports (timer_apic s)). port_answers (apic_ports (timer_apic s)) k 0x61 AND 0x20 \<noteq> 0"
    and "transmitter_ready (line (timer_log s))"
  shows "\<exists>f a l. timer_init s = Some (Inr (s\<lparr>timer_handlers := (timer_handlers s)(32 \<mapsto> Timer_tick_handler),
      timer_apic := a, timer_log := l\<rparr>)) \<and> calibrated 32 1000 (timer_apic s) f a \<and> transmitter_ready (line l)"
proof -
  obtain f a where c: "lapic_timer_calibrate_and_start 32 1000 (timer_apic s) = Some (Inr (f, a))"
      "calibrated 32 1000 (timer_apic s) f a"
    using calibration_result [OF assms(1), of 1000 32] by auto
  obtain l where "log_write LOG_LEVEL_INFO ''timer: lapic calibrated at %u Hz, ticking at %u Hz''
      [Arg_int f, Arg_int 1000] (timer_log s) = Inr (Some l)" "transmitter_ready (line l)"
    by (rule log_write_returns [OF assms(2) render_calibrated])
  then show ?thesis
    using c by (intro exI [of _ f] exI [of _ a] exI [of _ l]) (simp add: timer_init_def interrupt_register_handler_def)
qed

text \<open>
  C27: starting the timer. When the PIT raises its output and the serial line works,
  \<^verbatim>\<open>timer_init\<close> returns with the tick handler on vector 32, and has programmed the
  PIT with 11930 counts and the local APIC timer, masked while it is measured, in periodic mode with
  a thousandth of the measured frequency, unmasking it last. The frequency is exact as long as fewer than 42949673
  counts pass in the 10 ms; from there on the 32-bit product wraps. The period is within one count
  of a millisecond, and at least one count from 10 counts on.
\<close>

theorem timer_init_starts:
  assumes "\<exists>k > port_reads (apic_ports (timer_apic s)). port_answers (apic_ports (timer_apic s)) k 0x61 AND 0x20 \<noteq> 0"
    and "transmitter_ready (line (timer_log s))"
    and "elapsed = 0xffffffff - mmio_answers (apic_mmio (timer_apic s)) (mmio_reads (apic_mmio (timer_apic s)))
       (lapic_base (timer_apic s) + 0x390)"
  shows "\<exists>f s'. timer_init s = Some (Inr s') \<and> timer_handlers s' = (timer_handlers s)(32 \<mapsto> Timer_tick_handler) \<and>
    timer_ticks s' = timer_ticks s \<and> timer_sched s' = timer_sched s \<and>
    calibrated 32 1000 (timer_apic s) f (timer_apic s') \<and> f = elapsed * 100 \<and>
    (unat elapsed < 42949673 \<longrightarrow> unat f = 100 * unat elapsed \<and> 1000 * unat (f div 1000) \<le> unat f \<and>
       unat f < 1000 * (unat (f div 1000) + 1) \<and> (10 \<le> unat elapsed \<longrightarrow> f div 1000 \<noteq> 0))"
proof -
  obtain f a l where t: "timer_init s = Some (Inr (s\<lparr>timer_handlers := (timer_handlers s)(32 \<mapsto> Timer_tick_handler),
      timer_apic := a, timer_log := l\<rparr>))" "calibrated 32 1000 (timer_apic s) f a"
    using timer_init_result [OF assms(1,2)] by blast
  have "f = elapsed * 100" using t(2) assms(3) by (simp add: calibrated_def)
  then show ?thesis using t period_bounds [of elapsed f] by auto
qed

definition demo_timer :: timer where
  "demo_timer = \<lparr>timer_ticks = 0, timer_sched = boot_sched, timer_handlers = (\<lambda>_. None),
     timer_apic = demo_apic\<lparr>apic_mmio := \<lparr>mmio_answers = (\<lambda>n a. 0xffffffff - 625000), mmio_reads = 0, mmio_writes = []\<rparr>\<rparr>,
     timer_log = demo_logger\<rparr>"

theorem timer_init_starts_witness:
  "\<exists>s'. timer_init demo_timer = Some (Inr s') \<and>
     (0x380, 62500) \<in> set (mmio_writes (apic_mmio (timer_apic s'))) \<and>
     last (mmio_writes (apic_mmio (timer_apic s'))) = (0x320, 0x20020)"
proof -
  have "\<exists>k > port_reads (apic_ports (timer_apic demo_timer)).
      port_answers (apic_ports (timer_apic demo_timer)) k 0x61 AND 0x20 \<noteq> 0"
    by (intro exI [of _ 1]) (simp add: demo_timer_def demo_apic_def)
  moreover have "transmitter_ready (line (timer_log demo_timer))" using demo_ready by (simp add: demo_timer_def)
  ultimately obtain f s' where s': "timer_init demo_timer = Some (Inr s')"
    "calibrated 32 1000 (timer_apic demo_timer) f (timer_apic s')" "f = 625000 * 100"
    using timer_init_starts [OF _ _ refl, of demo_timer] by (auto simp: demo_timer_def)
  then show ?thesis by (auto simp: calibrated_def demo_timer_def demo_apic_def)
qed

section \<open>The tick\<close>

lemma timer_tick_iterate:
  "iterate timer_tick_handler n s =
    map_option (\<lambda>r. s\<lparr>timer_ticks := timer_ticks s + of_nat n, timer_sched := r\<rparr>) (iterate sched_tick n (timer_sched s))"
proof (induction n arbitrary: s)
  case (Suc n)
  then show ?case
    by (cases "sched_tick (timer_sched s)") (simp_all add: timer_tick_handler_def Let_def algebra_simps)
qed simp

text \<open>
  C28: time slices from the timer. Counting from a switch, \<open>n\<close> timer interrupts return, raise
  the tick count by \<open>n\<close>, have switched \<open>n div 10\<close> times round the ready ring, and leave the
  slice at \<open>n mod 10\<close>: every thread runs for exactly ten ticks before the next one.
\<close>

theorem timer_ticks_slice:
  assumes "sched_inv (timer_sched s) xs" and "ticks_since_switch (timer_sched s) = 0"
  shows "\<exists>s'. iterate timer_tick_handler n s = Some s' \<and> timer_get_ticks s' = timer_get_ticks s + of_nat n \<and>
    sched_inv (timer_sched s') (rotate (n div 10) xs) \<and>
    current (timer_sched s') = xs ! (n div 10 mod length xs) \<and>
    unat (ticks_since_switch (timer_sched s')) = n mod 10"
  using sched_tick_time_slice [OF assms, of n]
  by (auto simp: timer_tick_iterate timer_get_ticks_def simp del: map_option_eq_Some)

theorem timer_ticks_slice_witness:
  "\<exists>s s'. sched_inv (timer_sched s) [0x1000, 0x3000, 0x2000] \<and> iterate timer_tick_handler 25 s = Some s' \<and>
     current (timer_sched s') = 0x2000 \<and> unat (ticks_since_switch (timer_sched s')) = 5 \<and> timer_get_ticks s' = 25"
proof -
  obtain r where r: "sched_inv r [0x1000, 0x3000, 0x2000]" "ticks_since_switch r = 0"
    using three_threads by blast
  let ?s = "demo_timer\<lparr>timer_sched := r\<rparr>"
  have "sched_inv (timer_sched ?s) [0x1000, 0x3000, 0x2000]" "ticks_since_switch (timer_sched ?s) = 0"
    using r by simp_all
  from timer_ticks_slice [OF this, of 25] obtain s' where s': "iterate timer_tick_handler 25 ?s = Some s'"
    "timer_get_ticks s' = timer_get_ticks ?s + of_nat 25" "current (timer_sched s') = [0x1000, 0x3000, 0x2000] ! (25 div 10 mod 3)"
    "unat (ticks_since_switch (timer_sched s')) = 25 mod 10" by auto
  then have "timer_get_ticks s' = 25" "current (timer_sched s') = 0x2000" "unat (ticks_since_switch (timer_sched s')) = 5"
    by (simp_all add: timer_get_ticks_def demo_timer_def)
  then show ?thesis using r(1) s'(1) by (intro exI [of _ ?s] exI [of _ s']) simp
qed

end
