(* ===== verification/Arch_Syscall.thy ===== *)
theory Arch_Syscall
  imports Arch_Gdt Arch_Apic Lib_Log
begin

text \<open>
  \<^verbatim>\<open>kernel/arch/x86_64/cpu/syscall.c\<close> and \<^verbatim>\<open>syscall_entry.S\<close>: enabling SYSCALL, the one
  system call there is, the entry stub and the first jump to ring 3, instruction by instruction. The compiled
  C function the stub calls is a parameter that keeps the calling convention, stated as a locale. What the
  processor does on SYSCALL, SYSRET and IRET follows the SDM.
\<close>

section \<open>Initialisation and dispatch\<close>

abbreviation (input) IA32_EFER :: u32 where "IA32_EFER \<equiv> 0xc0000080"
abbreviation (input) IA32_STAR :: u32 where "IA32_STAR \<equiv> 0xc0000081"
abbreviation (input) IA32_LSTAR :: u32 where "IA32_LSTAR \<equiv> 0xc0000082"
abbreviation (input) IA32_FMASK :: u32 where "IA32_FMASK \<equiv> 0xc0000084"
abbreviation (input) EFER_SCE :: u64 where "EFER_SCE \<equiv> 1"
abbreviation (input) FMASK_IF_TF :: u64 where "FMASK_IF_TF \<equiv> 0x300"
abbreviation (input) SYSCALL_KERNEL_STACK_PAGES :: u64 where "SYSCALL_KERNEL_STACK_PAGES \<equiv> 4"
abbreviation (input) ENOSYS :: u64 where "ENOSYS \<equiv> 38"

record syscalls =
  sc_vmm :: vmm
  sc_descriptors :: descriptors
  sc_msrs :: msrs
  sc_log :: logger
  kernel_syscall_rsp :: u64

text \<open>
  A log call that does not return, or that faults in a conversion, leaves the caller without a
  continuation: \<open>None\<close>.
\<close>

definition logged :: "log_level \<Rightarrow> string \<Rightarrow> printf_arg list \<Rightarrow> logger \<Rightarrow> logger option" where
  "logged level fmt args s = (case log_write level fmt args s of Inl fault \<Rightarrow> None | Inr r \<Rightarrow> r)"

definition syscall_dispatch :: "u64 \<Rightarrow> logger \<Rightarrow> (u64 \<times> logger) option" where
  "syscall_dispatch syscall_number s =
     map_option (\<lambda>s. (- ENOSYS, s))
       (logged LOG_LEVEL_WARN ''syscall: number %lu is not implemented (ENOSYS)'' [Arg_long syscall_number] s)"

definition syscall_init :: "u64 \<Rightarrow> syscalls \<Rightarrow> syscalls kresult option" where
  "syscall_init syscall_entry s =
     (case vmm_alloc_guarded (sc_vmm s) SYSCALL_KERNEL_STACK_PAGES VMM_WRITABLE of
        Inl e \<Rightarrow> Some (Inl e)
      | Inr (None, v) \<Rightarrow> Some (Inl (Panic ''syscall: failed to allocate the kernel-entry stack'' []))
      | Inr (Some stack, v) \<Rightarrow>
          let stack_top = stack + SYSCALL_KERNEL_STACK_PAGES * PAGE_SIZE;
              s = s\<lparr>sc_vmm := v, sc_descriptors := gdt_set_kernel_stack (sc_descriptors s) stack_top,
                kernel_syscall_rsp := stack_top\<rparr>;
              efer = rdmsr IA32_EFER (sc_msrs s);
              m = wrmsr IA32_EFER (efer OR EFER_SCE) (sc_msrs s);
              star = push_bit 48 (ucast GDT_KERNEL_DATA) OR push_bit 32 (ucast GDT_KERNEL_CODE);
              m = wrmsr IA32_STAR star m;
              m = wrmsr IA32_LSTAR syscall_entry m;
              m = wrmsr IA32_FMASK FMASK_IF_TF m
          in map_option (\<lambda>l. Inr (s\<lparr>sc_msrs := m, sc_log := l\<rparr>))
               (logged LOG_LEVEL_INFO ''syscall: SYSCALL/SYSRET enabled, entry=%p'' [Arg_ptr syscall_entry] (sc_log s)))"

section \<open>The processor's ring transitions\<close>

record ring_cpu =
  ru_rax :: u64
  ru_rcx :: u64
  ru_r11 :: u64
  ru_rdi :: u64
  ru_rsi :: u64
  ru_rbx :: u64
  ru_rbp :: u64
  ru_r12 :: u64
  ru_r13 :: u64
  ru_r14 :: u64
  ru_r15 :: u64
  ru_rsp :: u64
  ru_rip :: u64
  ru_rflags :: u64
  ru_cs :: u16
  ru_ss :: u16
  ru_data :: u16
  ru_mem :: mem
  saved_user_rsp :: u64

text \<open>\<^verbatim>\<open>syscall\<close> at an instruction that ends at \<open>rip\<close>; bit 16 of rflags is the resume flag.\<close>

definition do_syscall :: "msrs \<Rightarrow> ring_cpu \<Rightarrow> ring_cpu" where
  "do_syscall m c = c
     \<lparr>ru_rcx := ru_rip c, ru_rip := m IA32_LSTAR, ru_r11 := ru_rflags c,
      ru_rflags := ru_rflags c AND NOT (m IA32_FMASK),
      ru_cs := ucast (drop_bit 32 (m IA32_STAR)) AND 0xfffc, ru_ss := ucast (drop_bit 32 (m IA32_STAR)) + 8\<rparr>"

definition do_sysret :: "msrs \<Rightarrow> ring_cpu \<Rightarrow> ring_cpu" where
  "do_sysret m c = c
     \<lparr>ru_rip := ru_rcx c, ru_rflags := (ru_r11 c AND 0x3c7fd7) OR 2,
      ru_cs := (ucast (drop_bit 48 (m IA32_STAR)) + 16) OR 3, ru_ss := (ucast (drop_bit 48 (m IA32_STAR)) + 8) OR 3\<rparr>"

definition ru_push :: "u64 \<Rightarrow> ring_cpu \<Rightarrow> ring_cpu" where
  "ru_push v c = c\<lparr>ru_rsp := ru_rsp c - 8, ru_mem := store64 (ru_mem c) (ru_rsp c - 8) v\<rparr>"

definition ru_pop :: "ring_cpu \<Rightarrow> u64 \<times> ring_cpu" where
  "ru_pop c = (load64 (ru_mem c) (ru_rsp c), c\<lparr>ru_rsp := ru_rsp c + 8\<rparr>)"

text \<open>The stub up to its \<^verbatim>\<open>sysretq\<close>, around the call of the compiled \<open>body\<close>.\<close>

definition syscall_entry_stub :: "u64 \<Rightarrow> (ring_cpu \<Rightarrow> ring_cpu) \<Rightarrow> ring_cpu \<Rightarrow> ring_cpu" where
  "syscall_entry_stub stack_top body c =
     (let c = c\<lparr>saved_user_rsp := ru_rsp c\<rparr>;
          c = c\<lparr>ru_rsp := stack_top\<rparr>;
          c = ru_push (ru_rcx c) c;
          c = ru_push (ru_r11 c) c;
          c = c\<lparr>ru_rdi := ru_rax c\<rparr>;
          c = body c;
          (v, c) = ru_pop c;
          c = c\<lparr>ru_r11 := v\<rparr>;
          (v, c) = ru_pop c;
          c = c\<lparr>ru_rcx := v\<rparr>
      in c\<lparr>ru_rsp := saved_user_rsp c\<rparr>)"

definition do_iret :: "ring_cpu \<Rightarrow> ring_cpu" where
  "do_iret c =
     (let (rip, c) = ru_pop c;
          (cs, c) = ru_pop c;
          (flags, c) = ru_pop c;
          (sp, c) = ru_pop c;
          (ss, c) = ru_pop c
      in c\<lparr>ru_rip := rip, ru_cs := ucast cs, ru_rflags := flags, ru_rsp := sp, ru_ss := ucast ss\<rparr>)"

definition jump_to_ring3 :: "u64 \<Rightarrow> u64 \<Rightarrow> ring_cpu \<Rightarrow> ring_cpu" where
  "jump_to_ring3 entry user_stack c =
     (let c = c\<lparr>ru_rdi := entry, ru_rsi := user_stack\<rparr>;
          c = c\<lparr>ru_rax := (ru_rax c AND NOT 0xffff) OR 0x1b, ru_data := 0x1b\<rparr>;
          c = ru_push 0x1b c;
          c = ru_push (ru_rsi c) c;
          c = ru_push 0x202 c;
          c = ru_push 0x23 c;
          c = ru_push (ru_rdi c) c
      in do_iret c)"

section \<open>A function that keeps the calling convention\<close>

text \<open>
  The System V contract as the stub relies on it: the callee returns with the stack pointer it was
  called with, the callee-saved registers, the bytes above the stack pointer and the stub's own
  variable as they were.
\<close>

locale sysv_callee =
  fixes body :: "ring_cpu \<Rightarrow> ring_cpu"
  assumes keeps_rsp: "ru_rsp (body c) = ru_rsp c"
    and keeps_saved: "ru_rbx (body c) = ru_rbx c" "ru_rbp (body c) = ru_rbp c" "ru_r12 (body c) = ru_r12 c"
      "ru_r13 (body c) = ru_r13 c" "ru_r14 (body c) = ru_r14 c" "ru_r15 (body c) = ru_r15 c"
    and keeps_frame: "i < 16 \<Longrightarrow> ru_mem (body c) (ru_rsp c + i) = ru_mem c (ru_rsp c + i)"
    and keeps_variable: "saved_user_rsp (body c) = saved_user_rsp c"
begin

lemma frame_words: "load64 (ru_mem (body c)) (ru_rsp c) = load64 (ru_mem c) (ru_rsp c)"
  "load64 (ru_mem (body c)) (ru_rsp c + 8) = load64 (ru_mem c) (ru_rsp c + 8)"
proof -
  show "load64 (ru_mem (body c)) (ru_rsp c) = load64 (ru_mem c) (ru_rsp c)"
    by (rule load64_cong) (simp add: keeps_frame word_less_nat_alt)
  show "load64 (ru_mem (body c)) (ru_rsp c + 8) = load64 (ru_mem c) (ru_rsp c + 8)"
  proof (rule load64_cong)
    fix i :: u64 assume "i < 8"
    then have "unat (8 + i) < 16" by (simp add: unat_add_64 word_less_nat_alt)
    then show "ru_mem (body c) (ru_rsp c + 8 + i) = ru_mem c (ru_rsp c + 8 + i)"
      using keeps_frame [of "8 + i" c] by (simp add: word_less_nat_alt add.assoc)
  qed
qed

lemma stub_returns:
  fixes c :: ring_cpu and stack_top :: u64
  defines "c' \<equiv> syscall_entry_stub stack_top body c"
  shows "ru_rcx c' = ru_rcx c" "ru_r11 c' = ru_r11 c" "ru_rsp c' = ru_rsp c" "ru_rbx c' = ru_rbx c"
    "ru_rbp c' = ru_rbp c" "ru_r12 c' = ru_r12 c" "ru_r13 c' = ru_r13 c" "ru_r14 c' = ru_r14 c" "ru_r15 c' = ru_r15 c"
proof -
  define c1 where "c1 = (ru_push (ru_r11 c) (ru_push (ru_rcx c) (c\<lparr>saved_user_rsp := ru_rsp c, ru_rsp := stack_top\<rparr>)))
    \<lparr>ru_rdi := ru_rax c\<rparr>"
  have m: "load64 (ru_mem c1) (ru_rsp c1) = ru_r11 c" "load64 (ru_mem c1) (ru_rsp c1 + 8) = ru_rcx c"
    by (simp_all add: c1_def ru_push_def mem_simps)
  have b: "load64 (ru_mem (body c1)) (ru_rsp (body c1)) = ru_r11 c" "load64 (ru_mem (body c1)) (ru_rsp (body c1) + 8) = ru_rcx c"
    using frame_words [of c1] by (simp_all add: m keeps_rsp)
  have c': "c' = (body c1)\<lparr>ru_r11 := ru_r11 c, ru_rcx := ru_rcx c, ru_rsp := saved_user_rsp (body c1)\<rparr>"
    using b by (simp add: c'_def syscall_entry_stub_def Let_def ru_pop_def c1_def ru_push_def)
  have k: "saved_user_rsp (body c1) = ru_rsp c" "ru_rbx (body c1) = ru_rbx c" "ru_rbp (body c1) = ru_rbp c"
    "ru_r12 (body c1) = ru_r12 c" "ru_r13 (body c1) = ru_r13 c" "ru_r14 (body c1) = ru_r14 c" "ru_r15 (body c1) = ru_r15 c"
    unfolding keeps_variable keeps_saved by (simp_all add: c1_def ru_push_def)
  show "ru_rcx c' = ru_rcx c" "ru_r11 c' = ru_r11 c" "ru_rsp c' = ru_rsp c" "ru_rbx c' = ru_rbx c"
    "ru_rbp c' = ru_rbp c" "ru_r12 c' = ru_r12 c" "ru_r13 c' = ru_r13 c" "ru_r14 c' = ru_r14 c" "ru_r15 c' = ru_r15 c"
    by (simp_all add: c' k)
qed

end

text \<open>The dispatcher as a callee: the result in rax, the log elsewhere.\<close>

definition dispatch_body :: "ring_cpu \<Rightarrow> ring_cpu" where
  "dispatch_body c = c\<lparr>ru_rax := - ENOSYS\<rparr>"

interpretation sd: sysv_callee dispatch_body
  by unfold_locales (simp_all add: dispatch_body_def)

lemma dispatch_result:
  assumes "transmitter_ready (line s)"
  shows "\<exists>s'. syscall_dispatch n s = Some (- 38, s')"
proof -
  have r: "render ''syscall: number %lu is not implemented (ENOSYS)'' [Arg_long n] =
      Inr (''syscall: number '' @ unsigned_text n 10 False 0 False @ '' is not implemented (ENOSYS)'')"
    by (simp add: rendering)
  show ?thesis
    by (rule log_write_returns [OF assms r, of LOG_LEVEL_WARN]) (simp add: syscall_dispatch_def logged_def)
qed

section \<open>Properties\<close>

text \<open>What \<^verbatim>\<open>syscall_init\<close> leaves in the processor.\<close>

definition enabled :: "u64 \<Rightarrow> syscalls \<Rightarrow> syscalls \<Rightarrow> bool" where
  "enabled entry s s' \<longleftrightarrow>
     sc_msrs s' = (sc_msrs s)(IA32_EFER := sc_msrs s IA32_EFER OR 1, IA32_STAR := 0x0010000800000000,
       IA32_LSTAR := entry, IA32_FMASK := 0x300) \<and>
     sc_descriptors s' = gdt_set_kernel_stack (sc_descriptors s) (kernel_syscall_rsp s')"

lemma render_enabled:
  "render ''syscall: SYSCALL/SYSRET enabled, entry=%p'' [Arg_ptr a] =
     Inr (''syscall: SYSCALL/SYSRET enabled, entry=0x'' @ unsigned_text a 16 False 16 True)"
  by (simp add: rendering)

lemma syscall_init_result:
  assumes "vmm_inv (sc_vmm s)" and "mappable (sc_vmm s) 4"
    and "transmitter_ready (line (sc_log s))"
  shows "\<exists>r. syscall_init entry s = Some r \<and> (case r of
     Inl e \<Rightarrow> e = Panic ''syscall: failed to allocate the kernel-entry stack'' [] \<and> card (pmm_avail (vmm_pmm (sc_vmm s))) \<le> 16
   | Inr s' \<Rightarrow> enabled entry s s' \<and> vmm_inv (sc_vmm s') \<and> keeps_paths (sc_vmm s) (sc_vmm s') \<and>
       dynamic_next_vaddr (sc_vmm s') = dynamic_next_vaddr (sc_vmm s) + 6 * PAGE_SIZE \<and>
       card (pmm_avail (vmm_pmm (sc_vmm s))) \<le> card (pmm_avail (vmm_pmm (sc_vmm s'))) + 16 \<and> transmitter_ready (line (sc_log s')) \<and>
       kernel_syscall_rsp s' = dynamic_next_vaddr (sc_vmm s) + 5 * PAGE_SIZE \<and>
       region_mapped (sc_vmm s) (dynamic_next_vaddr (sc_vmm s) + PAGE_SIZE) VMM_WRITABLE 0 4 (sc_vmm s'))"
proof -
  obtain st v where v: "vmm_alloc_guarded (sc_vmm s) 4 VMM_WRITABLE = Inr (st, v)" "vmm_inv v" "keeps_paths (sc_vmm s) v"
    "dynamic_next_vaddr v = dynamic_next_vaddr (sc_vmm s) + 6 * PAGE_SIZE"
    "card (pmm_avail (vmm_pmm (sc_vmm s))) \<le> card (pmm_avail (vmm_pmm v)) + 16"
    "case st of None \<Rightarrow> card (pmm_avail (vmm_pmm (sc_vmm s))) \<le> 4 * unat (4 :: u64)
     | Some start \<Rightarrow> start = dynamic_next_vaddr (sc_vmm s) + PAGE_SIZE \<and>
         region_mapped (sc_vmm s) start VMM_WRITABLE 0 (unat (4 :: u64)) v"
    using vmm_alloc_guarded_result [OF assms(1), of 4 VMM_WRITABLE] assms(2) by auto
  obtain l where l: "log_write LOG_LEVEL_INFO ''syscall: SYSCALL/SYSRET enabled, entry=%p'' [Arg_ptr entry] (sc_log s) = Inr (Some l)"
      "transmitter_ready (line l)"
    by (rule log_write_returns [OF assms(3) render_enabled])
  show ?thesis
  proof (cases st)
    case None
    then show ?thesis using v by (simp add: syscall_init_def)
  next
    case (Some start)
    then show ?thesis
      using v l by (auto simp: syscall_init_def logged_def Let_def enabled_def)
  qed
qed

lemma syscall_init_succeeds:
  assumes "vmm_inv (sc_vmm s)" "mappable (sc_vmm s) 4" "transmitter_ready (line (sc_log s))"
    and c: "16 < card (pmm_avail (vmm_pmm (sc_vmm s)))"
  obtains s' where "syscall_init entry s = Some (Inr s')" "enabled entry s s'" "vmm_inv (sc_vmm s')"
    "keeps_paths (sc_vmm s) (sc_vmm s')" "dynamic_next_vaddr (sc_vmm s') = dynamic_next_vaddr (sc_vmm s) + 6 * PAGE_SIZE"
    "card (pmm_avail (vmm_pmm (sc_vmm s))) \<le> card (pmm_avail (vmm_pmm (sc_vmm s'))) + 16"
    "transmitter_ready (line (sc_log s'))"
  using syscall_init_result [OF assms(1-3), of entry] c by (elim exE) (auto split: sum.split_asm)

text \<open>The segments after \<^verbatim>\<open>gdt_init\<close> are there whatever stack the TSS names.\<close>

lemma kernel_stack_segments:
  fixes gdt_addr tss_addr a :: u64 and d :: descriptors
  defines "ds \<equiv> gdt_set_kernel_stack (gdt_init gdt_addr tss_addr d) a"
  shows "code_segment 0 (selected (gdt ds) 8)" "data_segment 0 (selected (gdt ds) 0x10)"
    "data_segment 3 (selected (gdt ds) 0x1b)" "code_segment 3 (selected (gdt ds) 0x23)"
    "tss_base (gdt_tss (gdt ds)) = tss_addr" "tss_rsp0 (the_tss ds) = a"
  using gdt_init_segments [of gdt_addr tss_addr d] gdt_init_tss(1) [of gdt_addr tss_addr d]
  by (simp_all add: gdt_set_kernel_stack_def ds_def)

lemma jump_selectors:
  "ru_cs (jump_to_ring3 e us c) = 0x23" "ru_ss (jump_to_ring3 e us c) = 0x1b" "ru_data (jump_to_ring3 e us c) = 0x1b"
  "ru_rip (jump_to_ring3 e us c) = e" "ru_rsp (jump_to_ring3 e us c) = us" "ru_rflags (jump_to_ring3 e us c) = 0x202"
  by (simp_all add: jump_to_ring3_def do_iret_def ru_push_def ru_pop_def Let_def mem_simps)

lemma mask_cleared: "(x AND - 769) AND 768 = (0 :: u64)"
proof -
  have "(- 769 :: u64) AND 768 = 0" by simp
  then show ?thesis by (simp only: and.assoc and_zero_eq)
qed

lemma enabled_selectors:
  assumes "enabled entry s s'"
  shows "ru_cs (do_syscall (sc_msrs s') c) = 8" "ru_ss (do_syscall (sc_msrs s') c) = 0x10"
    "ru_cs (do_sysret (sc_msrs s') c) = 0x23" "ru_ss (do_sysret (sc_msrs s') c) = 0x1b"
    "ru_rip (do_syscall (sc_msrs s') c) = entry" "ru_rflags (do_syscall (sc_msrs s') c) AND 0x300 = 0"
    "ru_rsp (do_syscall (sc_msrs s') c) = ru_rsp c"
proof -
  have m: "sc_msrs s' = (sc_msrs s)(IA32_EFER := sc_msrs s IA32_EFER OR 1, IA32_STAR := 0x0010000800000000,
       IA32_LSTAR := entry, IA32_FMASK := 0x300)"
    using assms by (simp add: enabled_def)
  have star: "drop_bit 32 (0x0010000800000000 :: u64) = 0x100008" "drop_bit 48 (0x0010000800000000 :: u64) = 0x10" by simp_all
  show "ru_cs (do_syscall (sc_msrs s') c) = 8" "ru_ss (do_syscall (sc_msrs s') c) = 0x10"
    "ru_cs (do_sysret (sc_msrs s') c) = 0x23" "ru_ss (do_sysret (sc_msrs s') c) = 0x1b"
    "ru_rip (do_syscall (sc_msrs s') c) = entry" "ru_rflags (do_syscall (sc_msrs s') c) AND 0x300 = 0"
    "ru_rsp (do_syscall (sc_msrs s') c) = ru_rsp c"
    by (simp_all add: m star do_syscall_def do_sysret_def mask_cleared)
qed

text \<open>
  C23: the ring transitions land on the right segments. On the descriptors of
  \<^verbatim>\<open>gdt_init\<close>, with no large page on the way to the stack, \<^verbatim>\<open>syscall_init\<close> returns, or panics and then at most sixteen frames
  were free. When it returns, the stack both ways into the kernel use is four freshly mapped writable pages; the
  selectors the processor computes from STAR on SYSCALL name the 64-bit kernel code and the kernel data
  segment, those of SYSRET the 64-bit user code and the user data segment of privilege level 3, and
  they are the ones \<^verbatim>\<open>jump_to_ring3\<close> pushes; SYSCALL enters the stub with interrupts and
  single-stepping off.
\<close>

theorem syscall_segments:
  assumes "vmm_inv (sc_vmm s)" and "mappable (sc_vmm s) 4"
    and "transmitter_ready (line (sc_log s))" and "sc_descriptors s = gdt_init gdt_addr tss_addr d"
  shows "\<exists>r. syscall_init entry s = Some r \<and> (case r of
     Inl e \<Rightarrow> e = Panic ''syscall: failed to allocate the kernel-entry stack'' [] \<and> card (pmm_avail (vmm_pmm (sc_vmm s))) \<le> 16
   | Inr s' \<Rightarrow> let g = gdt (sc_descriptors s'); k = do_syscall (sc_msrs s') c; u = do_sysret (sc_msrs s') c;
         j = jump_to_ring3 user_entry user_stack c
       in region_mapped (sc_vmm s) (kernel_syscall_rsp s' - 4 * PAGE_SIZE) VMM_WRITABLE 0 4 (sc_vmm s') \<and>
          tss_rsp0 (the_tss (sc_descriptors s')) = kernel_syscall_rsp s' \<and> tss_base (gdt_tss g) = tss_addr \<and>
          code_segment 0 (selected g (ru_cs k)) \<and> data_segment 0 (selected g (ru_ss k)) \<and>
          code_segment 3 (selected g (ru_cs u)) \<and> data_segment 3 (selected g (ru_ss u)) \<and>
          ru_cs j = ru_cs u \<and> ru_ss j = ru_ss u \<and> ru_data j = ru_ss u \<and>
          ru_rip j = user_entry \<and> ru_rsp j = user_stack \<and> ru_rflags j = 0x202 \<and>
          ru_rip k = entry \<and> ru_rflags k AND 0x300 = 0 \<and> ru_rsp k = ru_rsp c)"
proof -
  obtain r where r: "syscall_init entry s = Some r" "case r of
     Inl e \<Rightarrow> e = Panic ''syscall: failed to allocate the kernel-entry stack'' [] \<and> card (pmm_avail (vmm_pmm (sc_vmm s))) \<le> 16
   | Inr s' \<Rightarrow> enabled entry s s' \<and> vmm_inv (sc_vmm s') \<and> keeps_paths (sc_vmm s) (sc_vmm s') \<and>
       dynamic_next_vaddr (sc_vmm s') = dynamic_next_vaddr (sc_vmm s) + 6 * PAGE_SIZE \<and>
       card (pmm_avail (vmm_pmm (sc_vmm s))) \<le> card (pmm_avail (vmm_pmm (sc_vmm s'))) + 16 \<and> transmitter_ready (line (sc_log s')) \<and>
       kernel_syscall_rsp s' = dynamic_next_vaddr (sc_vmm s) + 5 * PAGE_SIZE \<and>
       region_mapped (sc_vmm s) (dynamic_next_vaddr (sc_vmm s) + PAGE_SIZE) VMM_WRITABLE 0 4 (sc_vmm s')"
    using syscall_init_result [OF assms(1-3), of entry] by blast
  show ?thesis
  proof (cases r)
    case (Inl e)
    then show ?thesis using r by simp
  next
    case (Inr s')
    then have e: "enabled entry s s'" "kernel_syscall_rsp s' = dynamic_next_vaddr (sc_vmm s) + 5 * PAGE_SIZE"
      "region_mapped (sc_vmm s) (dynamic_next_vaddr (sc_vmm s) + PAGE_SIZE) VMM_WRITABLE 0 4 (sc_vmm s')"
      using r(2) by simp_all
    have m: "region_mapped (sc_vmm s) (kernel_syscall_rsp s' - 4 * PAGE_SIZE) VMM_WRITABLE 0 4 (sc_vmm s')"
      using e(3) by (simp add: e(2) add.commute)
    have d: "sc_descriptors s' = gdt_set_kernel_stack (gdt_init gdt_addr tss_addr d) (kernel_syscall_rsp s')"
      using e(1) assms(4) by (simp add: enabled_def)
    note seg = kernel_stack_segments [of gdt_addr tss_addr d "kernel_syscall_rsp s'", folded d]
    note sel = enabled_selectors [OF e(1), of c]
    show ?thesis
      unfolding r(1) Inr option.inject sum.case Let_def using m seg by (simp add: sel jump_selectors)
  qed
qed

lemma syscall_roundtrip_result:
  assumes "sysv_callee body" and "enabled entry s s'" and "\<And>c. ru_rax (body c) = result"
    and "c1 = do_syscall (sc_msrs s') c"
    and "c2 = do_sysret (sc_msrs s') (syscall_entry_stub (kernel_syscall_rsp s') body c1)"
  shows "ru_rip c1 = entry \<and> ru_cs c1 = 8 \<and> ru_rip c2 = ru_rip c \<and> ru_rsp c2 = ru_rsp c \<and>
    ru_rflags c2 = (ru_rflags c AND 0x3c7fd7) OR 2 \<and> ru_cs c2 = 0x23 \<and> ru_ss c2 = 0x1b \<and>
    ru_rbx c2 = ru_rbx c \<and> ru_rbp c2 = ru_rbp c \<and> ru_r12 c2 = ru_r12 c \<and> ru_r13 c2 = ru_r13 c \<and>
    ru_r14 c2 = ru_r14 c \<and> ru_r15 c2 = ru_r15 c \<and> ru_rax c2 = result"
proof -
  note st = sysv_callee.stub_returns [OF assms(1), of "kernel_syscall_rsp s'" c1]
  have rax: "ru_rax (syscall_entry_stub top body c) = result" for top c
    using assms(3) by (simp add: syscall_entry_stub_def Let_def ru_pop_def)
  have c1: "ru_rip c1 = entry" "ru_cs c1 = 8" "ru_rcx c1 = ru_rip c" "ru_r11 c1 = ru_rflags c" "ru_rsp c1 = ru_rsp c"
    "ru_rbx c1 = ru_rbx c" "ru_rbp c1 = ru_rbp c" "ru_r12 c1 = ru_r12 c" "ru_r13 c1 = ru_r13 c" "ru_r14 c1 = ru_r14 c"
    "ru_r15 c1 = ru_r15 c"
    using assms(2) by (simp_all add: assms(4) enabled_def do_syscall_def)
  show ?thesis
    using assms(2) by (simp add: assms(5) do_sysret_def st rax c1 enabled_def)
qed

text \<open>
  C24: a system call and back. Whatever a user program's registers, its SYSCALL enters the
  kernel on the kernel's own stack with its return address and flags saved there, and once the dispatcher
  has returned it resumes after the instruction in ring 3, with its stack pointer, its callee-saved
  registers and every flag SYSRET restores, rax holding the dispatcher's result. This holds for every
  compiled dispatcher that keeps the calling convention.
\<close>

theorem syscall_roundtrip:
  assumes "sysv_callee body" and "enabled entry s s'" and "\<And>c. ru_rax (body c) = result"
    and "c1 = do_syscall (sc_msrs s') c"
    and "c2 = do_sysret (sc_msrs s') (syscall_entry_stub (kernel_syscall_rsp s') body c1)"
  shows "ru_rip c1 = entry \<and> ru_cs c1 = 8 \<and> ru_rip c2 = ru_rip c \<and> ru_rsp c2 = ru_rsp c \<and>
    ru_rflags c2 = (ru_rflags c AND 0x3c7fd7) OR 2 \<and> ru_cs c2 = 0x23 \<and> ru_ss c2 = 0x1b \<and>
    ru_rbx c2 = ru_rbx c \<and> ru_rbp c2 = ru_rbp c \<and> ru_r12 c2 = ru_r12 c \<and> ru_r13 c2 = ru_r13 c \<and>
    ru_r14 c2 = ru_r14 c \<and> ru_r15 c2 = ru_r15 c \<and> ru_rax c2 = result"
  using assms by (rule syscall_roundtrip_result)

definition demo_descriptors :: descriptors where
  "demo_descriptors = \<lparr>gdt = zero_gdt, the_tss = zero_tss, segs = \<lparr>reg_gdtr = \<lparr>gdtr_limit = 0, gdtr_base = 0\<rparr>,
     reg_cs = 0, reg_ds = 0, reg_es = 0, reg_fs = 0, reg_gs = 0, reg_ss = 0, reg_tr = 0\<rparr>\<rparr>"

definition demo_syscalls :: syscalls where
  "demo_syscalls = \<lparr>sc_vmm = demo_vmm, sc_descriptors = gdt_init 0xffffffff80010000 0xffffffff80011000 demo_descriptors,
     sc_msrs = (\<lambda>_. 0x500), sc_log = demo_logger, kernel_syscall_rsp = 0\<rparr>"

lemma demo_syscalls_ok:
  "vmm_inv (sc_vmm demo_syscalls)" "mappable (sc_vmm demo_syscalls) 4"
  "transmitter_ready (line (sc_log demo_syscalls))"
  using demo_vmm_inv demo_mappable demo_ready by (simp_all add: demo_syscalls_def)

lemma demo_enabled: "\<exists>s'. syscall_init entry demo_syscalls = Some (Inr s') \<and> enabled entry demo_syscalls s'"
proof (rule syscall_init_succeeds [OF demo_syscalls_ok, of entry])
  show "16 < card (pmm_avail (vmm_pmm (sc_vmm demo_syscalls)))" using demo_card by (simp add: demo_syscalls_def)
qed blast

definition demo_user :: ring_cpu where
  "demo_user = \<lparr>ru_rax = 1, ru_rcx = 2, ru_r11 = 3, ru_rdi = 4, ru_rsi = 5, ru_rbx = 6, ru_rbp = 7, ru_r12 = 8,
     ru_r13 = 9, ru_r14 = 10, ru_r15 = 11, ru_rsp = 0x501000, ru_rip = 0x400002, ru_rflags = 0x202, ru_cs = 0x23,
     ru_ss = 0x1b, ru_data = 0x1b, ru_mem = (\<lambda>_. 0), saved_user_rsp = 0\<rparr>"

theorem syscall_segments_witness:
  "\<exists>s'. syscall_init 0xffffffff80005000 demo_syscalls = Some (Inr s') \<and>
     ru_rip (do_syscall (sc_msrs s') demo_user) = 0xffffffff80005000 \<and>
     code_segment 0 (selected (gdt (sc_descriptors s')) (ru_cs (do_syscall (sc_msrs s') demo_user))) \<and>
     tss_rsp0 (the_tss (sc_descriptors s')) = kernel_syscall_rsp s'"
proof -
  obtain s' where s': "syscall_init 0xffffffff80005000 demo_syscalls = Some (Inr s')" using demo_enabled by blast
  have "sc_descriptors demo_syscalls = gdt_init 0xffffffff80010000 0xffffffff80011000 demo_descriptors"
    by (simp add: demo_syscalls_def)
  from syscall_segments [OF demo_syscalls_ok this, of "0xffffffff80005000" demo_user] s'
  show ?thesis by (simp add: Let_def)
qed


theorem syscall_roundtrip_witness:
  "\<exists>s'. enabled 0xffffffff80005000 demo_syscalls s' \<and>
     ru_rip (do_sysret (sc_msrs s') (syscall_entry_stub (kernel_syscall_rsp s') dispatch_body
       (do_syscall (sc_msrs s') demo_user))) = 0x400002"
proof -
  obtain s' where s': "enabled 0xffffffff80005000 demo_syscalls s'" using demo_enabled by blast
  have "ru_rax (dispatch_body c) = - 38" for c by (simp add: dispatch_body_def)
  from syscall_roundtrip [OF sd.sysv_callee_axioms s' this refl refl, of demo_user] s'
  show ?thesis by (auto simp: demo_user_def)
qed


end
