(* ===== verification/Kernel_Main.thy ===== *)
theory Kernel_Main
  imports Sched_Thread Acpi_Madt Arch_Idt Drv_Timer Drv_Keyboard Arch_Syscall
begin

text \<open>
  \<^verbatim>\<open>kernel/main.c\<close> and \<^verbatim>\<open>kernel/arch/x86_64/boot/entry.c\<close>: the boot sequence, from the
  state the bootloader leaves up to the creation of the threads. The state of the machine puts the states of
  the components side by side; a step of the sequence hands a component its part and takes it
  back. Interrupts that arrive between two calls, once they are enabled, are not part of the sequence.
\<close>

section \<open>The machine\<close>

text \<open>The addresses the linker gives to what the boot sequence names.\<close>

record image =
  gdt_address :: u64
  tss_address :: u64
  idt_address :: u64
  stub_address :: "stub \<Rightarrow> u64"
  syscall_entry_address :: u64
  trampoline_address :: u64
  demo_thread_address :: u64
  ring3_demo_address :: u64
  name_address :: "char \<Rightarrow> u64"

record machine =
  mc_log :: logger
  mc_descriptors :: descriptors
  mc_idt :: "idt \<times> gdtr"
  mc_handlers :: handlers
  mc_vmm :: vmm
  mc_heap :: heap
  mc_acpi :: acpi
  mc_msrs :: msrs
  mc_ports :: ports
  mc_mmio :: mmio
  mc_lapic_base :: u64
  mc_ioapic_base :: u64
  mc_sched :: sched
  mc_ticks :: u64
  mc_syscall_rsp :: u64

definition apic_of :: "machine \<Rightarrow> apic" where
  "apic_of m = \<lparr>apic_vmm = mc_vmm m, apic_msrs = mc_msrs m, apic_ports = mc_ports m, apic_mmio = mc_mmio m,
     lapic_base = mc_lapic_base m, ioapic_base = mc_ioapic_base m\<rparr>"

definition with_apic :: "apic \<Rightarrow> machine \<Rightarrow> machine" where
  "with_apic a m = m\<lparr>mc_vmm := apic_vmm a, mc_msrs := apic_msrs a, mc_ports := apic_ports a, mc_mmio := apic_mmio a,
     mc_lapic_base := lapic_base a, mc_ioapic_base := ioapic_base a\<rparr>"

definition timer_of :: "machine \<Rightarrow> timer" where
  "timer_of m = \<lparr>timer_ticks = mc_ticks m, timer_sched = mc_sched m, timer_handlers = mc_handlers m,
     timer_apic = apic_of m, timer_log = mc_log m\<rparr>"

definition with_timer :: "timer \<Rightarrow> machine \<Rightarrow> machine" where
  "with_timer t m = with_apic (timer_apic t)
     (m\<lparr>mc_ticks := timer_ticks t, mc_sched := timer_sched t, mc_handlers := timer_handlers t, mc_log := timer_log t\<rparr>)"

definition syscalls_of :: "machine \<Rightarrow> syscalls" where
  "syscalls_of m = \<lparr>sc_vmm = mc_vmm m, sc_descriptors = mc_descriptors m, sc_msrs = mc_msrs m, sc_log = mc_log m,
     kernel_syscall_rsp = mc_syscall_rsp m\<rparr>"

definition with_syscalls :: "syscalls \<Rightarrow> machine \<Rightarrow> machine" where
  "with_syscalls s m = m\<lparr>mc_vmm := sc_vmm s, mc_descriptors := sc_descriptors s, mc_msrs := sc_msrs s, mc_log := sc_log s,
     mc_syscall_rsp := kernel_syscall_rsp s\<rparr>"

definition kernel_of :: "machine \<Rightarrow> kernel" where
  "kernel_of m = \<lparr>k_heap = mc_heap m, k_vmm = mc_vmm m, k_sched = mc_sched m\<rparr>"

definition with_kernel :: "kernel \<Rightarrow> machine \<Rightarrow> machine" where
  "with_kernel k m = m\<lparr>mc_heap := k_heap k, mc_vmm := k_vmm k, mc_sched := k_sched k\<rparr>"

lemmas machine_parts = apic_of_def with_apic_def timer_of_def with_timer_def syscalls_of_def with_syscalls_def
  kernel_of_def with_kernel_def

section \<open>Steps that may panic or not return\<close>

definition andthen :: "'a kresult option \<Rightarrow> ('a \<Rightarrow> 'b kresult option) \<Rightarrow> 'b kresult option" where
  "andthen x f = (case x of None \<Rightarrow> None | Some (Inl e) \<Rightarrow> Some (Inl e) | Some (Inr a) \<Rightarrow> f a)"

definition say :: "log_level \<Rightarrow> string \<Rightarrow> printf_arg list \<Rightarrow> machine \<Rightarrow> machine kresult option" where
  "say level fmt args m = map_option (\<lambda>l. Inr (m\<lparr>mc_log := l\<rparr>)) (logged level fmt args (mc_log m))"

section \<open>The boot sequence\<close>

abbreviation (input) DEFAULT_IOAPIC_PHYS_BASE :: u64 where "DEFAULT_IOAPIC_PHYS_BASE \<equiv> 0xfec00000"
abbreviation (input) KEYBOARD_IRQ :: u8 where "KEYBOARD_IRQ \<equiv> 1"
abbreviation (input) KEYBOARD_VECTOR :: u8 where "KEYBOARD_VECTOR \<equiv> 33"

definition banner :: string where
  "banner = '' /$$$$$$            /$$'' @ [CHR 0x0A] @
     '' /$$__  $$          |__/'' @ [CHR 0x0A] @
     ''| $$  '' @ [CHR 0x5C] @ '' $$ /$$   /$$ /$$ /$$$$$$$'' @ [CHR 0x0A] @
     ''| $$  | $$| $$  | $$| $$| $$__  $$'' @ [CHR 0x0A] @
     ''| $$  | $$| $$  | $$| $$| $$  '' @ [CHR 0x5C] @ '' $$'' @ [CHR 0x0A] @
     ''| $$/$$ $$| $$  | $$| $$| $$  | $$'' @ [CHR 0x0A] @
     ''|  $$$$$$/|  $$$$$$/| $$| $$  | $$'' @ [CHR 0x0A] @
     '' '' @ [CHR 0x5C] @ ''____ $$$ '' @ [CHR 0x5C] @ ''______/ |__/|__/  |__/'' @ [CHR 0x0A] @
     ''      '' @ [CHR 0x5C] @ ''__/'' @ [CHR 0x0A]"

definition start_output :: "limine_responses \<Rightarrow> machine \<Rightarrow> machine kresult option" where
  "start_output lim m =
     (let l = mc_log m;
          l = l\<lparr>line := serial_init (line l)\<rparr>;
          (have_fb, con) = fb_init (boot_get_framebuffer lim) (screen l)
      in case (if have_fb then fb_clear con FB_BLACK else Some con) of
           None \<Rightarrow> None
         | Some con \<Rightarrow>
             (case serial_write banner (line l) of
                None \<Rightarrow> None
              | Some com1 \<Rightarrow>
                  let con = (if have_fb then fb_console_write banner FB_GREEN FB_BLACK con else con);
                      m = m\<lparr>mc_log := l\<lparr>line := com1, screen := con\<rparr>\<rparr>
                  in if have_fb then Some (Inr m)
                     else say LOG_LEVEL_WARN ''no framebuffer reported by the bootloader, serial only'' [] m))"

definition start_tables :: "image \<Rightarrow> machine \<Rightarrow> machine" where
  "start_tables img m =
     (let m = m\<lparr>mc_descriptors := gdt_init (gdt_address img) (tss_address img) (mc_descriptors m)\<rparr>
      in m\<lparr>mc_idt := idt_init (stub_address img) (idt_address img)\<rparr>)"

definition start_memory :: "limine_responses \<Rightarrow> machine \<Rightarrow> machine kresult option" where
  "start_memory lim m =
     andthen (Some (pmm_init lim (vmm_pmm (mc_vmm m)))) (\<lambda>p.
     let m = m\<lparr>mc_vmm := (mc_vmm m)\<lparr>vmm_pmm := p\<rparr>\<rparr> in
     andthen (Some (vmm_init lim (mc_handlers m) (mc_vmm m))) (\<lambda>(hs, v).
     let m = m\<lparr>mc_handlers := hs, mc_vmm := v\<rparr> in
     andthen (Some (heap_init (mc_vmm m) (mc_heap m))) (\<lambda>(v, h).
     let m = m\<lparr>mc_vmm := v, mc_heap := h\<rparr> in
     let p = vmm_pmm (mc_vmm m) in
     say LOG_LEVEL_INFO ''mm: %lu/%lu frames free (%lu MiB)''
       [Arg_long (pmm_free_frame_count p), Arg_long (pmm_total_frame_count p),
        Arg_long ((pmm_free_frame_count p * PAGE_SIZE) div (1024 * 1024))] m)))"

definition start_interrupts :: "limine_responses \<Rightarrow> machine \<Rightarrow> machine kresult option" where
  "start_interrupts lim m =
     andthen (Some (acpi_init lim (vmm_mem (mc_vmm m)) (mc_acpi m))) (\<lambda>a.
     let m = m\<lparr>mc_acpi := a\<rparr> in
     andthen (Some (lapic_init (apic_of m))) (\<lambda>x.
     let m = with_apic x m in
     andthen (madt_parse (vmm_mem (mc_vmm m)) (mc_acpi m)) (\<lambda>(found, madt).
     andthen
       (if found
        then say LOG_LEVEL_INFO ''acpi: madt found, %u enabled cpu(s)'' [Arg_int (enabled_cpu_count madt)] m
        else say LOG_LEVEL_WARN ''acpi: no MADT, falling back to default IOAPIC base'' [] m) (\<lambda>m.
     let ioapic_phys_base =
           (if found \<and> have_ioapic madt then ioapic_address madt else DEFAULT_IOAPIC_PHYS_BASE) in
     andthen (Some (ioapic_init ioapic_phys_base (apic_of m))) (\<lambda>x. Some (Inr (with_apic x m)))))))"

definition start_devices :: "machine \<Rightarrow> machine kresult option" where
  "start_devices m =
     (let m = m\<lparr>mc_sched := sched_init (mc_sched m)\<rparr> in
      andthen (timer_init (timer_of m)) (\<lambda>t.
      let m = with_timer t m;
          m = m\<lparr>mc_handlers := keyboard_init (mc_handlers m)\<rparr>;
          (apic_id, x) = lapic_get_id (apic_of m)
      in Some (Inr (with_apic (ioapic_set_irq KEYBOARD_IRQ KEYBOARD_VECTOR (ucast apic_id) False x) m))))"

definition enable_interrupts :: "machine \<Rightarrow> machine" where
  "enable_interrupts m = m\<lparr>mc_sched := (mc_sched m)\<lparr>sched_cpu := (sched_cpu (mc_sched m))
     \<lparr>rflags := io_enable_interrupts (rflags (sched_cpu (mc_sched m)))\<rparr>\<rparr>\<rparr>"

text \<open>The result of \<^verbatim>\<open>thread_create\<close> is not looked at.\<close>

definition start_thread :: "image \<Rightarrow> u64 \<Rightarrow> u64 \<Rightarrow> machine \<Rightarrow> machine kresult option" where
  "start_thread img entry arg m =
     andthen (thread_create (trampoline_address img) (kernel_of m) entry arg) (\<lambda>(t, k). Some (Inr (with_kernel k m)))"

definition start_threads :: "image \<Rightarrow> machine \<Rightarrow> machine kresult option" where
  "start_threads img m =
     andthen (syscall_init (syscall_entry_address img) (syscalls_of m)) (\<lambda>s.
     let m = enable_interrupts (with_syscalls s m) in
     andthen (say LOG_LEVEL_INFO ''Quin Kernel Template -- Inbora Studio'' [] m) (\<lambda>m.
     andthen (say LOG_LEVEL_INFO ''booted via Limine (UEFI)'' [] m) (\<lambda>m.
     andthen (start_thread img (demo_thread_address img) (name_address img (CHR ''A'')) m) (\<lambda>m.
     andthen (start_thread img (demo_thread_address img) (name_address img (CHR ''B'')) m) (\<lambda>m.
     andthen (start_thread img (demo_thread_address img) (name_address img (CHR ''C'')) m) (\<lambda>m.
     start_thread img (ring3_demo_address img) 0 m))))))"

definition kmain_boot :: "image \<Rightarrow> limine_responses \<Rightarrow> machine \<Rightarrow> machine kresult option" where
  "kmain_boot img lim m =
     andthen (start_output lim m) (\<lambda>m.
     andthen (start_memory lim (start_tables img m)) (\<lambda>m.
     andthen (start_interrupts lim m) (\<lambda>m.
     andthen (start_devices m) (\<lambda>m.
     start_threads img m))))"

text \<open>
  \<^verbatim>\<open>kernel_entry\<close>: \<open>supported\<close> is what the macro of the protocol header
  says of the base revision. When it is not, the result is the serial line at the final halt.
\<close>

definition limine_requests_check :: "bool \<Rightarrow> serial \<Rightarrow> (serial + unit) option" where
  "limine_requests_check supported s =
     (if \<not> supported
      then map_option Inl (serial_write (''[PANIC] limine: bootloader does not support base revision 4'' @ [CHR 0x0A]) s)
      else Some (Inr ()))"

definition kernel_entry :: "bool \<Rightarrow> image \<Rightarrow> limine_responses \<Rightarrow> machine \<Rightarrow> (serial + machine kresult) option" where
  "kernel_entry supported img lim m =
     (case limine_requests_check supported (line (mc_log m)) of
        None \<Rightarrow> None
      | Some (Inl s) \<Rightarrow> Some (Inl s)
      | Some (Inr _) \<Rightarrow> map_option Inr (kmain_boot img lim m))"

end
