(* ===== verification/Kernel_Boot.thy ===== *)
theory Kernel_Boot
  imports Kernel_Main
begin

text \<open>
  The boot sequence runs to its end: what the components promise, put together. The first section
  gives the composition rule; then one lemma per stage of \<^verbatim>\<open>kmain\<close> says what it needs and leaves.
\<close>

section \<open>Runs that return\<close>

definition returns :: "'a kresult option \<Rightarrow> ('a \<Rightarrow> bool) \<Rightarrow> bool" where
  "returns x P \<longleftrightarrow> (\<exists>a. x = Some (Inr a) \<and> P a)"

lemma returnsI: "x = Some (Inr a) \<Longrightarrow> P a \<Longrightarrow> returns x P"
  by (simp add: returns_def)

lemma returns_now [simp]: "returns (Some (Inr a)) P \<longleftrightarrow> P a"
  by (simp add: returns_def)

lemma andthen_now [simp]: "andthen (Some (Inr a)) f = f a"
  by (simp add: andthen_def)

lemma returns_andthen:
  assumes "returns x P" and "\<And>a. P a \<Longrightarrow> returns (f a) Q"
  shows "returns (andthen x f) Q"
  using assms by (auto simp: returns_def andthen_def)

lemma returns_mono: "returns x P \<Longrightarrow> (\<And>a. P a \<Longrightarrow> Q a) \<Longrightarrow> returns x Q"
  by (auto simp: returns_def)

section \<open>Output\<close>

abbreviation output_works :: "machine \<Rightarrow> bool" where
  "output_works m \<equiv> transmitter_ready (line (mc_log m))"

definition logged_only :: "machine \<Rightarrow> machine \<Rightarrow> bool" where
  "logged_only m m' \<longleftrightarrow> (\<exists>l. m' = m\<lparr>mc_log := l\<rparr> \<and> transmitter_ready (line l))"

lemma logged_only_update [simp]: "logged_only (m\<lparr>mc_log := l\<rparr>) = logged_only m"
  by (simp add: logged_only_def fun_eq_iff)

lemma say_returns:
  assumes "output_works m" and "render fmt args = Inr out"
  shows "returns (say level fmt args m) (logged_only m)"
proof -
  obtain l where "log_write level fmt args (mc_log m) = Inr (Some l)" "transmitter_ready (line l)"
    by (rule log_write_returns [OF assms])
  then show ?thesis by (auto simp: say_def logged_def returns_def logged_only_def)
qed

lemma boot_messages:
  "\<exists>out. render ''no framebuffer reported by the bootloader, serial only'' [] = Inr out"
  "\<exists>out. render ''mm: %lu/%lu frames free (%lu MiB)'' [Arg_long a, Arg_long b, Arg_long c] = Inr out"
  "\<exists>out. render ''acpi: madt found, %u enabled cpu(s)'' [Arg_int n] = Inr out"
  "\<exists>out. render ''acpi: no MADT, falling back to default IOAPIC base'' [] = Inr out"
  "\<exists>out. render ''Quin Kernel Template -- Inbora Studio'' [] = Inr out"
  "\<exists>out. render ''booted via Limine (UEFI)'' [] = Inr out"
  by (simp_all add: rendering)

lemma start_output_returns:
  assumes "output_works m" and "\<And>f. boot_get_framebuffer lim = Some f \<Longrightarrow> mode_ok f"
  shows "returns (start_output lim m) (logged_only m)"
proof -
  let ?s = "serial_init (line (mc_log m))" and ?con = "screen (mc_log m)"
  have "transmitter_ready ?s"
    using assms(1) by (simp add: transmitter_ready_def serial_init_probe)
  then obtain com1 where w: "serial_write banner ?s = Some com1" "transmitter_ready com1"
    using serial_write_sends sent_ready by blast
  show ?thesis
  proof (cases "boot_get_framebuffer lim")
    case None
    obtain out where "render ''no framebuffer reported by the bootloader, serial only'' [] = Inr out"
      using boot_messages(1) by blast
    from say_returns [OF _ this, of "m\<lparr>mc_log := (mc_log m)\<lparr>line := com1, screen := ?con\<rparr>\<rparr>" LOG_LEVEL_WARN] w
    show ?thesis by (simp add: None start_output_def fb_init_def logged_only_def)
  next
    case (Some f)
    note f = assms(2) [OF Some]
    have "fst (fb_init (Some f) ?con)" using fb_init_geometry(1) [OF f] .
    moreover obtain con where "fb_clear (snd (fb_init (Some f) ?con)) FB_BLACK = Some con"
      using cleared_shows [OF f, of ?con] by (auto simp: FB_BLACK_def FB_COLOR_def)
    ultimately show ?thesis
      using w by (auto simp: Some start_output_def Let_def case_prod_beta returns_def logged_only_def)
  qed
qed

section \<open>Memory\<close>

text \<open>A frame of usable memory, and the page tables as the bootloader leaves them.\<close>

definition ram_frame :: "boot_memmap_entry list \<Rightarrow> u64 \<Rightarrow> bool" where
  "ram_frame es f \<longleftrightarrow> (\<exists>e \<in> set es. entry_usable e \<and> in_entry f e)"

text \<open>
  The page tables form a tree outside usable memory, and no large page is on the way to the \<open>dyn\<close>
  pages of the guarded-stack window and the \<open>dev\<close> pages of the device window.
\<close>

definition boot_tables :: "boot_memmap_entry list \<Rightarrow> vmm \<Rightarrow> bool" where
  "boot_tables es s \<longleftrightarrow>
     (\<forall>a u. table_at s a u \<longrightarrow> \<not> ram_frame es (u div PAGE_SIZE)) \<and>
     (\<forall>a b u. table_at s a u \<longrightarrow> table_at s b u \<longrightarrow> a = b)"

definition windows_open :: "vmm \<Rightarrow> bool" where
  "windows_open s \<longleftrightarrow> (\<forall>k \<in> {1..30}. small_to s (va_path (region_page VMM_DYNAMIC_VBASE k))) \<and>
     (\<forall>k < 2. small_to s (va_path (region_page VMM_MMIO_VBASE k)))"

text \<open>Bytes that booting never writes: no usable memory, no page table the bootloader left.\<close>

definition untouched :: "boot_memmap_entry list \<Rightarrow> vmm \<Rightarrow> u64 \<Rightarrow> bool" where
  "untouched es s x \<longleftrightarrow> \<not> ram_frame es (frame_no s x) \<and> (\<forall>a u. table_at s a u \<longrightarrow> u div PAGE_SIZE \<noteq> frame_no s x)"

definition memory_up :: "boot_memmap_entry list \<Rightarrow> vmm \<Rightarrow> vmm \<Rightarrow> bool" where
  "memory_up es s0 s \<longleftrightarrow> vmm_inv s \<and> windows_open s \<and> vmm_hhdm_offset s = vmm_hhdm_offset s0 \<and>
     (\<forall>N \<in> pmm_avail (vmm_pmm s). ram_frame es (N div PAGE_SIZE)) \<and>
     (\<forall>i < bitmap_byte_count (pmm_frame_count (vmm_pmm s)). ram_frame es (bitmap_home (vmm_pmm s) i)) \<and>
     (\<forall>a u. table_at s a u \<longrightarrow> table_at s0 a u \<or> ram_frame es (u div PAGE_SIZE)) \<and>
     (\<forall>x. untouched es s0 x \<longrightarrow> vmm_mem s x = vmm_mem s0 x)"

lemma bitmap_byte_home:
  "x - pmm_bitmap p < B \<Longrightarrow> bitmap_home p (x - pmm_bitmap p) = (x - pmm_hhdm_offset p) div PAGE_SIZE"
  by (simp add: bitmap_home_def)

lemma pmm_init_memory_up:
  fixes s0 :: vmm and p :: pmm
  defines "s \<equiv> s0\<lparr>vmm_pmm := p\<rparr>"
  assumes ok: "memmap_ok es" "boot_get_memmap lim = Some es" "pmm_init lim (vmm_pmm s0) = Inr p"
      "pmm_free_frames (vmm_pmm s0) = 0"
    and h: "boot_get_hhdm_offset lim = Inr (vmm_hhdm_offset s0)"
    and t: "boot_tables es s0" "windows_open s0"
  shows "memory_up es s0 s"
proof -
  note st = pmm_init_state [OF ok]
  obtain phys fe where hp: "boot_get_hhdm_offset lim = Inr (pmm_hhdm_offset p)"
    and home: "\<And>i. i < bitmap_byte_count (pmm_frame_count p) \<Longrightarrow> ram_frame es (bitmap_home p i)"
    using pmm_init_steps [OF ok] unfolding ram_frame_def by metis
  have off: "pmm_hhdm_offset p = vmm_hhdm_offset s0" using h hp by simp
  have kept: "pmm_mem p x = vmm_mem s0 x" if "\<not> ram_frame es (frame_no s0 x)" for x
    using st(3) [of x] home [of "x - pmm_bitmap p"] bitmap_byte_home [of x p] that
    by (auto simp: frame_no_def off)
  have same: "same_tables (vmm_mem s0) (pmm_mem p) (vmm_hhdm_offset s0) (vmm_cr3 s0 AND PTE_ADDR_MASK)"
    unfolding same_tables_def
  proof (intro allI impI)
    fix a u and i :: u32 assume u: "reaches (vmm_mem s0) (vmm_hhdm_offset s0) (vmm_cr3 s0 AND PTE_ADDR_MASK) a u" and i: "i < 512"
    have pt: "phys_table u" using reaches_phys_table [OF _ u] by simp
    have nr: "\<not> ram_frame es (u div PAGE_SIZE)" using t(1) u by (auto simp: boot_tables_def table_at_def)
    show "load64 (pmm_mem p) (slot (u + vmm_hhdm_offset s0) i) = load64 (vmm_mem s0) (slot (u + vmm_hhdm_offset s0) i)"
      by (rule load64_cong, rule kept) (simp add: frame_no_def entry_byte_frame [OF pt i] nr)
  qed
  have at: "table_at s = table_at s0"
    using same_tables_reaches [OF same] by (simp add: table_at_def s_def fun_eq_iff)
  have small: "small_to s (va_path v) = small_to s0 (va_path v)" for v
    using same_tables_small [OF same, of "va_path v"] by (simp add: small_to_def s_def)
  have avail: "ram_frame es (N div PAGE_SIZE)" if "N \<in> pmm_avail p" for N
  proof -
    obtain f where f: "N = f * PAGE_SIZE" "f < pmm_frame_count p" "\<not> pmm_used p f" using \<open>N \<in> pmm_avail p\<close> by (auto simp: pmm_avail_def)
    then show ?thesis
      using st(2) [OF f(2)] frame_addr_div [OF pmm_frame_bound [OF st(1) f(2)]] by (auto simp: ram_frame_def)
  qed
  have "vmm_inv s"
  proof (rule vmm_invI)
    show "pmm_inv (vmm_pmm s)" using st(1) by (simp add: s_def)
    show "vmm_hhdm_offset s = pmm_hhdm_offset (vmm_pmm s)" using off by (simp add: s_def)
    show "off_limits (vmm_pmm s) u" if "table_at s a u" for a u
    proof -
      have "\<not> ram_frame es (u div PAGE_SIZE)" using that t(1) by (auto simp: at boot_tables_def)
      then have "u \<notin> pmm_avail p" "\<And>i. i < bitmap_byte_count (pmm_frame_count p) \<Longrightarrow> bitmap_home p i \<noteq> u div PAGE_SIZE"
        using avail home by metis+
      then show ?thesis by (simp add: off_limits_def s_def)
    qed
    show "a = b" if "table_at s a u" "table_at s b u" for a b u
      using that t(1) unfolding at boot_tables_def by blast
  qed
  then show ?thesis
    using t(2) kept avail home
    by (simp add: memory_up_def windows_open_def small at untouched_def) (simp add: s_def)
qed

lemma memory_up_lazy [simp]:
  "memory_up es s0 (s\<lparr>lazy_regions := rs\<rparr>) = memory_up es s0 s"
  by (simp add: memory_up_def vmm_inv_def windows_open_def small_to_def table_at_def)

lemma heap_init_starts:
  assumes "\<exists>r \<in> set (lazy_regions s). \<not> lr_used r"
  shows "\<exists>rs. heap_init s h = Inr (s\<lparr>lazy_regions := rs\<rparr>, fresh_heap (heap_mem h))"
  using assms register_in_result [of "lazy_regions s" "\<lparr>lr_start = HEAP_VBASE, lr_end = HEAP_VBASE + HEAP_SIZE,
      lr_flags = VMM_WRITABLE, lr_used = True\<rparr>"]
  by (auto simp: heap_init_def vmm_register_lazy_region_def fresh_heap_def Let_def split: option.splits)

definition memory_started :: "boot_memmap_entry list \<Rightarrow> vmm \<Rightarrow> pmm \<Rightarrow> machine \<Rightarrow> machine \<Rightarrow> bool" where
  "memory_started es s0 p m m' \<longleftrightarrow> (\<exists>v hp. memory_up es s0 v \<and> heap_inv hp [(HEAP_SIZE - HEADER_SIZE, True)] \<and> vmm_pmm v = p \<and>
    dynamic_next_vaddr v = dynamic_next_vaddr (mc_vmm m) \<and> mmio_next_vaddr v = mmio_next_vaddr (mc_vmm m) \<and>
    logged_only (m\<lparr>mc_handlers := (mc_handlers m)(14 \<mapsto> Page_fault_isr), mc_vmm := v, mc_heap := hp\<rparr>) m')"

lemma start_memory_returns:
  fixes m :: machine and h :: u64
  defines "s0 \<equiv> (mc_vmm m)\<lparr>vmm_hhdm_offset := h\<rparr>"
  assumes "output_works m" and ok: "memmap_ok es" "boot_get_memmap lim = Some es"
      "pmm_init lim (vmm_pmm (mc_vmm m)) = Inr p" "pmm_free_frames (vmm_pmm (mc_vmm m)) = 0"
    and h: "boot_get_hhdm_offset lim = Inr h" and t: "boot_tables es s0" "windows_open s0"
    and lazy: "\<exists>r \<in> set (lazy_regions (mc_vmm m)). \<not> lr_used r"
  shows "returns (start_memory lim m) (memory_started es s0 p m)"
proof -
  let ?v = "s0\<lparr>vmm_pmm := p\<rparr>"
  have up: "memory_up es s0 ?v"
    using pmm_init_memory_up [of es lim s0 p] ok h t by (simp add: s0_def)
  have vi: "vmm_init lim (mc_handlers m) ((mc_vmm m)\<lparr>vmm_pmm := p\<rparr>) = Inr ((mc_handlers m)(14 \<mapsto> Page_fault_isr), ?v)"
    by (simp add: vmm_init_def h interrupt_register_handler_def s0_def)
  obtain rs where hi: "heap_init ?v (mc_heap m) = Inr (?v\<lparr>lazy_regions := rs\<rparr>, fresh_heap (heap_mem (mc_heap m)))"
    using heap_init_starts [of ?v "mc_heap m"] lazy by (auto simp: s0_def)
  let ?m = "m\<lparr>mc_handlers := (mc_handlers m)(14 \<mapsto> Page_fault_isr), mc_vmm := ?v\<lparr>lazy_regions := rs\<rparr>,
    mc_heap := fresh_heap (heap_mem (mc_heap m))\<rparr>"
  obtain out where "render ''mm: %lu/%lu frames free (%lu MiB)'' [Arg_long (pmm_free_frame_count p),
      Arg_long (pmm_total_frame_count p), Arg_long ((pmm_free_frame_count p * PAGE_SIZE) div (1024 * 1024))] = Inr out"
    using boot_messages(2) by blast
  from say_returns [OF _ this, of ?m LOG_LEVEL_INFO] \<open>output_works m\<close>
  have "returns (start_memory lim m) (logged_only ?m)"
    using ok(3) vi hi by (simp add: start_memory_def andthen_def)
  then show ?thesis
    using up fresh_heap_inv [of "heap_mem (mc_heap m)"] unfolding memory_started_def
    by (elim returns_mono, intro exI [of _ "?v\<lparr>lazy_regions := rs\<rparr>"] exI [of _ "fresh_heap (heap_mem (mc_heap m))"])
      (simp, simp add: s0_def)
qed

section \<open>Interrupt controllers\<close>

lemma memory_up_mmio:
  assumes up: "memory_up es s0 s" and k: "mmio_next_vaddr s = region_page VMM_MMIO_VBASE k" "k < 2"
    and c: "4 \<le> card (pmm_avail (vmm_pmm s))"
  shows "\<exists>v. vmm_map_mmio s phys = Inr (mmio_next_vaddr s, v) \<and> memory_up es s0 v \<and>
    mmio_next_vaddr v = region_page VMM_MMIO_VBASE (Suc k) \<and> dynamic_next_vaddr v = dynamic_next_vaddr s \<and>
    card (pmm_avail (vmm_pmm s)) \<le> card (pmm_avail (vmm_pmm v)) + 3"
proof -
  have inv: "vmm_inv s" "small_to s (va_path (mmio_next_vaddr s))"
    using up k by (simp_all add: memory_up_def windows_open_def)
  obtain v where v: "vmm_map_mmio s phys = Inr (mmio_next_vaddr s, v)" "mmio_next_vaddr v = mmio_next_vaddr s + PAGE_SIZE"
      "dynamic_next_vaddr v = dynamic_next_vaddr s" "keeps_paths s v" "vmm_inv v"
    using vmm_map_mmio_result [OF inv, of phys] c by (auto split: sum.splits)
  note x = vmm_map_mmio_extends [OF inv v(1)]
  note e = x(1) [unfolded extends_def same_config_def, simplified]
  have at: "table_at (s\<lparr>mmio_next_vaddr := mmio_next_vaddr s + PAGE_SIZE\<rparr>) = table_at s"
    by (simp add: table_at_def fun_eq_iff)
  have tables: "table_at s0 a u \<or> ram_frame es (u div PAGE_SIZE)" if "table_at v a u" for a u
  proof -
    have "table_at s a u \<or> u \<in> pmm_avail (vmm_pmm s)" using e that unfolding at by blast
    then show ?thesis using up unfolding memory_up_def by blast
  qed
  have bytes: "vmm_mem v y = vmm_mem s0 y" if y: "untouched es s0 y" for y
  proof -
    have f: "frame_no s y = frame_no s0 y" using up by (simp add: memory_up_def frame_no_def)
    have "frame_no s y * PAGE_SIZE \<notin> pmm_avail (vmm_pmm s)"
      using up y frame_addr_div [of "frame_no s0 y"] frame_no_bound
      unfolding memory_up_def untouched_def f by (metis frame_no_def)
    moreover have "bitmap_home (vmm_pmm s) i \<noteq> frame_no s y"
      if "i < bitmap_byte_count (pmm_frame_count (vmm_pmm s))" for i
      using up y that unfolding memory_up_def untouched_def f by metis
    moreover have "u div PAGE_SIZE \<noteq> frame_no s y" if "table_at v a u" for a u
      using tables [OF that] y unfolding untouched_def f by metis
    ultimately have "foreign_byte (s\<lparr>mmio_next_vaddr := mmio_next_vaddr s + PAGE_SIZE\<rparr>) v y"
      by (simp add: foreign_byte_def frame_no_def)
    then have "vmm_mem v y = vmm_mem s y" using e by blast
    then show ?thesis using up y by (simp add: memory_up_def)
  qed
  have "bitmap_home (vmm_pmm v) = bitmap_home (vmm_pmm s)" using e by (simp add: bitmap_home_def fun_eq_iff)
  then have "memory_up es s0 v"
    using up e v(4,5) tables bytes by (auto simp: memory_up_def windows_open_def keeps_paths_def)
  then show ?thesis
    using v x(2) k(1) by (intro exI [of _ v]) (simp add: region_page_def algebra_simps)
qed

text \<open>A controller is in place: one more device page, at most three frames fewer.\<close>

definition device_added :: "boot_memmap_entry list \<Rightarrow> vmm \<Rightarrow> nat \<Rightarrow> apic \<Rightarrow> apic \<Rightarrow> bool" where
  "device_added es s0 k x y \<longleftrightarrow> memory_up es s0 (apic_vmm y) \<and>
     mmio_next_vaddr (apic_vmm y) = region_page VMM_MMIO_VBASE (Suc k) \<and>
     dynamic_next_vaddr (apic_vmm y) = dynamic_next_vaddr (apic_vmm x) \<and>
     card (pmm_avail (vmm_pmm (apic_vmm x))) \<le> card (pmm_avail (vmm_pmm (apic_vmm y))) + 3 \<and>
     apic_ports y = apic_ports x"

lemma lapic_init_adds:
  assumes "memory_up es s0 (apic_vmm x)" and "mmio_next_vaddr (apic_vmm x) = region_page VMM_MMIO_VBASE k" "k < 2"
    and "4 \<le> card (pmm_avail (vmm_pmm (apic_vmm x)))"
  shows "\<exists>y. lapic_init x = Inr y \<and> device_added es s0 k x y \<and> lapic_base y = region_page VMM_MMIO_VBASE k \<and>
    ioapic_base y = ioapic_base x"
  using memory_up_mmio [OF assms, of "rdmsr IA32_APIC_BASE_MSR (apic_msrs x) AND APIC_BASE_ADDR_MASK"] assms(2)
  by (auto simp: lapic_init_def lapic_write_def device_added_def Let_def)

lemma mask_entries_keeps:
  "apic_ports (mask_entries irq n s) = apic_ports s \<and> lapic_base (mask_entries irq n s) = lapic_base s"
proof (induction irq n s rule: mask_entries.induct)
  case (1 irq n s)
  then show ?case by (subst (1 2) mask_entries.simps) (simp add: ioapic_write_def)
qed

lemma ioapic_init_adds:
  assumes "memory_up es s0 (apic_vmm x)" and "mmio_next_vaddr (apic_vmm x) = region_page VMM_MMIO_VBASE k" "k < 2"
    and "4 \<le> card (pmm_avail (vmm_pmm (apic_vmm x)))"
  shows "\<exists>y. ioapic_init phys x = Inr y \<and> device_added es s0 k x y \<and> ioapic_base y = region_page VMM_MMIO_VBASE k \<and>
    lapic_base y = lapic_base x"
  using memory_up_mmio [OF assms, of phys] assms(2) mask_entries_result [of 0] mask_entries_keeps [of 0]
  by (fastforce simp: ioapic_init_def ioapic_read_def mmio_read_def device_added_def Let_def case_prod_beta)

text \<open>
  The firmware tables are in memory that booting does not write: whatever the other bytes are by
  then, the root table is accepted, and a MADT, if there is one, has its header and ends before the last
  256 bytes of the address space.
\<close>

definition acpi_described :: "boot_memmap_entry list \<Rightarrow> limine_responses \<Rightarrow> vmm \<Rightarrow> acpi \<Rightarrow> bool" where
  "acpi_described es lim s0 a0 \<longleftrightarrow> (\<exists>a t. \<forall>mm. (\<forall>x. untouched es s0 x \<longrightarrow> mm x = vmm_mem s0 x) \<longrightarrow>
     acpi_init lim mm a0 = Inr a \<and> acpi_find_table mm a ''APIC'' = Inr t \<and>
     (t \<noteq> 0 \<longrightarrow> 44 \<le> unat (table_length mm t) \<and> unat t + unat (table_length mm t) + 256 \<le> 2 ^ 64))"

lemma madt_parse_returns:
  assumes "acpi_find_table mm a ''APIC'' = Inr t"
    and "t \<noteq> 0 \<Longrightarrow> 44 \<le> unat (table_length mm t) \<and> unat t + unat (table_length mm t) + 256 \<le> 2 ^ 64"
  shows "\<exists>found madt. madt_parse mm a = Some (Inr (found, madt))"
proof (cases "t = 0")
  case True
  then show ?thesis by (auto simp: madt_parse_def assms(1))
next
  case False
  note b = assms(2) [OF False]
  then have "unat (t + 44) = unat t + 44" "unat (t + ucast (table_length mm t)) = unat t + unat (table_length mm t)"
    by (simp_all add: unat_add_64 unsigned_ucast_eq take_bit_nat_eq_self)
  then obtain r where "madt_loop mm (t + 44) (t + ucast (table_length mm t))
      (zero_madt\<lparr>local_apic_address := ucast (load32 mm (t + 36))\<rparr>) = Some r"
    using madt_loop_ends [of "t + 44" "t + ucast (table_length mm t)" mm] b by fastforce
  then show ?thesis by (auto simp add: madt_parse_def assms(1) False)
qed

text \<open>The parts of the machine the interrupt controllers do not touch.\<close>

definition keeps_core :: "machine \<Rightarrow> machine \<Rightarrow> bool" where
  "keeps_core m m' \<longleftrightarrow> mc_descriptors m' = mc_descriptors m \<and> mc_idt m' = mc_idt m \<and> mc_handlers m' = mc_handlers m \<and>
     mc_heap m' = mc_heap m \<and> mc_ports m' = mc_ports m \<and> mc_sched m' = mc_sched m \<and> mc_ticks m' = mc_ticks m"

definition controllers_up :: "boot_memmap_entry list \<Rightarrow> vmm \<Rightarrow> machine \<Rightarrow> machine \<Rightarrow> bool" where
  "controllers_up es s0 m m' \<longleftrightarrow> keeps_core m m' \<and> output_works m' \<and> memory_up es s0 (mc_vmm m') \<and>
     dynamic_next_vaddr (mc_vmm m') = dynamic_next_vaddr (mc_vmm m) \<and>
     card (pmm_avail (vmm_pmm (mc_vmm m))) \<le> card (pmm_avail (vmm_pmm (mc_vmm m'))) + 6 \<and>
     mc_lapic_base m' = VMM_MMIO_VBASE \<and> mc_ioapic_base m' = VMM_MMIO_VBASE + PAGE_SIZE"

lemma start_interrupts_returns:
  assumes out: "output_works m" and up: "memory_up es s0 (mc_vmm m)" and v: "mmio_next_vaddr (mc_vmm m) = VMM_MMIO_VBASE"
    and c: "7 \<le> card (pmm_avail (vmm_pmm (mc_vmm m)))" and a: "acpi_described es lim s0 (mc_acpi m)"
  shows "returns (start_interrupts lim m) (controllers_up es s0 m)"
proof -
  obtain ac t where ac: "\<And>mm. (\<forall>x. untouched es s0 x \<longrightarrow> mm x = vmm_mem s0 x) \<Longrightarrow>
      acpi_init lim mm (mc_acpi m) = Inr ac \<and> acpi_find_table mm ac ''APIC'' = Inr t \<and>
      (t \<noteq> 0 \<longrightarrow> 44 \<le> unat (table_length mm t) \<and> unat t + unat (table_length mm t) + 256 \<le> 2 ^ 64)"
    using a by (auto simp: acpi_described_def)
  have kept: "\<forall>x. untouched es s0 x \<longrightarrow> vmm_mem (mc_vmm m) x = vmm_mem s0 x" using up by (simp add: memory_up_def)
  let ?m1 = "m\<lparr>mc_acpi := ac\<rparr>"
  have "memory_up es s0 (apic_vmm (apic_of ?m1))" "mmio_next_vaddr (apic_vmm (apic_of ?m1)) = region_page VMM_MMIO_VBASE 0"
    "4 \<le> card (pmm_avail (vmm_pmm (apic_vmm (apic_of ?m1))))"
    using up v c by (simp_all add: apic_of_def region_page_def)
  from lapic_init_adds [OF this(1,2) _ this(3)] obtain x
    where x: "lapic_init (apic_of ?m1) = Inr x" "device_added es s0 0 (apic_of ?m1) x" "lapic_base x = VMM_MMIO_VBASE"
    by (auto simp: region_page_def)
  let ?m2 = "with_apic x ?m1"
  have m2: "memory_up es s0 (mc_vmm ?m2)" "mmio_next_vaddr (mc_vmm ?m2) = region_page VMM_MMIO_VBASE 1"
    "4 \<le> card (pmm_avail (vmm_pmm (mc_vmm ?m2)))" "keeps_core m ?m2" "output_works ?m2" "mc_lapic_base ?m2 = VMM_MMIO_VBASE"
    "dynamic_next_vaddr (mc_vmm ?m2) = dynamic_next_vaddr (mc_vmm m)"
    "card (pmm_avail (vmm_pmm (mc_vmm m))) \<le> card (pmm_avail (vmm_pmm (mc_vmm ?m2))) + 3"
    using x(2,3) c out by (simp_all add: device_added_def machine_parts keeps_core_def)
  have "\<forall>x. untouched es s0 x \<longrightarrow> vmm_mem (mc_vmm ?m2) x = vmm_mem s0 x" using m2(1) by (simp add: memory_up_def)
  then obtain found madt where p: "madt_parse (vmm_mem (mc_vmm ?m2)) ac = Some (Inr (found, madt))"
    using madt_parse_returns ac by metis
  have finish: "returns (andthen (Some (ioapic_init phys (apic_of m3))) (\<lambda>x. Some (Inr (with_apic x m3)))) (controllers_up es s0 m)"
    if said_only: "logged_only ?m2 m3" for m3 phys
  proof -
    obtain l where m3: "m3 = ?m2\<lparr>mc_log := l\<rparr>" "transmitter_ready (line l)" using said_only unfolding logged_only_def by blast
    obtain y where y: "ioapic_init phys (apic_of m3) = Inr y" "device_added es s0 1 (apic_of m3) y"
        "ioapic_base y = region_page VMM_MMIO_VBASE 1" "lapic_base y = lapic_base (apic_of m3)"
      using ioapic_init_adds [of es s0 "apic_of m3" 1 phys] m2(1-3) by (auto simp: m3 apic_of_def)
    then show ?thesis
      using m2 m3(2) by (simp add: m3(1) andthen_def controllers_up_def device_added_def machine_parts keeps_core_def region_page_def)
  qed
  obtain o1 o2 where "render ''acpi: madt found, %u enabled cpu(s)'' [Arg_int (enabled_cpu_count madt)] = Inr o1"
      "render ''acpi: no MADT, falling back to default IOAPIC base'' [] = Inr o2"
    using boot_messages(3,4) by blast
  note said = say_returns [OF m2(5) this(1), of LOG_LEVEL_INFO] say_returns [OF m2(5) this(2), of LOG_LEVEL_WARN]
  have told: "returns (if found then say LOG_LEVEL_INFO ''acpi: madt found, %u enabled cpu(s)'' [Arg_int (enabled_cpu_count madt)] ?m2
      else say LOG_LEVEL_WARN ''acpi: no MADT, falling back to default IOAPIC base'' [] ?m2) (logged_only ?m2)"
    using said by simp
  have "mc_acpi ?m2 = ac" by (simp add: with_apic_def)
  then have "start_interrupts lim m =
      andthen (if found then say LOG_LEVEL_INFO ''acpi: madt found, %u enabled cpu(s)'' [Arg_int (enabled_cpu_count madt)] ?m2
        else say LOG_LEVEL_WARN ''acpi: no MADT, falling back to default IOAPIC base'' [] ?m2) (\<lambda>m3.
      andthen (Some (ioapic_init (if found \<and> have_ioapic madt then ioapic_address madt else 0xfec00000) (apic_of m3)))
        (\<lambda>x. Some (Inr (with_apic x m3))))"
    using ac [OF kept] x(1) p by (simp add: start_interrupts_def Let_def)
  then show ?thesis using returns_andthen [OF told finish] by simp
qed

section \<open>Timer and keyboard\<close>

text \<open>
  The device writes end with the timer's calibration, its start in periodic mode on vector 32, and line 1 routed to
  vector 33 of the processor.
\<close>

definition devices_programmed :: "u64 \<Rightarrow> u64 \<Rightarrow> (u64 \<times> u32) list \<Rightarrow> bool" where
  "devices_programmed lapic ioapic ws \<longleftrightarrow> (\<exists>ws0 f dest. ws = ws0 @
     [(lapic + 0x3e0, 3), (lapic + 0x320, 0x30020), (lapic + 0x380, 0xffffffff), (lapic + 0x380, f div 1000),
      (lapic + 0x320, 0x20020), (ioapic, 0x13), (ioapic + 0x10, push_bit 24 dest), (ioapic, 0x12), (ioapic + 0x10, 0x21)])"

definition devices_up :: "machine \<Rightarrow> machine \<Rightarrow> bool" where
  "devices_up m m' \<longleftrightarrow> mc_descriptors m' = mc_descriptors m \<and> mc_idt m' = mc_idt m \<and> mc_heap m' = mc_heap m \<and>
     mc_vmm m' = mc_vmm m \<and> mc_ticks m' = mc_ticks m \<and> mc_sched m' = sched_init (mc_sched m) \<and> output_works m' \<and>
     mc_handlers m' = (mc_handlers m)(32 \<mapsto> Timer_tick_handler, 33 \<mapsto> Keyboard_isr) \<and>
     devices_programmed (mc_lapic_base m) (mc_ioapic_base m) (mmio_writes (mc_mmio m'))"

lemma start_devices_returns:
  assumes "output_works m"
    and pit: "\<exists>k > port_reads (mc_ports m). port_answers (mc_ports m) k 0x61 AND 0x20 \<noteq> 0"
  shows "returns (start_devices m) (devices_up m)"
proof -
  let ?m1 = "m\<lparr>mc_sched := sched_init (mc_sched m)\<rparr>"
  obtain f a l where t: "timer_init (timer_of ?m1) = Some (Inr ((timer_of ?m1)\<lparr>timer_handlers :=
      (timer_handlers (timer_of ?m1))(32 \<mapsto> Timer_tick_handler), timer_apic := a, timer_log := l\<rparr>))"
    and c: "calibrated 32 1000 (timer_apic (timer_of ?m1)) f a" and l: "transmitter_ready (line l)"
    using timer_init_result [of "timer_of ?m1"] assms by (auto simp: timer_of_def apic_of_def)
  obtain k b where id: "lapic_get_id (a::apic) = (k, b)" by fastforce
  then have b: "b = a\<lparr>apic_mmio := apic_mmio b\<rparr>" "mmio_writes (apic_mmio b) = mmio_writes (apic_mmio a)"
    by (auto simp: lapic_get_id_def lapic_read_def mmio_read_def)
  let ?x = "ioapic_set_irq KEYBOARD_IRQ KEYBOARD_VECTOR (ucast k) False b"
  have x: "apic_vmm ?x = apic_vmm b" "lapic_base ?x = lapic_base b" "ioapic_base ?x = ioapic_base b"
    by (simp_all add: ioapic_set_irq_def ioapic_write_def)
  have same: "apic_vmm b = apic_vmm a" "lapic_base b = lapic_base a" "ioapic_base b = ioapic_base a"
    using arg_cong [OF b(1), of apic_vmm] arg_cong [OF b(1), of lapic_base] arg_cong [OF b(1), of ioapic_base] by simp_all
  have w: "mmio_writes (apic_mmio a) = mmio_writes (mc_mmio m) @
      [(mc_lapic_base m + 0x3e0, 3), (mc_lapic_base m + 0x320, 0x30020), (mc_lapic_base m + 0x380, 0xffffffff),
       (mc_lapic_base m + 0x380, f div 1000), (mc_lapic_base m + 0x320, 0x20020)]" "ioapic_base a = mc_ioapic_base m"
    using c unfolding calibrated_def by (simp_all add: timer_of_def apic_of_def)
  have "devices_programmed (mc_lapic_base m) (mc_ioapic_base m) (mmio_writes (apic_mmio ?x))"
    unfolding set_irq_log b(2) same(3) w devices_programmed_def
    by (intro exI [of _ "mmio_writes (mc_mmio m)"] exI [of _ f] exI [of _ "ucast (ucast k :: u8)"])
      (simp add: reg_writes_def)
  moreover have eta: "lapic_get_id \<lparr>apic_vmm = apic_vmm a, apic_msrs = apic_msrs a, apic_ports = apic_ports a,
      apic_mmio = apic_mmio a, lapic_base = lapic_base a, ioapic_base = ioapic_base a\<rparr> = (k, b)" using id by (cases a) simp
  moreover have "start_devices m = Some (Inr (with_apic ?x ((with_timer ((timer_of ?m1)\<lparr>timer_handlers :=
      (timer_handlers (timer_of ?m1))(32 \<mapsto> Timer_tick_handler), timer_apic := a, timer_log := l\<rparr>) ?m1)
      \<lparr>mc_handlers := (mc_handlers m)(32 \<mapsto> Timer_tick_handler, 33 \<mapsto> Keyboard_isr)\<rparr>)))"
    using t by (simp add: start_devices_def eta machine_parts keyboard_init_def interrupt_register_handler_def)
  ultimately show ?thesis
    using c l x same by (simp add: devices_up_def machine_parts calibrated_def)
qed

section \<open>Threads\<close>

text \<open>The heap after \<open>n\<close> thread structures: a block each, then one free block.\<close>

definition thread_blocks :: "nat \<Rightarrow> block list" where
  "thread_blocks n = replicate n (32, False) @ [(HEAP_SIZE - HEADER_SIZE - 64 * of_nat n, True)]"

lemma heap_next_block:
  assumes "heap_inv h (thread_blocks n)" and "n < 4"
  shows "\<exists>t h'. kmalloc h 32 = Some (t, h') \<and> heap_inv h' (thread_blocks (Suc n))"
proof -
  let ?b = "(HEAP_SIZE - HEADER_SIZE - 64 * of_nat n, True) :: block"
  have a: "align_up 32 16 = (32 :: u64)" by (simp add: align_up_def)
  have n: "n = 0 \<or> n = 1 \<or> n = 2 \<or> n = 3" using assms(2) by auto
  have "fits 32 ?b" "taken 32 ?b = [(32, False), (HEAP_SIZE - HEADER_SIZE - 64 * of_nat (Suc n), True)]"
    using n by (auto simp: fits_def taken_def)
  then show ?thesis
    using kmalloc_found [of h "replicate n (32, False)" ?b "[]" 32] assms(1)
    by (auto simp: thread_blocks_def a fits_def replicate_app_Cons_same)
qed

text \<open>The stack pointer of the \<open>i\<close>-th thread: regions of six pages, the first the system-call stack's.\<close>

definition first_sp :: "nat \<Rightarrow> u64" where
  "first_sp i = region_page VMM_DYNAMIC_VBASE (6 * i + 11) - 56"

definition will_start :: "u64 \<Rightarrow> sched \<Rightarrow> nat \<Rightarrow> u64 \<Rightarrow> u64 \<Rightarrow> u64 \<Rightarrow> bool" where
  "will_start trampoline s i t entry arg \<longleftrightarrow> stack_pointer (threads s t) = first_sp i \<and>
     (\<exists>c. parked s t (first_regs entry arg c) trampoline)"

lemma beyond_frame:
  fixes d k :: u64
  assumes "56 \<le> d" "d \<le> - 56" "k < 56"
  shows "56 \<le> d + k"
proof -
  have "unat d + unat k < 2 ^ 64" using assms(2,3) by (simp add: word_le_nat_alt word_less_nat_alt)
  then show ?thesis using assms(1) by (simp add: word_le_nat_alt unat_add_64)
qed

lemma distinct_frames:
  assumes "j < i" "i < 4" "x - first_sp j < 56"
  shows "56 \<le> x - first_sp i"
proof -
  have "(i, j) \<in> {(1, 0), (2, 0), (2, 1), (3, 0), (3, 1), (3, 2)}" using assms(1,2) by auto
  then have "56 \<le> first_sp j - first_sp i" "first_sp j - first_sp i \<le> - 56"
    by (auto simp: first_sp_def region_page_def VMM_DYNAMIC_VBASE_def)
  from beyond_frame [OF this assms(3)] show ?thesis by (simp add: algebra_simps)
qed

definition boot_kernel :: "nat \<Rightarrow> kernel \<Rightarrow> u64 list \<Rightarrow> bool" where
  "boot_kernel i k xs \<longleftrightarrow> kernel_inv k xs \<and> windows_open (k_vmm k) \<and>
     dynamic_next_vaddr (k_vmm k) = region_page VMM_DYNAMIC_VBASE (6 * (i + 1)) \<and>
     next_thread_id (k_sched k) = of_nat (i + 1) \<and> heap_inv (k_heap k) (thread_blocks i) \<and>
     16 * (4 - i) < card (pmm_avail (vmm_pmm (k_vmm k)))"

lemma kept_windows: "windows_open s \<Longrightarrow> keeps_paths s s' \<Longrightarrow> windows_open s'"
  by (simp add: windows_open_def keeps_paths_def)

lemma boot_kernel_mappable:
  assumes "boot_kernel i k xs" "i < 4"
  shows "mappable (k_vmm k) 4" and "dynamic_next_vaddr (k_vmm k) + PAGE_SIZE \<noteq> 0"
    and "next_thread_id (k_sched k) < 2 ^ 64 - 1"
proof -
  have i: "i = 0 \<or> i = 1 \<or> i = 2 \<or> i = 3" using assms(2) by auto
  have "region_page (region_page VMM_DYNAMIC_VBASE (6 * (i + 1))) n = region_page VMM_DYNAMIC_VBASE (6 * (i + 1) + n)" for n
    by (simp add: region_page_def algebra_simps)
  then show "mappable (k_vmm k) 4"
    using assms by (simp add: boot_kernel_def mappable_def windows_open_def)
  show "dynamic_next_vaddr (k_vmm k) + PAGE_SIZE \<noteq> 0" "next_thread_id (k_sched k) < 2 ^ 64 - 1"
    using assms(1) i by (auto simp: boot_kernel_def region_page_def VMM_DYNAMIC_VBASE_def)
qed

lemma boot_kernel_creates:
  assumes b: "boot_kernel i k (x # ys)" and i: "i < 4"
  shows "\<exists>t k'. thread_create trampoline k entry arg = Some (Inr (t, k')) \<and> t \<noteq> 0 \<and>
    created k (x # ys) trampoline entry arg t k'"
proof -
  have inv: "kernel_inv k (x # ys)" and h: "heap_inv (k_heap k) (thread_blocks i)"
    and c: "16 < card (pmm_avail (vmm_pmm (k_vmm k)))"
    using b i by (auto simp: boot_kernel_def)
  obtain t k' where r: "thread_create trampoline k entry arg = Some (Inr (t, k'))"
    "if t = 0 then not_created k (x # ys) k' else created k (x # ys) trampoline entry arg t k'"
    using thread_create_cases [OF inv boot_kernel_mappable(3,1,2) [OF b i]] by blast
  have "i = 0 \<or> i = 1 \<or> i = 2 \<or> i = 3" using i by auto
  then have "\<not> fst (HEAP_SIZE - HEADER_SIZE - 64 * of_nat i, True) < (32 :: u64)" by auto
  then have "\<not> (\<forall>b \<in> set (thread_blocks i). snd b \<longrightarrow> fst b < 32)" by (auto simp: thread_blocks_def)
  then have "\<not> not_created k (x # ys) k'" using h c by (auto simp: not_created_def)
  then show ?thesis using r by (auto split: if_splits)
qed

lemma will_start_kept:
  assumes "will_start trampoline s j u entry arg" and "j < i" "i < 4"
    and "stack_pointer (threads s' u) = stack_pointer (threads s u)"
    and "\<And>x. 56 \<le> x - first_sp i \<Longrightarrow> cpu_mem (sched_cpu s') x = cpu_mem (sched_cpu s) x"
  shows "will_start trampoline s' j u entry arg"
proof -
  have "same_frame (cpu_mem (sched_cpu s)) (cpu_mem (sched_cpu s')) (first_sp j)"
    using assms(5) distinct_frames [OF assms(2,3)] by (simp add: same_frame_def)
  then have "parked s u d q \<Longrightarrow> parked s' u d q" for d q
    using assms(1,4) saved_at_same [of "cpu_mem (sched_cpu s)" "first_sp j" d q] by (simp add: parked_def will_start_def)
  then show ?thesis using assms(1,4) by (auto simp: will_start_def)
qed

lemma create_boot_thread:
  assumes b: "boot_kernel i k (x # ys)" and i: "i < 4"
  shows "\<exists>t k'. thread_create trampoline k entry arg = Some (Inr (t, k')) \<and> boot_kernel (Suc i) k' (x # t # ys) \<and>
    rflags (sched_cpu (k_sched k')) = rflags (sched_cpu (k_sched k)) \<and> will_start trampoline (k_sched k') i t entry arg \<and>
    (\<forall>u j e a. u \<in> set ys \<and> j < i \<and> will_start trampoline (k_sched k) j u e a \<longrightarrow> will_start trampoline (k_sched k') j u e a)"
proof -
  have inv: "vmm_inv (k_vmm k)" "windows_open (k_vmm k)"
    and dyn: "dynamic_next_vaddr (k_vmm k) = region_page VMM_DYNAMIC_VBASE (6 * (i + 1))"
    and id: "next_thread_id (k_sched k) = of_nat (i + 1)" and hp: "heap_inv (k_heap k) (thread_blocks i)"
    and c: "16 * (4 - i) < card (pmm_avail (vmm_pmm (k_vmm k)))"
    using b by (simp_all add: boot_kernel_def kernel_inv_def)
  obtain t k' where t: "thread_create trampoline k entry arg = Some (Inr (t, k'))" "t \<noteq> 0"
    and cr: "created k (x # ys) trampoline entry arg t k'"
    using boot_kernel_creates [OF b i] by blast
  note takes = thread_create_takes [OF t(1) inv(1) boot_kernel_mappable(1) [OF b i]]
  have sp: "dynamic_next_vaddr (k_vmm k) + PAGE_SIZE + 16384 - 56 = first_sp i"
    by (simp add: dyn first_sp_def region_page_def algebra_simps)
  have new: "t \<notin> set (x # ys)" "kernel_inv k' (x # t # ys)" "stack_pointer (threads (k_sched k') t) = first_sp i"
    "parked (k_sched k') t (first_regs entry arg (sched_cpu (k_sched k))) trampoline"
    "\<And>y. 56 \<le> y - first_sp i \<Longrightarrow> cpu_mem (sched_cpu (k_sched k')) y = cpu_mem (sched_cpu (k_sched k)) y"
    using cr unfolding created_def Let_def sp by auto
  have "heap_inv (k_heap k') (thread_blocks (Suc i))"
    using heap_next_block [OF hp i] takes(4) [OF t(2)] by auto
  moreover have "windows_open (k_vmm k')" using takes(1) inv(2) kept_windows by auto
  moreover have "region_page VMM_DYNAMIC_VBASE (6 * (i + 1)) + 6 * PAGE_SIZE = region_page VMM_DYNAMIC_VBASE (6 * (Suc i + 1))"
    by (simp add: region_page_def algebra_simps)
  moreover have "16 * (4 - Suc i) < card (pmm_avail (vmm_pmm (k_vmm k')))" using c takes(3) i by linarith
  ultimately have "boot_kernel (Suc i) k' (x # t # ys)"
    using takes(4) [OF t(2)] dyn id new(2) by (simp add: boot_kernel_def)
  moreover have "will_start trampoline (k_sched k') j u e a"
    if "u \<in> set ys \<and> j < i \<and> will_start trampoline (k_sched k) j u e a" for u j e a
  proof -
    have "u \<noteq> t" using that new(1) by auto
    then show ?thesis using will_start_kept [of trampoline "k_sched k" j u e a i "k_sched k'"] that i new(5) takes(5) [of u] by blast
  qed
  moreover have "will_start trampoline (k_sched k') i t entry arg" using new(3,4) by (auto simp: will_start_def)
  ultimately show ?thesis using t(1) created_regs(2) [OF cr] by blast
qed

text \<open>The threads created so far, the newest first, with what each will start.\<close>

primrec started :: "u64 \<Rightarrow> sched \<Rightarrow> (u64 \<times> u64) list \<Rightarrow> u64 list \<Rightarrow> bool" where
  "started trampoline s [] ts \<longleftrightarrow> ts = []"
| "started trampoline s (e # es) ts \<longleftrightarrow>
     (\<exists>t us. ts = t # us \<and> will_start trampoline s (length es) t (fst e) (snd e) \<and> started trampoline s es us)"

lemma started_kept:
  assumes "started trampoline s es ts" and "length es \<le> i"
    and "\<And>u j e a. u \<in> set ts \<Longrightarrow> j < i \<Longrightarrow> will_start trampoline s j u e a \<Longrightarrow> will_start trampoline s' j u e a"
  shows "started trampoline s' es ts"
  using assms by (induction es arbitrary: ts) auto

definition threads_up :: "image \<Rightarrow> u64 \<Rightarrow> (u64 \<times> u64) list \<Rightarrow> machine \<Rightarrow> machine \<Rightarrow> bool" where
  "threads_up img x es m m' \<longleftrightarrow> m' = with_kernel (kernel_of m') m \<and>
     rflags (sched_cpu (mc_sched m')) = rflags (sched_cpu (mc_sched m)) \<and>
     (\<exists>ts. boot_kernel (length es) (kernel_of m') (x # ts) \<and> started (trampoline_address img) (mc_sched m') es ts)"

lemma with_kernel_facts [simp]:
  "kernel_of (with_kernel k m) = k" "with_kernel k (with_kernel k' m) = with_kernel k m" "mc_sched (with_kernel k m) = k_sched k"
  by (cases k) (simp_all add: machine_parts)

lemma start_thread_returns:
  assumes up: "threads_up img x es m0 m" and i: "length es < 4"
  shows "returns (start_thread img entry arg m) (threads_up img x ((entry, arg) # es) m0)"
proof -
  let ?tr = "trampoline_address img"
  have m: "m = with_kernel (kernel_of m) m0" "rflags (sched_cpu (mc_sched m)) = rflags (sched_cpu (mc_sched m0))"
    using up unfolding threads_up_def by blast+
  obtain ts where ts: "boot_kernel (length es) (kernel_of m) (x # ts)" "started ?tr (mc_sched m) es ts"
    using up unfolding threads_up_def by blast
  have km: "k_sched (kernel_of m) = mc_sched m" by (simp add: kernel_of_def)
  obtain t k' where c: "thread_create ?tr (kernel_of m) entry arg = Some (Inr (t, k'))"
      "boot_kernel (Suc (length es)) k' (x # t # ts)" "rflags (sched_cpu (k_sched k')) = rflags (sched_cpu (mc_sched m))"
      "will_start ?tr (k_sched k') (length es) t entry arg"
    and keep: "\<And>u j e a. u \<in> set ts \<Longrightarrow> j < length es \<Longrightarrow> will_start ?tr (mc_sched m) j u e a \<Longrightarrow>
      will_start ?tr (k_sched k') j u e a"
    using create_boot_thread [OF ts(1) i, of ?tr entry arg] unfolding km by blast
  have "started ?tr (k_sched k') es ts" by (rule started_kept [OF ts(2) order_refl keep])
  then have "threads_up img x ((entry, arg) # es) m0 (with_kernel k' m)"
    using c(2-4) m(2) unfolding threads_up_def
    by (intro conjI exI [of _ "t # ts"]) (simp, subst m(1), simp_all)
  then show ?thesis using c(1) by (simp add: start_thread_def)
qed

definition boot_threads :: "image \<Rightarrow> (u64 \<times> u64) list" where
  "boot_threads img = (ring3_demo_address img, 0) #
     map (\<lambda>c. (demo_thread_address img, name_address img c)) ''CBA''"

definition threads_running :: "image \<Rightarrow> machine \<Rightarrow> machine \<Rightarrow> bool" where
  "threads_running img m m' \<longleftrightarrow> mc_idt m' = mc_idt m \<and> mc_handlers m' = mc_handlers m \<and> mc_mmio m' = mc_mmio m \<and>
     mc_ticks m' = mc_ticks m \<and> output_works m' \<and>
     enabled (syscall_entry_address img) (syscalls_of m) (syscalls_of m') \<and>
     rflags (sched_cpu (mc_sched m')) AND 0x200 \<noteq> 0 \<and>
     (\<exists>ts. kernel_inv (kernel_of m') (current (mc_sched m) # ts) \<and>
        started (trampoline_address img) (mc_sched m') (boot_threads img) ts)"

lemma interrupts_on: "io_enable_interrupts f AND 0x200 \<noteq> 0"
  by (simp add: io_enable_interrupts_def bit_eq_iff exI [of _ 9] bit_simps)

lemma boot_kernel_starts:
  fixes s' :: syscalls and m :: machine and l :: logger
  defines "m1 \<equiv> (enable_interrupts (with_syscalls s' m))\<lparr>mc_log := l\<rparr>"
  assumes "vmm_inv (sc_vmm s')" "windows_open (sc_vmm s')" "dynamic_next_vaddr (sc_vmm s') = VMM_DYNAMIC_VBASE + 6 * PAGE_SIZE"
    and "64 < card (pmm_avail (vmm_pmm (sc_vmm s')))"
    and "heap_inv (mc_heap m) [(HEAP_SIZE - HEADER_SIZE, True)]"
    and "sched_inv (mc_sched m) [x]" "bootstrap_thread (mc_sched m) = x" "\<not> x - HEAP_VBASE < HEAP_SIZE"
      "next_thread_id (mc_sched m) = 1"
  shows "threads_up img x [] m1 m1"
proof -
  have "heap_ok (mc_heap m)" using assms(6) by (auto simp: heap_ok_def)
  then have "boot_kernel 0 (kernel_of m1) [x]"
    using assms(2-) by (simp add: boot_kernel_def kernel_inv_def m1_def enable_interrupts_def machine_parts
        region_page_def thread_blocks_def)
  moreover have "m1 = with_kernel (kernel_of m1) m1" by (cases m1) (simp add: machine_parts)
  ultimately show ?thesis unfolding threads_up_def by simp
qed

lemma create_all:
  assumes "threads_up img x [] m m"
  shows "returns
    (andthen (start_thread img (demo_thread_address img) (name_address img (CHR ''A'')) m) (\<lambda>m.
     andthen (start_thread img (demo_thread_address img) (name_address img (CHR ''B'')) m) (\<lambda>m.
     andthen (start_thread img (demo_thread_address img) (name_address img (CHR ''C'')) m) (\<lambda>m.
     start_thread img (ring3_demo_address img) 0 m)))) (threads_up img x (boot_threads img) m)"
  unfolding boot_threads_def list.map
  by (rule returns_andthen, rule start_thread_returns, rule assms, simp, rule returns_andthen, rule start_thread_returns,
      assumption, simp, rule returns_andthen, rule start_thread_returns, assumption, simp, rule start_thread_returns) simp_all

lemma logged_only_trans: "logged_only a b \<Longrightarrow> logged_only b c \<Longrightarrow> logged_only a c"
  by (auto simp: logged_only_def)

lemma start_threads_returns:
  assumes out: "output_works m" and v: "vmm_inv (mc_vmm m)" "windows_open (mc_vmm m)" "dynamic_next_vaddr (mc_vmm m) = VMM_DYNAMIC_VBASE"
    and c: "80 < card (pmm_avail (vmm_pmm (mc_vmm m)))"
    and h: "heap_inv (mc_heap m) [(HEAP_SIZE - HEADER_SIZE, True)]"
    and s: "sched_inv (mc_sched m) [x]" "bootstrap_thread (mc_sched m) = x" "\<not> x - HEAP_VBASE < HEAP_SIZE"
      "next_thread_id (mc_sched m) = 1"
  shows "returns (start_threads img m) (threads_running img m)"
proof -
  have "mappable (sc_vmm (syscalls_of m)) 4"
    using v(2,3) by (simp add: syscalls_of_def mappable_def windows_open_def)
  moreover have "vmm_inv (sc_vmm (syscalls_of m))" "transmitter_ready (line (sc_log (syscalls_of m)))"
    using v(1) out by (simp_all add: syscalls_of_def)
  moreover have "16 < card (pmm_avail (vmm_pmm (sc_vmm (syscalls_of m))))" using c by (simp add: syscalls_of_def)
  ultimately obtain s' where s': "syscall_init (syscall_entry_address img) (syscalls_of m) = Some (Inr s')"
      "enabled (syscall_entry_address img) (syscalls_of m) s'" "vmm_inv (sc_vmm s')" "keeps_paths (mc_vmm m) (sc_vmm s')"
      "dynamic_next_vaddr (sc_vmm s') = VMM_DYNAMIC_VBASE + 6 * PAGE_SIZE" "transmitter_ready (line (sc_log s'))"
      "64 < card (pmm_avail (vmm_pmm (sc_vmm s')))"
    using c v(3) by (elim syscall_init_succeeds [of "syscalls_of m" "syscall_entry_address img"]) (auto simp: syscalls_of_def)
  let ?m1 = "enable_interrupts (with_syscalls s' m)"
  let ?all = "\<lambda>m. andthen (start_thread img (demo_thread_address img) (name_address img (CHR ''A'')) m) (\<lambda>m.
     andthen (start_thread img (demo_thread_address img) (name_address img (CHR ''B'')) m) (\<lambda>m.
     andthen (start_thread img (demo_thread_address img) (name_address img (CHR ''C'')) m) (\<lambda>m.
     start_thread img (ring3_demo_address img) 0 m)))"
  have threads: "returns (?all m3) (threads_running img m)" if "logged_only ?m1 m3" for m3
  proof -
    obtain l where m3: "m3 = ?m1\<lparr>mc_log := l\<rparr>" "transmitter_ready (line l)"
      using \<open>logged_only ?m1 m3\<close> unfolding logged_only_def by blast
    have "threads_up img x [] m3 m3"
      unfolding m3(1) by (rule boot_kernel_starts [OF s'(3) kept_windows [OF v(2) s'(4)] s'(5,7) h s])
    from create_all [OF this] show ?thesis
    proof (rule returns_mono)
      fix m' assume up: "threads_up img x (boot_threads img) m3 m'"
      obtain k where m': "m' = with_kernel k m3" using up unfolding threads_up_def by blast
      obtain ts where "boot_kernel (length (boot_threads img)) k (x # ts)"
          "started (trampoline_address img) (k_sched k) (boot_threads img) ts"
        using up unfolding threads_up_def m' by auto
      moreover have "current (mc_sched m) = x" using s(1) by (simp add: sched_inv_def)
      ultimately show "threads_running img m m'"
        using up s'(2) m3(2) interrupts_on unfolding threads_up_def threads_running_def
        by (auto simp: m' m3(1) boot_kernel_def enabled_def enable_interrupts_def machine_parts)
    qed
  qed
  obtain o1 o2 where o: "render ''Quin Kernel Template -- Inbora Studio'' [] = Inr o1" "render ''booted via Limine (UEFI)'' [] = Inr o2"
    using boot_messages(5,6) by blast
  have "output_works ?m1" using s'(6) by (simp add: enable_interrupts_def machine_parts)
  note hello = say_returns [OF this o(1), of LOG_LEVEL_INFO]
  have "returns (andthen (say LOG_LEVEL_INFO ''Quin Kernel Template -- Inbora Studio'' [] ?m1) (\<lambda>m.
     andthen (say LOG_LEVEL_INFO ''booted via Limine (UEFI)'' [] m) ?all)) (threads_running img m)"
  proof (rule returns_andthen [OF hello])
    fix a assume a: "logged_only ?m1 a"
    then have "output_works a" by (auto simp: logged_only_def)
    then have "returns (say LOG_LEVEL_INFO ''booted via Limine (UEFI)'' [] a) (logged_only ?m1)"
      by (rule returns_mono [OF say_returns [OF _ o(2)]]) (rule logged_only_trans [OF a])
    then show "returns (andthen (say LOG_LEVEL_INFO ''booted via Limine (UEFI)'' [] a) ?all) (threads_running img m)"
      by (rule returns_andthen) (rule threads)
  qed
  then show ?thesis using s'(1) by (simp add: start_threads_def Let_def)
qed

end
