(* ===== verification/Kernel_Up.thy ===== *)
theory Kernel_Up
  imports Kernel_Boot
begin

text \<open>
  The boot sequence as a whole: what the image and the bootloader must provide, what the machine is
  like when \<^verbatim>\<open>kmain\<close> has created its threads, and a machine on which it runs.
\<close>

section \<open>The whole sequence\<close>

text \<open>The variables of the image as they are loaded.\<close>

definition image_loaded :: "machine \<Rightarrow> bool" where
  "image_loaded m \<longleftrightarrow> pmm_free_frames (vmm_pmm (mc_vmm m)) = 0 \<and>
     dynamic_next_vaddr (mc_vmm m) = VMM_DYNAMIC_VBASE \<and> mmio_next_vaddr (mc_vmm m) = VMM_MMIO_VBASE \<and>
     (\<exists>r \<in> set (lazy_regions (mc_vmm m)). \<not> lr_used r) \<and>
     locked (ready_lock (mc_sched m)) = 0 \<and> next_thread_id (mc_sched m) = 1 \<and>
     \<not> bootstrap_thread (mc_sched m) - HEAP_VBASE < HEAP_SIZE"

text \<open>
  What the bootloader and the firmware hand over, the direct map at \<open>h\<close>: usable memory of which the
  allocator makes at least 87 free frames, page tables and firmware tables outside it, a framebuffer
  mode the console supports if there is one, a serial line that accepts bytes and a PIT that counts down.
\<close>

definition handed_over :: "limine_responses \<Rightarrow> boot_memmap_entry list \<Rightarrow> u64 \<Rightarrow> pmm \<Rightarrow> machine \<Rightarrow> bool" where
  "handed_over lim es h p m \<longleftrightarrow> boot_get_hhdm_offset lim = Inr h \<and> boot_get_memmap lim = Some es \<and> memmap_ok es \<and>
     pmm_init lim (vmm_pmm (mc_vmm m)) = Inr p \<and> 86 < card (pmm_avail p) \<and>
     boot_tables es ((mc_vmm m)\<lparr>vmm_hhdm_offset := h\<rparr>) \<and> windows_open ((mc_vmm m)\<lparr>vmm_hhdm_offset := h\<rparr>) \<and>
     acpi_described es lim ((mc_vmm m)\<lparr>vmm_hhdm_offset := h\<rparr>) (mc_acpi m) \<and>
     (\<forall>f. boot_get_framebuffer lim = Some f \<longrightarrow> mode_ok f) \<and> output_works m \<and>
     (\<exists>k > port_reads (mc_ports m). port_answers (mc_ports m) k 0x61 AND 0x20 \<noteq> 0)"

definition booted :: "image \<Rightarrow> machine \<Rightarrow> machine \<Rightarrow> bool" where
  "booted img m m' \<longleftrightarrow> output_works m' \<and>
     mc_descriptors m' = gdt_set_kernel_stack (gdt_init (gdt_address img) (tss_address img) (mc_descriptors m)) (mc_syscall_rsp m') \<and>
     mc_idt m' = idt_init (stub_address img) (idt_address img) \<and>
     mc_handlers m' = (mc_handlers m)(14 \<mapsto> Page_fault_isr, 32 \<mapsto> Timer_tick_handler, 33 \<mapsto> Keyboard_isr) \<and>
     devices_programmed VMM_MMIO_VBASE (VMM_MMIO_VBASE + PAGE_SIZE) (mmio_writes (mc_mmio m')) \<and>
     mc_msrs m' IA32_LSTAR = syscall_entry_address img \<and> mc_msrs m' IA32_STAR = 0x0010000800000000 \<and>
     mc_msrs m' IA32_FMASK = 0x300 \<and> mc_msrs m' IA32_EFER AND 1 = 1 \<and>
     rflags (sched_cpu (mc_sched m')) AND 0x200 \<noteq> 0 \<and>
     (\<exists>ts. kernel_inv (kernel_of m') (bootstrap_thread (mc_sched m) # ts) \<and>
        started (trampoline_address img) (mc_sched m') (boot_threads img) ts)"

lemma sched_init_inv:
  assumes "locked (ready_lock s) = 0" "next_thread_id s = 1"
  shows "sched_inv (sched_init s) [bootstrap_thread s]" "bootstrap_thread (sched_init s) = bootstrap_thread s"
    "next_thread_id (sched_init s) = 1" "current (sched_init s) = bootstrap_thread s"
  using assms by (simp_all add: sched_inv_def sched_init_def ring_def succ_of_def ids_def Let_def)

lemma devices_then_threads:
  assumes c: "controllers_up es s0 m2 m3" and "mc_sched m2 = mc_sched m" "dynamic_next_vaddr (mc_vmm m2) = VMM_DYNAMIC_VBASE"
    and "86 < card (pmm_avail (vmm_pmm (mc_vmm m2)))" "heap_inv (mc_heap m2) [(HEAP_SIZE - HEADER_SIZE, True)]"
    and pit: "\<exists>k > port_reads (mc_ports m2). port_answers (mc_ports m2) k 0x61 AND 0x20 \<noteq> 0" and img: "image_loaded m"
    and d: "mc_descriptors m2 = gdt_init (gdt_address img) (tss_address img) (mc_descriptors m)"
      "mc_idt m2 = idt_init (stub_address img) (idt_address img)" "mc_handlers m2 = (mc_handlers m)(14 \<mapsto> Page_fault_isr)"
  shows "returns (andthen (start_devices m3) (start_threads img)) (booted img m)"
proof (rule returns_andthen)
  note k = c [unfolded controllers_up_def keeps_core_def]
  show "returns (start_devices m3) (devices_up m3)" using start_devices_returns [of m3] k pit by simp
  fix m4 assume u: "devices_up m3 m4"
  note u' = u [unfolded devices_up_def]
  have "mc_sched m4 = sched_init (mc_sched m)" using u' k assms(2) by simp
  then have s: "sched_inv (mc_sched m4) [bootstrap_thread (mc_sched m)]" "bootstrap_thread (mc_sched m4) = bootstrap_thread (mc_sched m)"
    "\<not> bootstrap_thread (mc_sched m) - HEAP_VBASE < HEAP_SIZE" "next_thread_id (mc_sched m4) = 1"
    "current (mc_sched m4) = bootstrap_thread (mc_sched m)"
    using img sched_init_inv [of "mc_sched m"] by (simp_all add: image_loaded_def)
  have "returns (start_threads img m4) (threads_running img m4)"
  proof (rule start_threads_returns [OF _ _ _ _ _ _ s(1-4)])
    show "output_works m4" "vmm_inv (mc_vmm m4)" "windows_open (mc_vmm m4)" "dynamic_next_vaddr (mc_vmm m4) = VMM_DYNAMIC_VBASE"
      "80 < card (pmm_avail (vmm_pmm (mc_vmm m4)))" "heap_inv (mc_heap m4) [(HEAP_SIZE - HEADER_SIZE, True)]"
      using u' k assms(3-5) by (simp_all add: memory_up_def)
  qed
  then show "returns (start_threads img m4) (booted img m)"
  proof (rule returns_mono)
    fix m' assume "threads_running img m4 m'"
    note r = this [unfolded threads_running_def s(5)]
    have e: "mc_descriptors m' = gdt_set_kernel_stack (mc_descriptors m4) (mc_syscall_rsp m')"
      "mc_msrs m' = (mc_msrs m4)(IA32_EFER := mc_msrs m4 IA32_EFER OR 1, IA32_STAR := 0x0010000800000000,
         IA32_LSTAR := syscall_entry_address img, IA32_FMASK := 0x300)"
      using r by (simp_all add: enabled_def syscalls_of_def)
    have "(x OR 1) AND 1 = (1 :: u64)" for x by (simp add: bit_eq_iff bit_simps)
    then show "booted img m m'"
      using r u' k d unfolding booted_def e by simp
  qed
qed

lemma memory_then_rest:
  fixes m :: machine and l :: logger and img :: image
  defines "m1 \<equiv> start_tables img (m\<lparr>mc_log := l\<rparr>)"
  assumes m2: "memory_started es ((mc_vmm m)\<lparr>vmm_hhdm_offset := h\<rparr>) p m1 m2"
    and img: "image_loaded m" and h: "handed_over lim es h p m"
  shows "returns (andthen (start_interrupts lim m2) (\<lambda>m. andthen (start_devices m) (start_threads img))) (booted img m)"
proof -
  let ?s0 = "(mc_vmm m)\<lparr>vmm_hhdm_offset := h\<rparr>"
  obtain v hp l2 where v: "memory_up es ?s0 v" "heap_inv hp [(HEAP_SIZE - HEADER_SIZE, True)]" "vmm_pmm v = p"
      "dynamic_next_vaddr v = dynamic_next_vaddr (mc_vmm m1)" "mmio_next_vaddr v = mmio_next_vaddr (mc_vmm m1)"
      "m2 = m1\<lparr>mc_handlers := (mc_handlers m1)(14 \<mapsto> Page_fault_isr), mc_vmm := v, mc_heap := hp, mc_log := l2\<rparr>"
      "transmitter_ready (line l2)"
    using m2 unfolding memory_started_def logged_only_def by blast
  have m1: "mc_vmm m1 = mc_vmm m" "mc_acpi m1 = mc_acpi m" "mc_sched m1 = mc_sched m" "mc_ports m1 = mc_ports m"
    "mc_handlers m1 = mc_handlers m" "mc_idt m1 = idt_init (stub_address img) (idt_address img)"
    "mc_descriptors m1 = gdt_init (gdt_address img) (tss_address img) (mc_descriptors m)"
    by (simp_all add: m1_def start_tables_def)
  note b = img [unfolded image_loaded_def] h [unfolded handed_over_def]
  have "returns (start_interrupts lim m2) (controllers_up es ?s0 m2)"
    using start_interrupts_returns [of m2 es ?s0 lim] v b m1 by simp
  then show ?thesis
  proof (rule returns_andthen)
    fix m3 assume "controllers_up es ?s0 m2 m3"
    then show "returns (andthen (start_devices m3) (start_threads img)) (booted img m)"
      by (rule devices_then_threads [OF _ _ _ _ _ _ img]) (use v b m1 in simp_all)
  qed
qed

lemma kmain_boot_returns:
  assumes img: "image_loaded m" and h: "handed_over lim es h p m"
  shows "returns (kmain_boot img lim m) (booted img m)"
  unfolding kmain_boot_def
proof (rule returns_andthen)
  note b = img [unfolded image_loaded_def] h [unfolded handed_over_def]
  show "returns (start_output lim m) (logged_only m)" using b by (intro start_output_returns) simp_all
  fix m1 assume "logged_only m m1"
  then obtain l where m1: "m1 = m\<lparr>mc_log := l\<rparr>" "transmitter_ready (line l)" unfolding logged_only_def by blast
  let ?m1 = "start_tables img m1"
  have "returns (start_memory lim ?m1) (memory_started es ((mc_vmm m)\<lparr>vmm_hhdm_offset := h\<rparr>) p ?m1)"
    using start_memory_returns [of ?m1 es lim p h] b m1 by (simp add: start_tables_def)
  then show "returns (andthen (start_memory lim ?m1) (\<lambda>m. andthen (start_interrupts lim m)
      (\<lambda>m. andthen (start_devices m) (start_threads img)))) (booted img m)"
    unfolding m1(1) by (rule returns_andthen) (rule memory_then_rest [OF _ img h])
qed

section \<open>A machine that boots\<close>

text \<open>
  128 frames of which 1 to 127 are usable, an empty root table in frame 128 and, in frame 129, an ACPI 1.0 RSDP
  that names an RSDT without entries; the direct map at 0xffff800000000000.
\<close>

abbreviation (input) demo_hhdm :: u64 where "demo_hhdm \<equiv> 0xffff800000000000"

definition rsdp_bytes :: "u8 list" where
  "rsdp_bytes = map of_char ''RSD PTR '' @ [0x89, 0, 0, 0, 0, 0, 0, 0] @ bytes32 0x81040"

definition rsdt_bytes :: "u8 list" where
  "rsdt_bytes = map of_char ''RSDT'' @ bytes32 36 @ [1, 0x9e] @ replicate 26 0"

definition firmware_mem :: mem where
  "firmware_mem = bytes_at 0xffff800000081000 rsdp_bytes (bytes_at 0xffff800000081040 rsdt_bytes (\<lambda>_. 0))"

definition demo_entries :: "boot_memmap_entry list" where
  "demo_entries = [\<lparr>entry_base = 0x1000, entry_length = 0x7f000, entry_type = 0\<rparr>,
     \<lparr>entry_base = 0x80000, entry_length = 0x2000, entry_type = 1\<rparr>]"

definition demo_boot :: limine_responses where
  "demo_boot = \<lparr>framebuffer_response = None, hhdm_response = Some demo_hhdm, memmap_response = Some demo_entries,
     executable_address_response = None, rsdp_response = Some 0xffff800000081000\<rparr>"

definition demo_boot_vmm :: vmm where
  "demo_boot_vmm = \<lparr>vmm_pmm = \<lparr>pmm_mem = firmware_mem, pmm_bitmap = 0, pmm_frame_count = 0, pmm_next_search_index = 0,
       pmm_hhdm_offset = 0, pmm_free_frames = 0\<rparr>,
     vmm_hhdm_offset = 0, dynamic_next_vaddr = VMM_DYNAMIC_VBASE, mmio_next_vaddr = VMM_MMIO_VBASE,
     lazy_regions = replicate 16 \<lparr>lr_start = 0, lr_end = 0, lr_flags = 0, lr_used = False\<rparr>, vmm_cr3 = 0x80000, invlpg_log = []\<rparr>"

definition demo_image :: image where
  "demo_image = \<lparr>gdt_address = 0xffffffff80010000, tss_address = 0xffffffff80011000, idt_address = 0xffffffff80013000,
     stub_address = (\<lambda>_. 0xffffffff80004000), syscall_entry_address = 0xffffffff80005000,
     trampoline_address = 0xffffffff80002000, demo_thread_address = 0xffffffff80003000,
     ring3_demo_address = 0xffffffff80003100, name_address = (\<lambda>_. 0xffffffff80014000)\<rparr>"

definition demo_machine :: machine where
  "demo_machine = \<lparr>mc_log = demo_logger, mc_descriptors = demo_descriptors,
     mc_idt = idt_init (\<lambda>_. 0) 0, mc_handlers = (\<lambda>_. None), mc_vmm = demo_boot_vmm,
     mc_heap = \<lparr>heap_mem = (\<lambda>_. 0), free_list = 0\<rparr>, mc_acpi = acpi_blank, mc_msrs = (\<lambda>_. 0xfee00900),
     mc_ports = \<lparr>port_answers = (\<lambda>n p. 0x20), port_reads = 0, port_writes = []\<rparr>,
     mc_mmio = \<lparr>mmio_answers = (\<lambda>n a. 0x00170020), mmio_reads = 0, mmio_writes = []\<rparr>,
     mc_lapic_base = 0, mc_ioapic_base = 0,
     mc_sched = \<lparr>ready_lock = \<lparr>locked = 0\<rparr>, bootstrap_thread = 0xffffffff80012000, threads = (\<lambda>_. \<lparr>stack_pointer = 0, stack_base = 0, thread_id = 0, next_thread = 0\<rparr>), current = 0,
        next_thread_id = 1, ticks_since_switch = 0, sched_cpu = idle_cpu\<rparr>,
     mc_ticks = 0, mc_syscall_rsp = 0\<rparr>"

text \<open>An empty root table: no table below it, no large page.\<close>

lemma empty_root:
  assumes "\<And>i. i < 512 \<Longrightarrow> load64 (vmm_mem s) (slot ((vmm_cr3 s AND PTE_ADDR_MASK) + vmm_hhdm_offset s) i) = 0"
  shows "table_at s a u \<longleftrightarrow> a = [] \<and> u = vmm_cr3 s AND PTE_ADDR_MASK" and "small_to s (va_path v)"
proof -
  show "table_at s a u \<longleftrightarrow> a = [] \<and> u = vmm_cr3 s AND PTE_ADDR_MASK"
    using assms by (cases a) (auto simp: table_at_def reaches_def)
  have "load64 (vmm_mem s) (slot (u + vmm_hhdm_offset s) i) AND 1 = 0"
    if p: "va_path v = a @ i # c" and f: "follow (vmm_mem s) (vmm_hhdm_offset s) (vmm_cr3 s AND PTE_ADDR_MASK) a = Some u"
    for a i c u
  proof -
    have b: "\<forall>i \<in> set (va_path v). i < 512" by simp
    then have "a = []" using f p assms by (cases a) (auto simp: Let_def split: if_splits)
    then show ?thesis using f p b assms by (simp add: p)
  qed
  then show "small_to s (va_path v)" by (simp add: small_to_def small_path_def)
qed

text \<open>The bytes of a frame before the firmware's.\<close>

lemma before_firmware:
  assumes "(x - demo_hhdm) div PAGE_SIZE < 0x81"
  shows "firmware_mem x = 0"
proof -
  let ?y = "x - demo_hhdm"
  have y: "unat ?y < 0x81000" using assms by (simp add: word_less_nat_alt unat_div_64)
  have far: "\<not> ?y - c < 36" if "0x81000 \<le> c" "c \<le> 0x82000" for c :: u64
  proof -
    have c: "0x81000 \<le> unat c" "unat c \<le> 0x82000" using that by (simp_all add: word_le_nat_alt)
    then have "\<not> unat c \<le> unat ?y" using y by simp
    then have "unat (?y - c) = unat ?y + 2 ^ 64 - unat c" by (simp add: unat_sub_if_size word_size)
    then show ?thesis using c(2) by (simp add: word_less_nat_alt)
  qed
  from far [of "0x81000"] far [of "0x81040"]
  have "\<not> x - 0xffff800000081000 < 36" "\<not> x - 0xffff800000081040 < 36" by simp_all
  moreover from this(1) have "\<not> x - 0xffff800000081000 < 20" by (auto simp: word_less_nat_alt)
  ultimately show ?thesis by (simp add: firmware_mem_def bytes_at_def rsdp_bytes_def rsdt_bytes_def bytes32_def)
qed

lemma demo_page_tables:
  defines "s \<equiv> demo_boot_vmm\<lparr>vmm_hhdm_offset := demo_hhdm\<rparr>"
  shows "table_at s a u \<longleftrightarrow> a = [] \<and> u = 0x80000" and "small_to s (va_path v)"
proof -
  have z: "load64 (vmm_mem s) (slot ((vmm_cr3 s AND PTE_ADDR_MASK) + vmm_hhdm_offset s) i) = 0" if i: "i < 512" for i
  proof -
    have "vmm_mem s (slot (0x80000 + demo_hhdm) i + k) = 0" if k: "k < 8" for k
    proof -
      let ?x = "slot (0x80000 + demo_hhdm) i + k"
      have "phys_table (0x80000 :: u64)" by (simp add: phys_table_def)
      from entry_byte_frame [OF this i k, of demo_hhdm] have f: "(?x - demo_hhdm) div PAGE_SIZE = 0x80" by simp
      then show ?thesis using before_firmware [of ?x] by (simp add: s_def demo_boot_vmm_def)
    qed
    then have "load64 (vmm_mem s) (slot (0x80000 + demo_hhdm) i) = load64 (\<lambda>_. 0) (slot (0x80000 + demo_hhdm) i)"
      by (intro load64_cong) simp
    then show ?thesis by (simp add: s_def demo_boot_vmm_def load64_def)
  qed
  have r: "vmm_cr3 s AND PTE_ADDR_MASK = 0x80000" by (simp add: s_def demo_boot_vmm_def)
  show "table_at s a u \<longleftrightarrow> a = [] \<and> u = 0x80000" "small_to s (va_path v)"
    using empty_root [OF z] unfolding r by blast+
qed

lemma demo_ram: "ram_frame demo_entries f \<longleftrightarrow> 1 \<le> f \<and> f < 128"
  by (simp add: ram_frame_def demo_entries_def entry_usable_def in_entry_def)

lemma demo_entries_read: "boot_get_memmap demo_boot = Some demo_entries" "boot_get_hhdm_offset demo_boot = Inr demo_hhdm"
  "boot_get_rsdp demo_boot = Some 0xffff800000081000"
  by (simp_all add: boot_get_memmap_take boot_get_hhdm_offset_def boot_get_rsdp_def demo_boot_def demo_entries_def)

text \<open>The firmware's bytes, read from any memory that has them.\<close>

lemma checksum_holds:
  assumes "holds m a bs" "sum_list bs = 0" "n = of_nat (length bs)" "length bs < 1000"
  shows "checksum_ok m a n"
proof -
  have "(\<Sum>k<length bs. m (a + of_nat k)) = (\<Sum>k = 0..<length bs. bs ! k)"
    using assms(1) by (intro sum.cong) (auto simp: holds_def)
  then show ?thesis using assms(2-4) by (simp add: checksum_ok_sum sum_list_sum_nth unat_of_nat)
qed

lemma signature_holds: "holds m a (map of_char sig @ bs) \<Longrightarrow> signature_is m a sig"
  unfolding holds_append by (simp add: holds_def signature_is_def list_all_iff)

lemma demo_acpi:
  assumes r: "holds m 0xffff800000081000 rsdp_bytes" and t: "holds m 0xffff800000081040 rsdt_bytes"
  shows "acpi_init demo_boot m acpi_blank = Inr \<lparr>acpi_hhdm_offset = demo_hhdm, root_table = 0xffff800000081040,
      root_entry_count = 0, root_entries_are_64bit = False\<rparr>"
proof -
  have "rsdp_revision m 0xffff800000081000 = 0" "rsdp_rsdt_address m 0xffff800000081000 = 0x81040"
    using r load32_bytes32 [of m "0xffff800000081010"]
    by (simp_all add: rsdp_bytes_def holds_append holds_Cons rsdp_revision_def rsdp_rsdt_address_def)
  moreover have "table_length m 0xffff800000081040 = 36"
    using t load32_bytes32 [of m "0xffff800000081044" 36] by (simp add: rsdt_bytes_def holds_append holds_Cons table_length_def)
  moreover have "checksum_ok m 0xffff800000081000 20" "checksum_ok m 0xffff800000081040 36"
    by (rule checksum_holds [OF r] checksum_holds [OF t], code_simp, simp_all add: rsdp_bytes_def rsdt_bytes_def bytes32_def)+
  ultimately show ?thesis
    using signature_holds [OF r [unfolded rsdp_bytes_def]] signature_holds [OF t [unfolded rsdt_bytes_def]] demo_entries_read
    by (simp add: acpi_init_def acpi_phys_to_virt_def acpi_blank_def Let_def)
qed

lemma firmware_bytes:
  assumes "\<And>x. x - 0xffff800000081000 < 0x1000 \<Longrightarrow> m x = firmware_mem x"
  shows "holds m 0xffff800000081000 rsdp_bytes" "holds m 0xffff800000081040 rsdt_bytes"
proof -
  have len: "length rsdp_bytes = 20" "length rsdt_bytes = 36" by (simp_all add: rsdp_bytes_def rsdt_bytes_def bytes32_def)
  have u: "unat (of_nat i :: u64) = i" if "i < 36" for i using that by (simp add: unat_of_nat)
  have near: "of_nat i < (20 :: u64)" "of_nat i < (0x1000 :: u64)" if "i < 20" for i
    using u [of i] that by (simp_all add: word_less_nat_alt)
  show "holds m 0xffff800000081000 rsdp_bytes"
    using near u assms by (auto simp: holds_def len firmware_mem_def bytes_at_def)
  have far: "of_nat i < (36 :: u64)" "0x40 + of_nat i < (0x1000 :: u64)" "\<not> 0x40 + of_nat i < (20 :: u64)" if "i < 36" for i
    using u [OF that] that by (simp_all add: word_less_nat_alt unat_add_64)
  show "holds m 0xffff800000081040 rsdt_bytes"
    using far u assms by (auto simp: holds_def len firmware_mem_def bytes_at_def)
qed

lemma firmware_untouched:
  assumes "x - 0xffff800000081000 < 0x1000"
  shows "untouched demo_entries (demo_boot_vmm\<lparr>vmm_hhdm_offset := demo_hhdm\<rparr>) x"
proof -
  have "(0x81000 + z) div PAGE_SIZE = 0x81" if "z < 0x1000" for z :: u64
  proof -
    have z: "unat z < 0x1000" using that by (simp add: word_less_nat_alt)
    then have "unat (0x81000 + z) = 0x81000 + unat z" by (simp add: unat_add_64)
    then have "unat ((0x81000 + z) div PAGE_SIZE) = 0x81" using z by (simp add: unat_div_64)
    then show ?thesis by (intro word64_eqI) simp
  qed
  from this [OF assms] have "(x - demo_hhdm) div PAGE_SIZE = 0x81" by simp
  then show ?thesis by (simp add: untouched_def frame_no_def demo_ram demo_page_tables)
qed

lemma demo_described:
  "acpi_described demo_entries demo_boot (demo_boot_vmm\<lparr>vmm_hhdm_offset := demo_hhdm\<rparr>) acpi_blank"
  unfolding acpi_described_def
proof (intro exI allI impI)
  fix mm :: mem
  assume a: "\<forall>x. untouched demo_entries (demo_boot_vmm\<lparr>vmm_hhdm_offset := demo_hhdm\<rparr>) x \<longrightarrow>
    mm x = vmm_mem (demo_boot_vmm\<lparr>vmm_hhdm_offset := demo_hhdm\<rparr>) x"
  have m: "mm x = firmware_mem x" if "x - 0xffff800000081000 < 0x1000" for x
    using a firmware_untouched [OF that] by (simp add: demo_boot_vmm_def)
  let ?a = "\<lparr>acpi_hhdm_offset = demo_hhdm, root_table = 0xffff800000081040, root_entry_count = 0, root_entries_are_64bit = False\<rparr>"
  show "acpi_init demo_boot mm acpi_blank = Inr ?a \<and> acpi_find_table mm ?a ''APIC'' = Inr 0 \<and>
      (0 \<noteq> (0 :: u64) \<longrightarrow> 44 \<le> unat (table_length mm 0) \<and> unat (0 :: u64) + unat (table_length mm 0) + 256 \<le> 2 ^ 64)"
    using demo_acpi [OF firmware_bytes [OF m]] by (simp add: acpi_find_table_def find_table_from.simps)
qed

definition demo_started :: pmm where
  "demo_started = (case pmm_init demo_boot (vmm_pmm demo_boot_vmm) of Inr p \<Rightarrow> p | Inl _ \<Rightarrow> vmm_pmm demo_boot_vmm)"

lemma demo_started_init: "pmm_init demo_boot (vmm_pmm demo_boot_vmm) = Inr demo_started"
  and demo_started_fields: "pmm_frame_count demo_started = 128" "pmm_bitmap demo_started = 0xffff800000001000"
    "pmm_hhdm_offset demo_started = demo_hhdm"
  by (simp_all add: demo_started_def demo_boot_def demo_boot_vmm_def demo_entries_def pmm_init_def boot_get_hhdm_offset_def
      boot_get_memmap_take Let_def counts_as_ram_def align_up_def)

lemma demo_map_ok: "memmap_ok demo_entries"
  by (simp add: demo_entries_def memmap_ok_def counts_as_ram_def entry_end_def entry_usable_def entries_disjoint_def)

lemma demo_started_free:
  assumes "2 \<le> f" "f < 128"
  shows "f * PAGE_SIZE \<in> pmm_avail demo_started"
proof -
  have "pmm_free_frames (vmm_pmm demo_boot_vmm) = 0" by (simp add: demo_boot_vmm_def)
  note st = pmm_init_state(2) [OF demo_map_ok demo_entries_read(1) demo_started_init this, unfolded demo_started_fields(1),
      folded ram_frame_def, OF assms(2)]
  have "bitmap_home demo_started i = 1" if "i < bitmap_byte_count 128" for i
  proof -
    have i: "unat i < 16" using that by (simp add: bitmap_byte_count_def align_up_def word_less_nat_alt)
    then have "unat ((4096 + i) div PAGE_SIZE) = 1" by (simp add: unat_div_64 unat_add_64)
    then have "(4096 + i) div PAGE_SIZE = 1" by (intro word64_eqI) simp
    then show ?thesis by (simp add: bitmap_home_def demo_started_fields algebra_simps)
  qed
  moreover have "f \<noteq> 0" "f \<noteq> 1" "1 \<le> f" using assms(1) by (auto simp: word_le_nat_alt)
  ultimately have "\<not> pmm_used demo_started f" using st assms(2) by (auto simp: demo_ram demo_started_fields)
  then show ?thesis using assms(2) by (auto simp: pmm_avail_def demo_started_fields)
qed

lemma demo_started_card: "86 < card (pmm_avail demo_started)"
proof -
  have sub: "(\<lambda>n. of_nat n * PAGE_SIZE) ` {2..<128} \<subseteq> pmm_avail demo_started"
    by (auto intro!: demo_started_free simp: word_le_nat_alt word_less_nat_alt unat_of_nat_64)
  moreover have "inj_on (\<lambda>n. of_nat n * PAGE_SIZE :: u64) {2..<128}"
    by (rule inj_onI, drule frame_addr_inj [rotated 2]) (auto simp: unat_of_nat_64 dest: arg_cong [of _ _ unat])
  ultimately show ?thesis using card_mono [OF finite_avail sub] by (simp add: card_image)
qed

lemma demo_loaded: "image_loaded demo_machine"
  by (simp add: image_loaded_def demo_machine_def demo_boot_vmm_def)

lemma demo_handed_over: "handed_over demo_boot demo_entries demo_hhdm demo_started demo_machine"
proof -
  have "boot_tables demo_entries (demo_boot_vmm\<lparr>vmm_hhdm_offset := demo_hhdm\<rparr>)"
    by (auto simp: boot_tables_def demo_page_tables demo_ram)
  moreover have "windows_open (demo_boot_vmm\<lparr>vmm_hhdm_offset := demo_hhdm\<rparr>)"
    by (simp add: windows_open_def demo_page_tables)
  moreover have "\<exists>k :: nat. 0 < k" by (rule exI [of _ 1]) simp
  ultimately show ?thesis
    using demo_entries_read demo_map_ok demo_started_init demo_started_card demo_described demo_ready
    by (simp add: handed_over_def demo_machine_def boot_get_framebuffer_def demo_boot_def)
qed

section \<open>Properties\<close>



lemma serial_absent: "\<not> serial_present s \<Longrightarrow> serial_write str s = Some s"
  by (induction str) (simp_all add: serial_putc.simps)

text \<open>
  C32: refusing an old bootloader. \<^verbatim>\<open>kernel_entry\<close> boots only under a supported base
  revision. Under any other it stops, but the line that says so is never sent: the serial
  driver drops every byte until \<^verbatim>\<open>serial_init\<close> has found the port, and the check comes first.
\<close>

theorem entry_refuses_silently:
  assumes "\<not> serial_present (line (mc_log m))"
  shows "kernel_entry supported img lim m =
    (if supported then map_option Inr (kmain_boot img lim m) else Some (Inl (line (mc_log m))))"
  using assms by (simp add: kernel_entry_def limine_requests_check_def serial_absent del: serial_write.simps)

theorem entry_refuses_silently_witness:
  "\<exists>m s. \<not> serial_present (line (mc_log m)) \<and> kernel_entry False demo_image demo_boot m = Some (Inl s) \<and>
     port_writes (com s) = []"
proof -
  let ?m = "demo_machine\<lparr>mc_log := demo_logger\<lparr>line := (line demo_logger)\<lparr>serial_present := False\<rparr>\<rparr>\<rparr>"
  have "\<not> serial_present (line (mc_log ?m))" "port_writes (com (line (mc_log ?m))) = []" by (simp_all add: demo_logger_def)
  then show ?thesis
    using entry_refuses_silently [of ?m False demo_image demo_boot] by (intro exI [of _ ?m] exI [of _ "line (mc_log ?m)"]) simp
qed

end
