(* ===== verification/Kernel_Demo.thy ===== *)
theory Kernel_Demo
  imports Kernel_Up Arch_Access
begin

text \<open>
  The demo threads of \<^verbatim>\<open>kernel/main.c\<close>: three that log and yield, and one that maps a code
  and a stack page for ring 3, writes a four-byte program and jumps to it; and the tail of
  \<^verbatim>\<open>kmain\<close>, with \<^verbatim>\<open>qemu_exit.c\<close>. The accesses through virtual addresses
  are those of \<open>Arch_Access\<close>.
\<close>

section \<open>The round-robin threads\<close>

abbreviation (input) DEMO_THREAD_ITERATIONS :: nat where "DEMO_THREAD_ITERATIONS \<equiv> 3"

text \<open>One iteration of the loop, up to the switch away; then the thread halts for good.\<close>

definition demo_thread_iteration :: "string \<Rightarrow> nat \<Rightarrow> machine \<Rightarrow> machine kresult option" where
  "demo_thread_iteration name i m =
     andthen (say LOG_LEVEL_INFO ''sched: thread %s, iteration %d'' [Arg_str (Some name), Arg_int (of_nat i)] m) (\<lambda>m.
     map_option (\<lambda>s. Inr (m\<lparr>mc_sched := s\<rparr>)) (sched_yield (mc_sched m)))"

section \<open>The ring 3 thread\<close>

abbreviation (input) USER_CODE_VADDR :: u64 where "USER_CODE_VADDR \<equiv> 0x400000"
abbreviation (input) USER_STACK_VADDR :: u64 where "USER_STACK_VADDR \<equiv> 0x500000"

definition map_user_pages :: "vmm \<Rightarrow> bool \<times> vmm" where
  "map_user_pages s =
     (let (code_phys, s) = vmm_alloc s;
          (stack_phys, s) = vmm_alloc s
      in if code_phys = 0 \<or> stack_phys = 0 then (False, s)
         else
           let (ok, s) = vmm_map s USER_CODE_VADDR code_phys (VMM_USER OR VMM_WRITABLE)
           in if \<not> ok then (False, s)
              else vmm_map s USER_STACK_VADDR stack_phys (VMM_USER OR VMM_WRITABLE OR VMM_NO_EXECUTE))"

definition write_program :: "vmm \<Rightarrow> vmm option" where
  "write_program s =
     Option.bind (store_byte (USER_CODE_VADDR + 0) 0x0f s) (\<lambda>s.
     Option.bind (store_byte (USER_CODE_VADDR + 1) 0x05 s) (\<lambda>s.
     Option.bind (store_byte (USER_CODE_VADDR + 2) 0xeb s) (\<lambda>s.
     store_byte (USER_CODE_VADDR + 3) 0xfe s)))"

text \<open>
  The processor after the jump, or \<open>None\<close> in its place when the thread gave up and halts. The outer
  \<open>None\<close>: a store faulted, or the log call did not return.
\<close>

definition ring3_demo_thread :: "machine \<Rightarrow> ring_cpu \<Rightarrow> (machine \<times> ring_cpu option) option" where
  "ring3_demo_thread m c =
     (let (ok, v) = map_user_pages (mc_vmm m);
          m = m\<lparr>mc_vmm := v\<rparr>
      in if \<not> ok then
           map_option (\<lambda>l. (m\<lparr>mc_log := l\<rparr>, None))
             (logged LOG_LEVEL_WARN ''ring3 demo: failed to set up the demo mapping, skipping'' [] (mc_log m))
         else
           Option.bind (write_program (mc_vmm m)) (\<lambda>v.
           Option.bind (logged LOG_LEVEL_INFO ''ring3 demo: jumping to ring 3 at 0x%lx'' [Arg_long USER_CODE_VADDR] (mc_log m))
             (\<lambda>l. Some (m\<lparr>mc_vmm := v, mc_log := l\<rparr>,
                    Some (jump_to_ring3 USER_CODE_VADDR (USER_STACK_VADDR + PAGE_SIZE) c)))))"

section \<open>The tail of kmain\<close>

abbreviation (input) QEMU_EXIT_SUCCESS :: u8 where "QEMU_EXIT_SUCCESS \<equiv> 0x10"

definition qemu_debug_exit :: "u8 \<Rightarrow> ports \<Rightarrow> ports" where
  "qemu_debug_exit code p = outb 0xf4 code p"

text \<open>The state the processor halts in for good.\<close>

definition kernel_halt :: "machine \<Rightarrow> machine" where
  "kernel_halt m = m\<lparr>mc_sched := (mc_sched m)\<lparr>sched_cpu := (sched_cpu (mc_sched m))
     \<lparr>rflags := io_disable_interrupts (rflags (sched_cpu (mc_sched m)))\<rparr>\<rparr>\<rparr>"

text \<open>What the boot thread does after its yields.\<close>

definition finish_boot :: "machine \<Rightarrow> machine" where
  "finish_boot m = kernel_halt (m\<lparr>mc_ports := qemu_debug_exit QEMU_EXIT_SUCCESS (mc_ports m)\<rparr>)"

section \<open>The mapping\<close>

lemma second_page: "\<not> same_page 0x400000 0x500000" "same_page 0x400000 0x400000" "same_page 0x500000 0x500000"
  by (simp_all add: same_page_def)

text \<open>What the successful mapping leaves: two fresh pages with their rights, every other translation as before.\<close>

definition user_pages :: "vmm \<Rightarrow> vmm \<Rightarrow> bool" where
  "user_pages s s' \<longleftrightarrow> (\<exists>N M. owns_page s' USER_CODE_VADDR N 3 \<and> owns_page s' USER_STACK_VADDR M 11) \<and>
     (\<forall>v. \<not> same_page v USER_CODE_VADDR \<longrightarrow> \<not> same_page v USER_STACK_VADDR \<longrightarrow> page_entry s' v = page_entry s v)"

lemma map_user_pages_result:
  assumes inv: "vmm_inv s" and small: "small_to s (va_path USER_CODE_VADDR)" "small_to s (va_path USER_STACK_VADDR)"
    and c: "8 < card (pmm_avail (vmm_pmm s))"
  shows "\<exists>s'. map_user_pages s = (True, s') \<and> user_pages s s'"
proof -
  obtain N s1 where a1: "vmm_alloc s = (N, s1)" by (cases "vmm_alloc s")
  have "pmm_avail (vmm_pmm s) \<noteq> {}" using c by auto
  note g1 = vmm_alloc_grows [OF inv a1 this] and o1 = vmm_alloc_own [OF inv a1 this]
  note f1 = grows_facts [OF g1(1)]
  have c1: "7 < card (pmm_avail (vmm_pmm s1))" unfolding g1(5) using c card.remove [OF finite_avail g1(4)] by linarith
  obtain M s2 where a2: "vmm_alloc s1 = (M, s2)" by (cases "vmm_alloc s1")
  have "pmm_avail (vmm_pmm s1) \<noteq> {}" using c1 by auto
  note g2 = vmm_alloc_grows [OF f1(2) a2 this] and o2 = vmm_alloc_own [OF f1(2) a2 this]
  note f2 = grows_facts [OF g2(1)]
  have c2: "6 < card (pmm_avail (vmm_pmm s2))" unfolding g2(5) using c1 card.remove [OF finite_avail g2(4)] by linarith
  have sm: "small_to s2 (va_path USER_CODE_VADDR)" "small_to s2 (va_path USER_STACK_VADDR)"
    using small extends_paths [OF f1(1)] extends_paths [OF f2(1)] unfolding keeps_paths_def by blast+
  have own: "own_frame s2 N" using extends_own(1) [OF f2(1) o1(1)] by simp
  obtain s3 where m3: "vmm_map s2 USER_CODE_VADDR N 3 = (True, s3)" "owns_page s3 USER_CODE_VADDR N 3"
      "page_written (pmm_avail (vmm_pmm s2)) s2 USER_CODE_VADDR (N OR translate_flags 3) s3"
      "3 < card (pmm_avail (vmm_pmm s3))"
    using map_own [OF f2(2) sm(1) own, of 3] c2 by auto
  have e3: "extends (pmm_avail (vmm_pmm s2)) s2 s3" using m3(3) by (simp add: page_written_def)
  have "M \<notin> pmm_avail (vmm_pmm s2)" using g2(5) by simp
  then have "own_frame s3 M" using extends_own(1) [OF e3 o2(1)] by simp
  moreover have "small_to s3 (va_path USER_STACK_VADDR)" "vmm_inv s3"
    using sm(2) extends_paths [OF e3] extends_facts(1) [OF e3] unfolding keeps_paths_def by blast+
  ultimately obtain s4 where m4: "vmm_map s3 USER_STACK_VADDR M 11 = (True, s4)" "owns_page s4 USER_STACK_VADDR M 11"
      "page_written (pmm_avail (vmm_pmm s3)) s3 USER_STACK_VADDR (M OR translate_flags 11) s4"
    using map_own [of s3 USER_STACK_VADDR M 11] m3(4) by auto
  have "map_user_pages s = (True, s4)"
    using a1 a2 o1(3) o2(3) m3(1) m4(1) by (simp add: map_user_pages_def)
  moreover have "owns_page s4 USER_CODE_VADDR N 3" by (rule owns_page_after [OF m3(2) m4(3) second_page(1)])
  moreover have "page_entry s4 v = page_entry s v" if "\<not> same_page v USER_CODE_VADDR" "\<not> same_page v USER_STACK_VADDR" for v
    using that m3(3) m4(3) g1(1) g2(1) by (simp add: page_written_def grows_def)
  ultimately show ?thesis using m4(2) by (auto simp: user_pages_def)
qed

section \<open>The program\<close>

definition program :: "u8 list" where "program = [0x0f, 0x05, 0xeb, 0xfe]"

lemma write_program_result:
  assumes own: "owns_page s USER_CODE_VADDR N 3"
  shows "\<exists>s'. write_program s = Some s' \<and> vmm_inv s' \<and> page_entry s' = page_entry s \<and>
    map (user_fetch s') [0x400000, 0x400001, 0x400002, 0x400003] = map Some program"
proof -
  have p: "same_page 0x400000 0x400000" "same_page 0x400001 0x400000" "same_page 0x400002 0x400000" "same_page 0x400003 0x400000"
    by (simp_all add: same_page_def)
  have w: "bit (3 :: u32) 0" "bit (3 :: u32) 1" "\<not> bit (3 :: u32) 3" by simp_all
  let ?h = "vmm_hhdm_offset s"
  obtain s1 where s1: "store_byte 0x400000 0x0f s = Some s1" "owns_page s1 0x400000 N 3" "page_entry s1 = page_entry s"
      "vmm_mem s1 = (vmm_mem s)(N + ?h := 0x0f)" "vmm_hhdm_offset s1 = ?h"
    using store_own_page [OF own p(1) w(1), of "0x0f"] by auto
  obtain s2 where s2: "store_byte 0x400001 0x05 s1 = Some s2" "owns_page s2 0x400000 N 3" "page_entry s2 = page_entry s"
      "vmm_mem s2 = (vmm_mem s1)(N + 1 + ?h := 0x05)" "vmm_hhdm_offset s2 = ?h"
    using store_own_page [OF s1(2) p(2) w(1), of "0x05"] s1(3,5) by auto
  obtain s3 where s3: "store_byte 0x400002 0xeb s2 = Some s3" "owns_page s3 0x400000 N 3" "page_entry s3 = page_entry s"
      "vmm_mem s3 = (vmm_mem s2)(N + 2 + ?h := 0xeb)" "vmm_hhdm_offset s3 = ?h"
    using store_own_page [OF s2(2) p(3) w(1), of "0xeb"] s2(3,5) by auto
  obtain s4 where s4: "store_byte 0x400003 0xfe s3 = Some s4" "owns_page s4 0x400000 N 3" "page_entry s4 = page_entry s"
      "vmm_mem s4 = (vmm_mem s3)(N + 3 + ?h := 0xfe)" "vmm_hhdm_offset s4 = ?h"
    using store_own_page [OF s3(2) p(4) w(1), of "0xfe"] s3(3,5) by auto
  have "write_program s = Some s4" using s1(1) s2(1) s3(1) s4(1) by (simp add: write_program_def)
  moreover have "map (user_fetch s4) [0x400000, 0x400001, 0x400002, 0x400003] = map Some program"
    using fetch_own_page [OF s4(2) p(1) w(2,3)] fetch_own_page [OF s4(2) p(2) w(2,3)] fetch_own_page [OF s4(2) p(3) w(2,3)]
      fetch_own_page [OF s4(2) p(4) w(2,3)]
    by (simp add: s4(4,5) s3(4) s2(4) s1(4) program_def)
  moreover have "vmm_inv s4" using s4(2) by (simp add: owns_page_def)
  ultimately show ?thesis using s4(3) by auto
qed

text \<open>
  The thread's work on the page tables: the program can be fetched by ring 3 from its page, which stays
  writable; the top of the stack page is writable and not executable; no other translation changed.
\<close>

definition program_loaded :: "vmm \<Rightarrow> vmm \<Rightarrow> bool" where
  "program_loaded s s' \<longleftrightarrow> vmm_inv s' \<and>
     map (user_fetch s') [0x400000, 0x400001, 0x400002, 0x400003] = map Some program \<and>
     page_entry s' 0x400000 AND PTE_WRITABLE \<noteq> 0 \<and>
     page_entry s' (0x501000 - 8) AND PTE_WRITABLE \<noteq> 0 \<and> page_entry s' (0x501000 - 8) AND PTE_USER \<noteq> 0 \<and>
     user_fetch s' (0x501000 - 8) = None \<and>
     (\<forall>v. \<not> same_page v USER_CODE_VADDR \<longrightarrow> \<not> same_page v USER_STACK_VADDR \<longrightarrow> page_entry s' v = page_entry s v)"

lemma demo_loads_program:
  assumes "user_pages s s1"
  shows "\<exists>s2. write_program s1 = Some s2 \<and> program_loaded s s2"
proof -
  obtain N M where o: "owns_page s1 USER_CODE_VADDR N 3" "owns_page s1 USER_STACK_VADDR M 11"
    using assms by (auto simp: user_pages_def)
  obtain s2 where s2: "write_program s1 = Some s2" "vmm_inv s2" "page_entry s2 = page_entry s1"
      "map (user_fetch s2) [0x400000, 0x400001, 0x400002, 0x400003] = map Some program"
    using write_program_result [OF o(1)] by blast
  have "same_page (0x501000 - 8) 0x500000" by (simp add: same_page_def)
  note st = owned_translation [OF o(2) this, simplified]
  have "page_entry s1 0x400000 AND PTE_WRITABLE \<noteq> 0"
    using owned_translation(2) [OF o(1), of "0x400000"] by (simp add: same_page_def)
  moreover have "user_fetch s2 0x500ff8 = None"
    using st by (auto simp: user_fetch_def s2(3) split: option.splits)
  ultimately show ?thesis
    using assms s2 st by (auto simp: program_loaded_def user_pages_def)
qed

lemma demo_message: "\<exists>out. render ''ring3 demo: jumping to ring 3 at 0x%lx'' [Arg_long a] = Inr out"
  by (simp add: rendering)

text \<open>
  The boot thread ends with the success code as the last byte written to a port and with interrupts off, so that
  only a non-maskable interrupt could wake the processor: the threads still in the ring do not run again.
\<close>

lemma finish_boot_halts:
  "last (port_writes (mc_ports (finish_boot m))) = (0xf4, 0x10)"
  "rflags (sched_cpu (mc_sched (finish_boot m))) AND 0x200 = 0"
proof -
  have "(f AND NOT 0x200) AND 0x200 = 0" for f :: u64 by (simp add: and.assoc)
  then show "rflags (sched_cpu (mc_sched (finish_boot m))) AND 0x200 = 0"
    by (simp add: finish_boot_def kernel_halt_def io_disable_interrupts_def)
qed (simp add: finish_boot_def kernel_halt_def qemu_debug_exit_def outb_def)

text \<open>An iteration of the other threads hands the processor to the next one of the ring.\<close>

lemma demo_thread_yields:
  assumes "output_works m" and "sched_inv (mc_sched m) xs"
  shows "returns (demo_thread_iteration name i m) (\<lambda>m'. sched_inv (mc_sched m') (rotate1 xs) \<and> output_works m')"
proof -
  have "\<exists>out. render ''sched: thread %s, iteration %d'' [Arg_str (Some name), Arg_int (of_nat i)] = Inr out"
    by (simp add: rendering)
  then obtain out where "render ''sched: thread %s, iteration %d'' [Arg_str (Some name), Arg_int (of_nat i)] = Inr out" ..
  from say_returns [OF assms(1) this, of LOG_LEVEL_INFO] show ?thesis
    unfolding demo_thread_iteration_def
  proof (rule returns_andthen)
    fix m1 assume "logged_only m m1"
    then have "mc_sched m1 = mc_sched m" "output_works m1" by (auto simp: logged_only_def)
    then show "returns (map_option (\<lambda>s. Inr (m1\<lparr>mc_sched := s\<rparr>)) (sched_yield (mc_sched m1)))
        (\<lambda>m'. sched_inv (mc_sched m') (rotate1 xs) \<and> output_works m')"
      using switch_to_next_inv [OF assms(2)] by (auto simp: sched_yield_def returns_def)
  qed
qed

section \<open>Properties\<close>


lemma demo_ring3_ready:
  obtains s' where "enabled 0xffffffff80005000 demo_syscalls s'" "vmm_inv (sc_vmm s')" "\<And>v. small_to (sc_vmm s') (va_path v)"
    "8 < card (pmm_avail (vmm_pmm (sc_vmm s')))"
proof (rule syscall_init_succeeds [OF demo_syscalls_ok, of "0xffffffff80005000"])
  show "16 < card (pmm_avail (vmm_pmm (sc_vmm demo_syscalls)))" using demo_card by (simp add: demo_syscalls_def)
  fix s' assume s': "enabled 0xffffffff80005000 demo_syscalls s'" "vmm_inv (sc_vmm s')"
    "keeps_paths (sc_vmm demo_syscalls) (sc_vmm s')"
    "card (pmm_avail (vmm_pmm (sc_vmm demo_syscalls))) \<le> card (pmm_avail (vmm_pmm (sc_vmm s'))) + 16"
  then have "8 < card (pmm_avail (vmm_pmm (sc_vmm s')))" using demo_card_exact by (simp add: demo_syscalls_def)
  moreover have "small_to (sc_vmm s') (va_path v)" for v
    using s'(3) demo_paths by (simp add: keeps_paths_def demo_syscalls_def)
  ultimately show thesis using s' that by blast
qed


end
