(* ===== verification/Spec2Isabelle.thy ===== *)
theory Spec2Isabelle
  imports Arch_Panic Drv_Keys Mm_Paged Sched_Preempt Kernel_Demo
begin

text \<open>
  \<^bold>\<open>Quin Kernel Template: a verification library.\<close>

  The program is a freestanding x86-64 kernel under \<^verbatim>\<open>src/kernel\<close>. The bootloader leaves
  its answers in static requests (\<^verbatim>\<open>arch/x86_64/boot/limine_requests.c\<close>);
  \<^verbatim>\<open>kmain\<close> (\<^verbatim>\<open>main.c\<close>) brings up the serial line and the console, the descriptor tables,
  the frame allocator, paging and the heap, the ACPI tables and the interrupt controllers, the scheduler, the
  timer and the keyboard, and the system-call entry; it then creates threads, the last of which enters ring 3.

  \<^bold>\<open>Theories and the code they model.\<close> Each theory opens with the operations of its component, translated
  function by function, and continues with the lemmas about them.

  \<^item> \<open>Quin_Prelude\<close>: machine integers, byte-addressed memory with its loads and stores, the values a
    computation that may panic has, \<^verbatim>\<open>align_up\<close> and \<^verbatim>\<open>align_down\<close>
    (\<^verbatim>\<open>include/kernel.h\<close>), and the lemmas all share (\<open>word_nat\<close>, \<open>mem_simps\<close>).
  \<^item> \<open>Lib_String\<close>, \<open>Lib_Bitmap\<close>, \<open>Lib_Printf\<close>, \<open>Lib_Log\<close>:
    \<^verbatim>\<open>lib/string.c\<close>, \<^verbatim>\<open>bitmap.c\<close>, \<^verbatim>\<open>printf.c\<close>, \<^verbatim>\<open>log.c\<close>. The locale
    \<open>bit_array\<close> is the contract of the bitmap, \<open>char_sink\<close> that of a character sink of the formatter.
  \<^item> \<open>Boot_Info\<close>: the bootloader's answers and the accessors of \<^verbatim>\<open>limine_requests.c\<close>.
  \<^item> \<open>Mm_Pmm\<close>: the physical frame allocator \<^verbatim>\<open>mm/pmm.c\<close>, whose bitmap lies in the memory it
    manages; the locale \<open>frame_allocator\<close> is what paging relies on.
  \<^item> \<open>Arch_Vmm\<close>: \<^verbatim>\<open>arch/x86_64/mm/vmm.c\<close>, page tables as bytes of that memory.
    \<open>Arch_Mmu\<close> has the processor's page walk and the tree invariant of the tables, \<open>Arch_Paging\<close>
    the promises of every operation, \<open>Arch_Access\<close> loads, stores and fetches through the tables.
  \<^item> \<open>Mm_Heap\<close>: the first-fit heap \<^verbatim>\<open>mm/heap.c\<close>, block headers as bytes, refined to a list of blocks.
    \<open>Mm_Paged\<close> puts the page tables and the page-fault handler under its loads and stores.
  \<^item> \<open>Arch_Gdt\<close>, \<open>Arch_Idt\<close>, \<open>Arch_Isr\<close>: \<^verbatim>\<open>gdt.c\<close>, \<^verbatim>\<open>gdt_flush.S\<close>,
    \<^verbatim>\<open>idt.c\<close>, \<^verbatim>\<open>isr_stubs.S\<close>, \<^verbatim>\<open>isr.c\<close>: descriptors, gates, entry stubs, dispatch.
    \<open>Arch_Entry\<close> executes the stubs from the processor's delivery to \<^verbatim>\<open>iretq\<close>, around a compiled
    dispatcher whose contract is the locale \<open>isr_callee\<close>.
  \<^item> \<open>Arch_Io\<close>, \<open>Arch_Apic\<close>, \<open>Drv_Timer\<close>: \<^verbatim>\<open>io.h\<close>, \<^verbatim>\<open>lapic.c\<close>,
    \<^verbatim>\<open>ioapic.c\<close>, \<^verbatim>\<open>lapic_timer.c\<close>, \<^verbatim>\<open>timer.c\<close>. Devices record what is written to them in
    order; what they answer is a parameter of the state.
  \<^item> \<open>Drv_Serial\<close>, \<open>Drv_Font\<close>, \<open>Drv_Framebuffer\<close>, \<open>Drv_Keyboard\<close>: the drivers. \<open>Drv_Keys\<close> takes the
    read of a key access by access, with the key handler in between.
  \<^item> \<open>Arch_Panic\<close>: the two panic reports of \<^verbatim>\<open>panic.c\<close>.
  \<^item> \<open>Sched_Spinlock\<close>, \<open>Sched_Context\<close>, \<open>Sched_Sched\<close>, \<open>Sched_Thread\<close>:
    \<^verbatim>\<open>spinlock.c\<close>, \<^verbatim>\<open>context_switch.S\<close>, \<^verbatim>\<open>sched.c\<close>, \<^verbatim>\<open>thread.c\<close>.
    \<open>Sched_Preempt\<close> composes them with the interrupt stubs: a switch in the middle of a handler.
  \<^item> \<open>Acpi_Tables\<close>, \<open>Acpi_Madt\<close>: \<^verbatim>\<open>acpi/acpi.c\<close>, \<^verbatim>\<open>madt.c\<close>.
  \<^item> \<open>Arch_Syscall\<close>: \<^verbatim>\<open>syscall.c\<close>, \<^verbatim>\<open>syscall_entry.S\<close>; the locale \<open>sysv_callee\<close>
    is the calling convention the stub relies on.
  \<^item> \<open>Kernel_Main\<close>: \<^verbatim>\<open>main.c\<close> from the hand-over to the creation of the threads, and
    \<^verbatim>\<open>boot/entry.c\<close>. The record \<open>machine\<close> puts the states of the components side by side.
    \<open>Kernel_Boot\<close> has one lemma per stage of the sequence, \<open>Kernel_Up\<close> the whole of it.
  \<^item> \<open>Kernel_Demo\<close>: the demo threads and the end of \<^verbatim>\<open>kmain\<close>, \<^verbatim>\<open>halt.c\<close>,
    \<^verbatim>\<open>qemu_exit.c\<close>.

  \<^bold>\<open>Conventions.\<close> C integers are words of their width, so arithmetic wraps; a \<^verbatim>\<open>struct\<close> is a
  record, file-static variables are fields of the component's record, and operations take and return it. A
  panic is the left value of \<open>kresult\<close>. A loop that waits for something outside it (the serial
  transmitter, the PIT, a lock held by somebody else, a string without end) is a partial function into
  \<open>option\<close>, \<open>None\<close> when it never ends; every other loop is a total function with its measure, so that no fuel
  occurs anywhere. Theorems about the former state when they do return.

  \<^bold>\<open>What the lemmas show.\<close> Memory: the frame allocator never hands out a frame twice and keeps its bitmap
  and counter exact; mapping changes the translation of one page and nothing else, and the tables stay a tree in
  frames nobody else owns; the heap keeps disjoint blocks and merges all it gets back, and its memory, mapped page by
  page as it is touched, reads and writes like a flat one. Interrupts: every gate
  leads to its stub and every stub leaves the same frame; the interrupted code gets all its registers back, and vectors
  are acknowledged once, before their handler; redirection entries are never live
  half-written. Scheduling: the lock excludes and makes progress, the ring is fair, a switched-out thread resumes as it
  was, a preempted one with every register and flag; one that yielded can come back with interrupts off. Input: the key buffer is a queue for one reader without a lock. Output: the
  formatter's output does not depend on the sink, bounded printing stays in its buffer, the console shows a terminal. Boot tables: what is accepted has been checked, and the parsers end on any bytes. The whole: on a
  loaded image and a correct hand-over the boot sequence returns with every component in a consistent state and four
  threads ready to start, and the ring 3 thread gets to user mode and through a system call and back.

  \<^bold>\<open>Parameters and their assumptions.\<close> The bootloader's answers and the memory it leaves are arguments; where the
  allocator or the page tables need them well formed (disjoint usable ranges below the top of memory, page tables
  outside usable frames, no large page on the way to an address that is mapped), the theorem says so, and its
  witness is a concrete machine. Memory is sequentially consistent; the spinlock's machine interleaves whole
  atomic operations.

  \<^bold>\<open>Bounds.\<close> The boot theorem asks for 87 free frames: two device pages take at most three tables each, the
  five four-page stacks at most sixteen frames each, and a call with more than sixteen free frames does not fail. The
  guarded stacks stay within the first 30 pages of their window, which is where large pages are excluded.

  \<^bold>\<open>Not modelled.\<close> Interrupts that arrive between two calls of the boot sequence (they are the subject of
  \<open>Sched_Preempt\<close> and of the timer's theorems), the loops that only halt, the macro behind \<^verbatim>\<open>limine_requests_check\<close>
  (its answer is an argument: the protocol header is a submodule that is not part of the sources), the
  unused 16- and 32-bit port accesses, and the linker script.
\<close>

end
